(* ===== verification/Nd_Prelude.thy ===== *)
theory Nd_Prelude
  imports Main "HOL-Library.Word" "HOL-Library.Monad_Syntax"
begin

text \<open>
  What every component of the development shares: the machine types of the C sources, pointers,
  the helper functions for bounded reads, the collections of rewrite rules the component
  proofs are driven by, and generic lemmas on lists, finite maps and reference counting.

  Conventions.  \<open>ptr\<close> is the address of a live heap object and \<open>ptr option\<close> a C pointer that
  may be \<open>NULL\<close> (\<open>None\<close>).  An operation of type \<open>\<dots> \<Rightarrow> 'a option\<close> returns \<open>None\<close> exactly where
  the C code would have undefined behaviour (a \<open>NULL\<close> or dangling dereference, a read out of
  bounds, a signed overflow); theorems that an operation returns \<open>Some\<close> are therefore
  memory-safety theorems.
\<close>

unbundle bit_operations_syntax

type_synonym u8 = "8 word"
type_synonym u16 = "16 word"
type_synonym u32 = "32 word"
type_synonym bytes = "u8 list"
type_synonym ptr = nat

named_theorems frame_simps \<open>fields an operation leaves alone\<close>
named_theorems safe_simps \<open>what a dereference returns under the invariant\<close>

subsection \<open>Guards\<close>

text \<open>\<open>require\<close> is the point at which the C code relies on a condition it does not test.\<close>

definition require :: "bool \<Rightarrow> unit option" where
  "require b = (if b then Some () else None)"

lemma require_simps [simp]: "require True = Some ()" "require False = None"
  by (simp_all add: require_def)

lemma require_Some [simp]: "require b = Some u \<longleftrightarrow> b"
  by (simp add: require_def)

lemma bind_require [simp]: "(require b \<bind> f) = Some x \<longleftrightarrow> b \<and> f () = Some x"
  by (cases b) simp_all

text \<open>Reading \<open>n\<close> bytes at offset \<open>i\<close> of a buffer: undefined when any of them is outside it.\<close>

definition read_bytes :: "bytes \<Rightarrow> nat \<Rightarrow> nat \<Rightarrow> bytes option" where
  "read_bytes b i n = (if i + n \<le> length b then Some (take n (drop i b)) else None)"

definition read_byte :: "bytes \<Rightarrow> nat \<Rightarrow> u8 option" where
  "read_byte b i = (if i < length b then Some (b ! i) else None)"

lemma read_bytes_Some [simp]: "i + n \<le> length b \<Longrightarrow> read_bytes b i n = Some (take n (drop i b))"
  by (simp add: read_bytes_def)

lemma read_bytes_length: "read_bytes b i n = Some r \<Longrightarrow> length r = n"
  by (auto simp: read_bytes_def split: if_splits)

lemma read_byte_Some [simp]: "i < length b \<Longrightarrow> read_byte b i = Some (b ! i)"
  by (simp add: read_byte_def)

subsection \<open>Lists\<close>

lemma find_SomeD: "find P xs = Some x \<Longrightarrow> x \<in> set xs \<and> P x"
  by (auto simp: find_Some_iff)

lemma find_not_None: "x \<in> set xs \<Longrightarrow> P x \<Longrightarrow> \<exists>y. find P xs = Some y"
  by (metis find_None_iff option.exhaust)

lemma find_unique:
  assumes "x \<in> set xs" and "P x" and "\<And>y. y \<in> set xs \<Longrightarrow> P y \<Longrightarrow> y = x"
  shows "find P xs = Some x"
  using assms by (metis find_SomeD find_not_None)

lemma find_cong_set: "(\<And>x. x \<in> set xs \<Longrightarrow> P x = Q x) \<Longrightarrow> find P xs = find Q xs"
  by (induction xs) auto

lemma nth_list_update_all:
  "i < length xs \<Longrightarrow> j < length xs \<Longrightarrow> (xs[i := v]) ! j = (if j = i then v else xs ! j)"
  by (auto simp: nth_list_update)

subsection \<open>Counting the objects of a heap that satisfy a predicate\<close>

text \<open>
  A heap is a finite map from addresses to objects.  \<open>heap_count P h\<close> is the number of live
  objects with \<open>P\<close>; reference counts are equated with it.
\<close>

definition heap_count :: "('a \<Rightarrow> bool) \<Rightarrow> (ptr \<rightharpoonup> 'a) \<Rightarrow> nat" where
  "heap_count P h = card {p. \<exists>x. h p = Some x \<and> P x}"

lemma heap_set_finite [simp]: "finite (dom h) \<Longrightarrow> finite {p. \<exists>x. h p = Some x \<and> P x}"
  by (rule finite_subset [of _ "dom h"]) auto

lemma heap_count_empty [simp]: "heap_count P Map.empty = 0"
  by (simp add: heap_count_def)

lemma heap_count_insert:
  assumes "finite (dom h)" and "h p = None"
  shows "heap_count P (h(p \<mapsto> x)) = heap_count P h + (if P x then 1 else 0)"
proof -
  have "{q. \<exists>y. (h(p \<mapsto> x)) q = Some y \<and> P y} =
        (if P x then insert p {q. \<exists>y. h q = Some y \<and> P y} else {q. \<exists>y. h q = Some y \<and> P y})"
    using assms(2) by (auto split: if_splits)
  then show ?thesis using assms by (simp add: heap_count_def)
qed

lemma heap_count_remove:
  assumes "finite (dom h)" and "h p = Some x"
  shows "heap_count P (h(p := None)) + (if P x then 1 else 0) = heap_count P h"
proof -
  have "h = (h(p := None))(p \<mapsto> x)" using assms(2) by (auto simp: fun_eq_iff)
  moreover have "finite (dom (h(p := None)))" using assms(1) by simp
  ultimately show ?thesis using heap_count_insert [of "h(p := None)" p P x] by auto
qed

lemma heap_count_update:
  assumes "finite (dom h)" and "h p = Some x"
  shows "heap_count P (h(p \<mapsto> y)) + (if P x then 1 else 0) = heap_count P h + (if P y then 1 else 0)"
proof -
  have "heap_count P ((h(p := None))(p \<mapsto> y)) = heap_count P (h(p := None)) + (if P y then 1 else 0)"
    using assms by (intro heap_count_insert) auto
  then show ?thesis using heap_count_remove [OF assms, of P] by simp
qed

lemma heap_count_same:
  assumes "finite (dom h)" and "h p = Some x" and "P y = P x"
  shows "heap_count P (h(p \<mapsto> y)) = heap_count P h"
  using heap_count_update [OF assms(1,2), of P y] assms(3) by auto

lemma heap_count_pos: "finite (dom h) \<Longrightarrow> h p = Some x \<Longrightarrow> P x \<Longrightarrow> 0 < heap_count P h"
  unfolding heap_count_def by (subst card_gt_0_iff) auto

lemma heap_count_zero: "finite (dom h) \<Longrightarrow> heap_count P h = 0 \<Longrightarrow> h p = Some x \<Longrightarrow> \<not> P x"
  using heap_count_pos by fastforce

lemma card_dom_insert: "finite (dom h) \<Longrightarrow> h p = None \<Longrightarrow> card (dom (h(p \<mapsto> x))) = Suc (card (dom h))"
  by (simp add: domIff)

lemma card_dom_remove: "finite (dom h) \<Longrightarrow> h p = Some x \<Longrightarrow> Suc (card (dom (h(p := None)))) = card (dom h)"
  by (metis card_Suc_Diff1 domI dom_fun_upd)

subsection \<open>Searching and folding over heap objects\<close>

text \<open>
  \<open>ND_LL_SEARCH\<close> over a list of addresses with a predicate on the objects: every object up to
  the one found is dereferenced.  \<open>foldM\<close> runs a fallible loop body over a list.
\<close>

fun heap_find :: "(ptr \<rightharpoonup> 'a) \<Rightarrow> ('a \<Rightarrow> bool) \<Rightarrow> ptr list \<Rightarrow> ptr option option" where
  "heap_find h P [] = Some None"
| "heap_find h P (p # ps) = do { x \<leftarrow> h p; if P x then Some (Some p) else heap_find h P ps }"

text \<open>The same with a predicate that dereferences further.\<close>

fun heap_findM :: "(ptr \<rightharpoonup> 'a) \<Rightarrow> ('a \<Rightarrow> bool option) \<Rightarrow> ptr list \<Rightarrow> ptr option option" where
  "heap_findM h P [] = Some None"
| "heap_findM h P (p # ps) = do { x \<leftarrow> h p; b \<leftarrow> P x; if b then Some (Some p) else heap_findM h P ps }"

fun foldM :: "('a \<Rightarrow> 's \<Rightarrow> 's option) \<Rightarrow> 'a list \<Rightarrow> 's \<Rightarrow> 's option" where
  "foldM f [] s = Some s"
| "foldM f (x # xs) s = do { s' \<leftarrow> f x s; foldM f xs s' }"

text \<open>A loop whose body may return \<open>false\<close>, which ends the enclosing function.\<close>

fun all_loop :: "('a \<Rightarrow> 's \<Rightarrow> (bool \<times> 's) option) \<Rightarrow> 'a list \<Rightarrow> 's \<Rightarrow> (bool \<times> 's) option" where
  "all_loop f [] s = Some (True, s)"
| "all_loop f (x # xs) s = do { (ok, s') \<leftarrow> f x s; if ok then all_loop f xs s' else Some (False, s') }"

lemma heap_find_total: "set ps \<subseteq> dom h \<Longrightarrow> \<exists>r. heap_find h P ps = Some r"
  by (induction ps) auto

lemma heap_find_SomeD:
  "heap_find h P ps = Some (Some p) \<Longrightarrow> p \<in> set ps \<and> (\<exists>x. h p = Some x \<and> P x)"
  by (induction ps) (auto simp: bind_eq_Some_conv split: if_splits)

lemma heap_find_NoneD: "heap_find h P ps = Some None \<Longrightarrow> p \<in> set ps \<Longrightarrow> \<exists>x. h p = Some x \<and> \<not> P x"
  by (induction ps) (auto simp: bind_eq_Some_conv split: if_splits)

lemma heap_find_find:
  "set ps \<subseteq> dom h \<Longrightarrow> heap_find h P ps = Some (find (\<lambda>p. \<exists>x. h p = Some x \<and> P x) ps)"
  by (induction ps) auto

lemma heap_findM_heap_find:
  "(\<And>p x. p \<in> set ps \<Longrightarrow> h p = Some x \<Longrightarrow> P x = Some (Q x)) \<Longrightarrow> heap_findM h P ps = heap_find h Q ps"
proof (induction ps)
  case (Cons p ps)
  show ?case
  proof (cases "h p")
    case (Some x)
    then have "P x = Some (Q x)" using Cons.prems [of p x] by simp
    moreover have "heap_findM h P ps = heap_find h Q ps"
      by (rule Cons.IH, rule Cons.prems) simp_all
    ultimately show ?thesis using Some by simp
  qed simp
qed simp

lemma foldM_append: "foldM f (xs @ ys) s = do { s' \<leftarrow> foldM f xs s; foldM f ys s' }"
  by (induction xs arbitrary: s) (auto simp: bind_eq_None_conv split: Option.bind_splits)

text \<open>A loop invariant that every turn re-establishes, whose preservation makes the loop safe.\<close>

lemma foldM_inv:
  assumes "I s" and "\<And>x s. x \<in> set xs \<Longrightarrow> I s \<Longrightarrow> \<exists>s'. f x s = Some s' \<and> I s'"
  shows "\<exists>s'. foldM f xs s = Some s' \<and> I s'"
  using assms
proof (induction xs arbitrary: s)
  case (Cons x xs)
  then obtain s' where "f x s = Some s'" "I s'" by (meson list.set_intros(1))
  with Cons show ?case by simp
qed simp

text \<open>A reflexive and transitive relation that every turn of a loop respects.\<close>

lemma foldM_rel:
  assumes "foldM f xs s = Some s'" and "\<And>s. R s s" and "\<And>a b c. R a b \<Longrightarrow> R b c \<Longrightarrow> R a c"
    and "\<And>x s s'. x \<in> set xs \<Longrightarrow> f x s = Some s' \<Longrightarrow> R s s'"
  shows "R s s'"
  using assms(1,4)
proof (induction xs arbitrary: s)
  case Nil
  then show ?case using assms(2) by simp
next
  case (Cons x xs)
  then obtain s1 where s1: "f x s = Some s1" "foldM f xs s1 = Some s'" by (auto simp: bind_eq_Some_conv)
  have "R s s1" by (rule Cons.prems(2) [OF _ s1(1)]) simp
  moreover have "R s1 s'" by (rule Cons.IH [OF s1(2)]) (rule Cons.prems(2), simp_all)
  ultimately show ?case by (rule assms(3))
qed

subsection \<open>Bitwise conjunction of naturals, digit by digit\<close>

lemma nat_and_split:
  fixes d m x y :: nat
  assumes "d < 2 ^ s" and "m < 2 ^ s"
  shows "(d + 2 ^ s * x) AND (m + 2 ^ s * y) = (d AND m) + 2 ^ s * (x AND y)"
proof -
  have tk: "take_bit s (d + 2 ^ s * x) = d" "take_bit s (m + 2 ^ s * y) = m"
    using assms by (simp_all add: take_bit_eq_mod)
  have dr: "drop_bit s (d + 2 ^ s * x) = x" "drop_bit s (m + 2 ^ s * y) = y"
    using assms by (simp_all add: drop_bit_eq_div)
  have "(d + 2 ^ s * x) AND (m + 2 ^ s * y) =
        push_bit s (drop_bit s ((d + 2 ^ s * x) AND (m + 2 ^ s * y))) +
        take_bit s ((d + 2 ^ s * x) AND (m + 2 ^ s * y))"
    by (rule bits_ident [symmetric])
  also have "\<dots> = push_bit s (x AND y) + (d AND m)"
    by (simp only: drop_bit_and take_bit_and tk dr)
  finally show ?thesis by (simp add: push_bit_eq_mult ac_simps)
qed

lemma nat_and_low: "x AND (2 ^ s - 1) = x mod (2 ^ s :: nat)"
  by (simp only: mask_eq_exp_minus_1 [symmetric] take_bit_eq_mask [symmetric] take_bit_eq_mod)

end
