(* ===== verification/Addr.thy ===== *)
theory Addr
  imports Nd_Prelude
begin

text \<open>
  \<^verbatim>\<open>src/addr.c\<close>: IPv6 and link-layer addresses.  An \<open>nd_addr\<close> is the union of four 32-bit
  words and sixteen bytes; the model keeps the words and reads the bytes through the byte
  order of the host, as the union does.  Both mask tables of the source (one per byte order)
  are here, and the theorems about matching, combining and masks hold for both: the bit
  numbering \<open>abit\<close> is the one on the wire, whatever the host.
\<close>

subsection \<open>Data\<close>

datatype byte_order = BigEndian | LittleEndian

datatype nd_addr = Nd_addr (au32_0: u32) (au32_1: u32) (au32_2: u32) (au32_3: u32)

datatype nd_lladdr = Nd_lladdr (ll0: u8) (ll1: u8) (ll2: u8) (ll3: u8) (ll4: u8) (ll5: u8)

definition au32 :: "nd_addr \<Rightarrow> nat \<Rightarrow> u32" where
  "au32 a i = (if i = 0 then au32_0 a else if i = 1 then au32_1 a
               else if i = 2 then au32_2 a else au32_3 a)"

definition addr_of :: "(nat \<Rightarrow> u32) \<Rightarrow> nd_addr" where
  "addr_of f = Nd_addr (f 0) (f 1) (f 2) (f 3)"

text \<open>Where byte \<open>i\<close> of the union lies in word \<open>i div 4\<close>.\<close>

definition byte_shift :: "byte_order \<Rightarrow> nat \<Rightarrow> nat" where
  "byte_shift bo i = (case bo of BigEndian \<Rightarrow> 8 * (3 - i mod 4) | LittleEndian \<Rightarrow> 8 * (i mod 4))"

definition au8 :: "byte_order \<Rightarrow> nd_addr \<Rightarrow> nat \<Rightarrow> u8" where
  "au8 bo a i = ucast (drop_bit (byte_shift bo i) (au32 a (i div 4)))"

definition addr_bytes :: "byte_order \<Rightarrow> nd_addr \<Rightarrow> bytes" where
  "addr_bytes bo a = map (au8 bo a) [0..<16]"

definition lladdr_bytes :: "nd_lladdr \<Rightarrow> bytes" where
  "lladdr_bytes l = [ll0 l, ll1 l, ll2 l, ll3 l, ll4 l, ll5 l]"

text \<open>The same bytes written through the \<open>u8\<close> arm of the union.\<close>

definition word_of_bytes :: "byte_order \<Rightarrow> u8 \<Rightarrow> u8 \<Rightarrow> u8 \<Rightarrow> u8 \<Rightarrow> u32" where
  "word_of_bytes bo b0 b1 b2 b3 =
     (push_bit (byte_shift bo 0) (ucast b0) OR push_bit (byte_shift bo 1) (ucast b1) OR
      push_bit (byte_shift bo 2) (ucast b2) OR push_bit (byte_shift bo 3) (ucast b3))"

definition addr_of_bytes :: "byte_order \<Rightarrow> bytes \<Rightarrow> nd_addr" where
  "addr_of_bytes bo b =
     addr_of (\<lambda>i. word_of_bytes bo (b ! (4 * i)) (b ! (4 * i + 1)) (b ! (4 * i + 2)) (b ! (4 * i + 3)))"

definition lladdr_of_bytes :: "bytes \<Rightarrow> nd_lladdr" where
  "lladdr_of_bytes b = Nd_lladdr (b ! 0) (b ! 1) (b ! 2) (b ! 3) (b ! 4) (b ! 5)"

subsection \<open>Operations\<close>

definition ndL_masks_be :: "u32 list" where
  "ndL_masks_be =
    [0x80000000, 0xc0000000, 0xe0000000, 0xf0000000, 0xf8000000, 0xfc000000, 0xfe000000, 0xff000000,
     0xff800000, 0xffc00000, 0xffe00000, 0xfff00000, 0xfff80000, 0xfffc0000, 0xfffe0000, 0xffff0000,
     0xffff8000, 0xffffc000, 0xffffe000, 0xfffff000, 0xfffff800, 0xfffffc00, 0xfffffe00, 0xffffff00,
     0xffffff80, 0xffffffc0, 0xffffffe0, 0xfffffff0, 0xfffffff8, 0xfffffffc, 0xfffffffe, 0xffffffff]"

definition ndL_masks_le :: "u32 list" where
  "ndL_masks_le =
    [0x00000080, 0x000000c0, 0x000000e0, 0x000000f0, 0x000000f8, 0x000000fc, 0x000000fe, 0x000000ff,
     0x000080ff, 0x0000c0ff, 0x0000e0ff, 0x0000f0ff, 0x0000f8ff, 0x0000fcff, 0x0000feff, 0x0000ffff,
     0x0080ffff, 0x00c0ffff, 0x00e0ffff, 0x00f0ffff, 0x00f8ffff, 0x00fcffff, 0x00feffff, 0x00ffffff,
     0x80ffffff, 0xc0ffffff, 0xe0ffffff, 0xf0ffffff, 0xf8ffffff, 0xfcffffff, 0xfeffffff, 0xffffffff]"

definition ndL_masks :: "byte_order \<Rightarrow> u32 list" where
  "ndL_masks bo = (case bo of BigEndian \<Rightarrow> ndL_masks_be | LittleEndian \<Rightarrow> ndL_masks_le)"

definition nd_addr_is_multicast :: "byte_order \<Rightarrow> nd_addr \<Rightarrow> bool" where
  "nd_addr_is_multicast bo a = (au8 bo a 0 = 0xff)"

definition nd_addr_eq :: "nd_addr \<Rightarrow> nd_addr \<Rightarrow> bool" where
  "nd_addr_eq a b = (au32 a 0 = au32 b 0 \<and> au32 a 1 = au32 b 1 \<and> au32 a 2 = au32 b 2 \<and> au32 a 3 = au32 b 3)"

function match_loop :: "byte_order \<Rightarrow> nd_addr \<Rightarrow> nd_addr \<Rightarrow> nat \<Rightarrow> nat \<Rightarrow> nat \<Rightarrow> bool" where
  "match_loop bo a b pflen tp i =
     (if i \<le> tp then
        let mask = (if i < tp then 0xffffffff else ndL_masks bo ! ((pflen - 1) mod 32))
        in if (au32 a i XOR au32 b i) AND mask \<noteq> 0 then False
           else match_loop bo a b pflen tp (i + 1)
      else True)"
  by pat_completeness auto
termination
  by (relation "measure (\<lambda>(bo, a, b, pflen, tp, i). Suc tp - i)") auto

definition nd_addr_match :: "byte_order \<Rightarrow> nd_addr \<Rightarrow> nd_addr \<Rightarrow> nat \<Rightarrow> bool" where
  "nd_addr_match bo a b pflen =
     (if pflen > 128 then False
      else if pflen = 0 then True
      else if pflen = 128 then nd_addr_eq a b
      else match_loop bo a b pflen ((pflen - 1) div 32) 0)"

definition nd_addr_combine :: "byte_order \<Rightarrow> nd_addr \<Rightarrow> nd_addr \<Rightarrow> nat \<Rightarrow> nd_addr" where
  "nd_addr_combine bo a b pflen =
     (if pflen = 0 then b
      else if pflen \<ge> 128 then a
      else addr_of (\<lambda>i.
        let tp = (pflen - 1) div 32 in
        if i = tp then
          let mask = ndL_masks bo ! ((pflen - 1) mod 32)
          in (au32 a i AND mask) OR (au32 b i AND NOT mask)
        else if i < tp then au32 a i
        else au32 b i))"

definition ndL_count_bits :: "u32 \<Rightarrow> u32" where
  "ndL_count_bits v0 =
     (let v1 = (v0 AND 0x55555555) + (drop_bit 1 v0 AND 0x55555555);
          v2 = (v1 AND 0x33333333) + (drop_bit 2 v1 AND 0x33333333);
          v3 = (v2 AND 0x0f0f0f0f) + (drop_bit 4 v2 AND 0x0f0f0f0f);
          v4 = (v3 AND 0x00ff00ff) + (drop_bit 8 v3 AND 0x00ff00ff);
          v5 = (v4 AND 0x0000ffff) + (drop_bit 16 v4 AND 0x0000ffff)
      in v5)"

definition nd_mask_to_pflen :: "nd_addr \<Rightarrow> nat" where
  "nd_mask_to_pflen m =
     unat (ndL_count_bits (au32 m 0)) + unat (ndL_count_bits (au32 m 1)) +
     unat (ndL_count_bits (au32 m 2)) + unat (ndL_count_bits (au32 m 3))"

definition nd_mask_from_pflen :: "byte_order \<Rightarrow> nat \<Rightarrow> nd_addr" where
  "nd_mask_from_pflen bo pflen =
     (if pflen = 0 then addr_of (\<lambda>_. 0)
      else if pflen \<ge> 128 then addr_of (\<lambda>_. 0xffffffff)
      else addr_of (\<lambda>i.
        let tp = (pflen - 1) div 32 in
        if i = tp then ndL_masks bo ! ((pflen - 1) mod 32)
        else if i < tp then 0xffffffff
        else 0))"

definition nd_addr_is_unspecified :: "nd_addr \<Rightarrow> bool" where
  "nd_addr_is_unspecified a = (au32 a 0 = 0 \<and> au32 a 1 = 0 \<and> au32 a 2 = 0 \<and> au32 a 3 = 0)"

definition nd_lladdr_eq :: "nd_lladdr \<Rightarrow> nd_lladdr \<Rightarrow> bool" where
  "nd_lladdr_eq a b = (lladdr_bytes a = lladdr_bytes b)"

definition nd_lladdr_is_unspecified :: "nd_lladdr \<Rightarrow> bool" where
  "nd_lladdr_is_unspecified l =
     (ll0 l = 0 \<and> ll1 l = 0 \<and> ll2 l = 0 \<and> ll3 l = 0 \<and> ll4 l = 0 \<and> ll5 l = 0)"

text \<open>
  The hash seed: a successful, non-zero four-byte read of \<open>/dev/urandom\<close>, else a mix of the
  time and the process id, replaced by a constant when the mix is zero.
\<close>

definition ndL_init_hash_seed :: "u32 option \<Rightarrow> u32 \<Rightarrow> u32 \<Rightarrow> u32 \<Rightarrow> u32" where
  "ndL_init_hash_seed urandom tv_sec tv_usec pid =
     (case urandom of
        Some r \<Rightarrow> if r \<noteq> 0 then r
                  else let s = (tv_sec * 2654435761) XOR (tv_usec * 40503) XOR pid
                       in if s = 0 then 0x9e3779b9 else s
      | None \<Rightarrow> let s = (tv_sec * 2654435761) XOR (tv_usec * 40503) XOR pid
                in if s = 0 then 0x9e3779b9 else s)"

definition nd_addr_hash :: "u32 \<Rightarrow> nd_addr \<Rightarrow> u32" where
  "nd_addr_hash seed a =
     (let h0 = 31 * seed + au32 a 0;
          h1 = 31 * h0 + au32 a 1;
          h2 = 31 * h1 + au32 a 2;
          h3 = 31 * h2 + au32 a 3
      in h3)"

subsection \<open>Bits in network order\<close>

definition abit :: "byte_order \<Rightarrow> nd_addr \<Rightarrow> nat \<Rightarrow> bool" where
  "abit bo a k = bit (au8 bo a (k div 8)) (7 - k mod 8)"

definition bitpos :: "byte_order \<Rightarrow> nat \<Rightarrow> nat" where
  "bitpos bo j = byte_shift bo (j div 8) + (7 - j mod 8)"

lemma au32_addr_of [simp]: "i < 4 \<Longrightarrow> au32 (addr_of f) i = f i"
  by (auto simp: au32_def addr_of_def less_Suc_eq numeral_eq_Suc)

lemma bitpos_be [simp]: "j < 32 \<Longrightarrow> bitpos BigEndian j = 31 - j"
proof -
  assume j: "j < 32"
  have arith: "q < 4 \<Longrightarrow> r < 8 \<Longrightarrow> 8 * (3 - q) + (7 - r) = 31 - (8 * q + r)" for q r :: nat
    by arith
  from j have q: "j div 8 < 4" by auto
  then have "bitpos BigEndian j = 8 * (3 - j div 8) + (7 - j mod 8)"
    by (simp add: bitpos_def byte_shift_def)
  also have "\<dots> = 31 - (8 * (j div 8) + j mod 8)" using q by (intro arith) simp_all
  finally show ?thesis by (simp only: mult_div_mod_eq)
qed

lemma bitpos_le [simp]: "j < 32 \<Longrightarrow> bitpos LittleEndian j = 8 * (j div 8) + (7 - j mod 8)"
proof -
  assume "j < 32"
  then have "j div 8 < 4" by auto
  then show ?thesis by (simp add: bitpos_def byte_shift_def)
qed

lemma bitpos_less: "j < 32 \<Longrightarrow> bitpos bo j < 32"
proof -
  assume "j < 32"
  moreover from this have "j div 8 < 4" by auto
  ultimately show ?thesis by (cases bo) simp_all
qed

lemma abit_word: "k < 128 \<Longrightarrow> abit bo a k = bit (au32 a (k div 32)) (bitpos bo (k mod 32))"
proof -
  assume "k < 128"
  have "k div 8 div 4 = k div 32" by (simp add: div_mult2_eq [symmetric])
  moreover have "k div 8 mod 4 = k mod 32 div 8" using mod_mult2_eq [of k 8 4] by simp
  then have "k mod 32 div 8 mod 4 = k div 8 mod 4" by (metis mod_mod_trivial)
  then have "byte_shift bo (k div 8) = byte_shift bo (k mod 32 div 8)"
    unfolding byte_shift_def by (simp only:)
  moreover have "k mod 32 mod 8 = k mod 8" by (rule mod_mod_cancel) simp
  moreover have "7 - k mod 8 < LENGTH(8)" by (rule le_less_trans [of _ 7]) simp_all
  ultimately show ?thesis
    by (simp only: abit_def au8_def bitpos_def bit_ucast_iff bit_drop_bit_eq o_def simp_thms)
qed

lemma bitpos_surj: "n < 32 \<Longrightarrow> \<exists>j<32. bitpos bo j = n"
proof (cases bo)
  case BigEndian
  assume "n < 32"
  with BigEndian show ?thesis by (intro exI [of _ "31 - n"]) simp
next
  case LittleEndian
  assume n: "n < 32"
  define j where "j = 8 * (n div 8) + (7 - n mod 8)"
  have q: "n div 8 < 4" using n by auto
  have "7 - n mod 8 < 8" by simp
  then have "j div 8 = n div 8" and m: "j mod 8 = 7 - n mod 8"
    unfolding j_def by (simp_all only: mod_mult_self4 mod_less div_mult_self4 div_less)
  moreover have "j < 32" using q unfolding j_def by simp
  moreover have "7 - (7 - n mod 8) = n mod 8" by simp
  ultimately have "bitpos bo j = 8 * (n div 8) + n mod 8" using LittleEndian by simp
  with \<open>j < 32\<close> show ?thesis by (intro exI [of _ j]) simp
qed

lemma word_eq_bitpos:
  assumes "\<And>j. j < 32 \<Longrightarrow> bit v (bitpos bo j) = bit w (bitpos bo j)"
  shows "v = (w :: u32)"
proof (rule bit_word_eqI)
  fix n assume "n < LENGTH(32)"
  then obtain j where "j < 32" and "bitpos bo j = n" using bitpos_surj [of n bo] by auto
  with assms [of j] show "bit v n = bit w n" by simp
qed

lemma addr_eq_words: "a = b \<longleftrightarrow> (\<forall>i<4. au32 a i = au32 b i)"
  by (cases a; cases b) (auto simp: au32_def numeral_eq_Suc All_less_Suc)

lemma addr_eq_abits: "a = b \<longleftrightarrow> (\<forall>k<128. abit bo a k = abit bo b k)"
proof
  assume r: "\<forall>k<128. abit bo a k = abit bo b k"
  show "a = b" unfolding addr_eq_words
  proof (intro allI impI)
    fix i :: nat assume i: "i < 4"
    show "au32 a i = au32 b i"
    proof (rule word_eq_bitpos)
      fix j :: nat assume "j < 32"
      with i r have "abit bo a (32 * i + j) = abit bo b (32 * i + j)" by simp
      with i \<open>j < 32\<close> show "bit (au32 a i) (bitpos bo j) = bit (au32 b i) (bitpos bo j)"
        by (simp add: abit_word)
    qed
  qed
qed simp

subsection \<open>The mask tables\<close>

lemma masks_length [simp]: "length (ndL_masks bo) = 32"
  by (cases bo) (simp_all add: ndL_masks_def ndL_masks_be_def ndL_masks_le_def)

lemma masks_table:
  "list_all (\<lambda>bo. list_all (\<lambda>m. list_all (\<lambda>j. bit (ndL_masks bo ! m) (bitpos bo j) = (j \<le> m)) [0..<32]) [0..<32])
     [BigEndian, LittleEndian]"
  by code_simp

lemma bit_masks: "m < 32 \<Longrightarrow> j < 32 \<Longrightarrow> bit (ndL_masks bo ! m) (bitpos bo j) = (j \<le> m)"
  using masks_table by (cases bo) (simp_all add: list_all_iff)


lemma bit_all_ones: "j < 32 \<Longrightarrow> bit (0xffffffff :: u32) (bitpos bo j)"
  using bit_masks [of 31 j bo] by (cases bo) (simp_all add: ndL_masks_def ndL_masks_be_def ndL_masks_le_def)

lemma masked_word_zero:
  "m < 32 \<Longrightarrow> (v XOR w) AND (ndL_masks bo ! m) = 0 \<longleftrightarrow>
     (\<forall>j\<le>m. bit v (bitpos bo j) = bit (w :: u32) (bitpos bo j))"
proof
  assume m: "m < 32" and z: "(v XOR w) AND (ndL_masks bo ! m) = 0"
  show "\<forall>j\<le>m. bit v (bitpos bo j) = bit w (bitpos bo j)"
  proof (intro allI impI)
    fix j assume "j \<le> m"
    then have "bit (ndL_masks bo ! m) (bitpos bo j)" using m bit_masks [of m j bo] by simp
    moreover have "\<not> bit ((v XOR w) AND (ndL_masks bo ! m)) (bitpos bo j)" using z by simp
    ultimately show "bit v (bitpos bo j) = bit w (bitpos bo j)" by (simp add: bit_simps)
  qed
next
  assume m: "m < 32" and e: "\<forall>j\<le>m. bit v (bitpos bo j) = bit w (bitpos bo j)"
  show "(v XOR w) AND (ndL_masks bo ! m) = 0"
  proof (rule word_eq_bitpos [where bo = bo])
    fix j :: nat assume "j < 32"
    with e m show "bit ((v XOR w) AND (ndL_masks bo ! m)) (bitpos bo j) = bit (0 :: u32) (bitpos bo j)"
      by (auto simp: bit_simps bit_masks)
  qed
qed

lemma full_mask: "(0xffffffff :: u32) = ndL_masks bo ! 31"
  by (cases bo) (simp_all add: ndL_masks_def ndL_masks_be_def ndL_masks_le_def)

lemma loop_mask:
  "(if i < tp then 0xffffffff else ndL_masks bo ! r) = ndL_masks bo ! (if i < tp then 31 else r)"
  by (simp add: full_mask [of bo])

subsection \<open>Matching\<close>

lemma prefix_position:
  fixes k n :: nat
  assumes "0 < n"
  shows "k < n \<longleftrightarrow> k div 32 < (n - 1) div 32 \<or> k div 32 = (n - 1) div 32 \<and> k mod 32 \<le> (n - 1) mod 32"
proof -
  have "k < n \<longleftrightarrow> k \<le> n - 1" using assms by auto
  also have "\<dots> \<longleftrightarrow> 32 * (k div 32) + k mod 32 \<le> 32 * ((n - 1) div 32) + (n - 1) mod 32"
    by (simp only: mult_div_mod_eq)
  also have "\<dots> \<longleftrightarrow> k div 32 < (n - 1) div 32 \<or> k div 32 = (n - 1) div 32 \<and> k mod 32 \<le> (n - 1) mod 32"
  proof -
    have "r < 32 \<Longrightarrow> r' < 32 \<Longrightarrow> 32 * q + r \<le> 32 * q' + r' \<longleftrightarrow> q < q' \<or> q = q' \<and> r \<le> r'" for q r q' r' :: nat
      by arith
    note this [of "k mod 32" "(n - 1) mod 32" "k div 32" "(n - 1) div 32"]
    then show ?thesis by (simp only: mod_less_divisor zero_less_numeral simp_thms)
  qed
  finally show ?thesis .
qed

lemma prefix_bits_split:
  assumes "0 < pflen" "pflen < 128"
  shows "(\<forall>k<pflen. abit bo a k = abit bo b k) \<longleftrightarrow>
         (\<forall>i\<le>(pflen - 1) div 32. \<forall>j\<le>(if i < (pflen - 1) div 32 then 31 else (pflen - 1) mod 32).
            bit (au32 a i) (bitpos bo j) = bit (au32 b i) (bitpos bo j))" (is "?L = ?R")
proof
  assume ?L
  show ?R
  proof (intro allI impI)
    fix i j
    assume i: "i \<le> (pflen - 1) div 32" and j: "j \<le> (if i < (pflen - 1) div 32 then 31 else (pflen - 1) mod 32)"
    have j32: "j < 32" using j by (auto split: if_splits intro: le_less_trans)
    have "32 * i + j \<le> pflen - 1"
    proof (cases "i < (pflen - 1) div 32")
      case True
      then have "Suc i * 32 \<le> pflen - 1" by (simp add: less_eq_div_iff_mult_less_eq [symmetric] Suc_leI)
      with j32 show ?thesis by simp
    next
      case False
      with i j have "i = (pflen - 1) div 32" and "j \<le> (pflen - 1) mod 32" by auto
      then have "32 * i + j \<le> 32 * ((pflen - 1) div 32) + (pflen - 1) mod 32"
        by (simp only: add_le_cancel_left)
      then show ?thesis by (simp only: mult_div_mod_eq)
    qed
    with assms have "32 * i + j < pflen" by simp
    with \<open>?L\<close> assms j32 show "bit (au32 a i) (bitpos bo j) = bit (au32 b i) (bitpos bo j)"
      using abit_word [of "32 * i + j" bo a] abit_word [of "32 * i + j" bo b] by simp
  qed
next
  assume R: ?R
  show ?L
  proof (intro allI impI)
    fix k assume k: "k < pflen"
    with prefix_position [of pflen k] assms
    have i: "k div 32 \<le> (pflen - 1) div 32"
      and "k mod 32 \<le> (if k div 32 < (pflen - 1) div 32 then 31 else (pflen - 1) mod 32)"
      by (auto simp: less_Suc_eq_le [symmetric])
    with R i k assms show "abit bo a k = abit bo b k" by (simp add: abit_word)
  qed
qed

declare match_loop.simps [simp del]

lemma match_loop_iff:
  assumes "pflen \<noteq> 0"
  shows "match_loop bo a b pflen tp i \<longleftrightarrow>
     (\<forall>i'. i \<le> i' \<and> i' \<le> tp \<longrightarrow>
        (\<forall>j\<le>(if i' < tp then 31 else (pflen - 1) mod 32).
           bit (au32 a i') (bitpos bo j) = bit (au32 b i') (bitpos bo j)))"
proof (induction bo a b pflen tp i rule: match_loop.induct)
  case (1 bo a b pflen tp i)
  show ?case
  proof (cases "i \<le> tp")
    case True
    let ?m = "if i < tp then 31 else (pflen - 1) mod 32"
    let ?ok = "\<forall>j\<le>?m. bit (au32 a i) (bitpos bo j) = bit (au32 b i) (bitpos bo j)"
    have m: "?m < 32" by simp
    have word: "(au32 a i XOR au32 b i) AND (if i < tp then 0xffffffff else ndL_masks bo ! ((pflen - 1) mod 32)) = 0
                \<longleftrightarrow> ?ok"
      unfolding loop_mask by (rule masked_word_zero [OF m])
    have eq: "match_loop bo a b pflen tp i \<longleftrightarrow> ?ok \<and> match_loop bo a b pflen tp (i + 1)"
      using True word by (simp add: match_loop.simps [of bo a b pflen tp i] Let_def)
    have split: "(\<forall>i'. i \<le> i' \<and> i' \<le> tp \<longrightarrow> Q i') \<longleftrightarrow> Q i \<and> (\<forall>i'. i + 1 \<le> i' \<and> i' \<le> tp \<longrightarrow> Q i')" for Q
      using True by (metis Suc_eq_plus1 Suc_leD Suc_leI le_eq_less_or_eq)
    show ?thesis
    proof (cases ?ok)
      case ok: True
      with True word "1.IH" [OF True refl] eq show ?thesis by (subst split) simp
    next
      case False
      with eq show ?thesis by (subst split) blast
    qed
  next
    case False
    then show ?thesis by (auto simp: match_loop.simps [of bo a b pflen tp i])
  qed
qed

lemma nd_addr_eq_iff [simp]: "nd_addr_eq a b \<longleftrightarrow> a = b"
  by (auto simp: nd_addr_eq_def addr_eq_words numeral_eq_Suc All_less_Suc)

lemma nd_addr_match_iff:
  "nd_addr_match bo a b pflen \<longleftrightarrow> pflen \<le> 128 \<and> (\<forall>k<pflen. abit bo a k = abit bo b k)"
proof -
  consider "pflen = 0" | "pflen > 128" | "pflen = 128" | "0 < pflen" "pflen < 128" by linarith
  then show ?thesis
  proof cases
    case 3
    then show ?thesis by (simp add: nd_addr_match_def addr_eq_abits [of a b bo])
  next
    case 4
    then show ?thesis
      by (simp add: nd_addr_match_def match_loop_iff prefix_bits_split)
  qed (simp_all add: nd_addr_match_def)
qed


subsection \<open>Combining and masks\<close>

lemma abit_addr_of: "k < 128 \<Longrightarrow> abit bo (addr_of f) k = bit (f (k div 32)) (bitpos bo (k mod 32))"
  by (simp add: abit_word less_mult_imp_div_less)

lemma abit_combine:
  assumes "k < 128"
  shows "abit bo (nd_addr_combine bo a b n) k = (if k < n then abit bo a k else abit bo b k)"
proof -
  consider "n = 0" | "n \<ge> 128" | "0 < n" "n < 128" by linarith
  then show ?thesis
  proof cases
    case 3
    let ?t = "(n - 1) div 32" and ?r = "(n - 1) mod 32"
    have mask: "bit (ndL_masks bo ! ?r) (bitpos bo (k mod 32)) = (k mod 32 \<le> ?r)"
      by (rule bit_masks) simp_all
    have "bit (NOT (ndL_masks bo ! ?r)) (bitpos bo (k mod 32)) = (\<not> k mod 32 \<le> ?r)"
      using bitpos_less [of "k mod 32" bo] mask by (simp add: bit_not_iff)
    with 3 assms mask prefix_position [of n k] show ?thesis
      by (auto simp: nd_addr_combine_def abit_addr_of abit_word Let_def bit_simps)
  qed (use assms in \<open>simp_all add: nd_addr_combine_def\<close>)
qed

lemma abit_mask_from_pflen:
  assumes "k < 128"
  shows "abit bo (nd_mask_from_pflen bo n) k = (k < n)"
proof -
  have ones: "bit (0xffffffff :: u32) (bitpos bo (k mod 32))" by (rule bit_all_ones) simp
  consider "n = 0" | "n \<ge> 128" | "0 < n" "n < 128" by linarith
  then show ?thesis
  proof cases
    case 3
    let ?r = "(n - 1) mod 32"
    have "bit (ndL_masks bo ! ?r) (bitpos bo (k mod 32)) = (k mod 32 \<le> ?r)"
      by (rule bit_masks) simp_all
    with 3 assms ones prefix_position [of n k] show ?thesis
      by (auto simp: nd_mask_from_pflen_def abit_addr_of Let_def)
  qed (use assms ones in \<open>simp_all add: nd_mask_from_pflen_def abit_addr_of\<close>)
qed


subsection \<open>The interface other components rely on\<close>

text \<open>
  Routing lookup and rule selection use prefix matching only through these laws: \<open>match a b n\<close>
  is an equivalence on the addresses for every valid length, a longer match implies a shorter
  one, length 0 matches everything and the full length only the address itself.
\<close>

locale prefix_matching =
  fixes pmatch :: "'a \<Rightarrow> 'a \<Rightarrow> nat \<Rightarrow> bool" and full :: nat
  assumes pmatch_len: "pmatch a b n \<Longrightarrow> n \<le> full"
    and pmatch_refl: "n \<le> full \<Longrightarrow> pmatch a a n"
    and pmatch_sym: "pmatch a b n \<Longrightarrow> pmatch b a n"
    and pmatch_trans: "pmatch a b n \<Longrightarrow> pmatch b c n \<Longrightarrow> pmatch a c n"
    and pmatch_mono: "pmatch a b n \<Longrightarrow> m \<le> n \<Longrightarrow> pmatch a b m"
    and pmatch_full: "pmatch a b full \<Longrightarrow> a = b"
begin

text \<open>Two prefixes that both contain an address are nested.\<close>

lemma nested: "pmatch p a n \<Longrightarrow> pmatch q a m \<Longrightarrow> n \<le> m \<Longrightarrow> pmatch p q n"
  by (blast intro: pmatch_trans pmatch_sym pmatch_mono)

text \<open>
  Searching a list that is ordered by falling prefix length for the first entry that matches
  gives a longest match.
\<close>

lemma first_is_longest:
  assumes "sorted_wrt (\<lambda>x y. len x \<ge> len y) rs"
    and "find (\<lambda>r. pmatch (dst r) a (len r) \<and> ok r) rs = Some r"
    and "r' \<in> set rs" and "ok r'" and "pmatch (dst r') a (len r')"
  shows "len r' \<le> len r"
  using assms by (induction rs) (auto split: if_splits)

lemma longest_found:
  assumes "r' \<in> set rs" and "ok r'" and "pmatch (dst r') a (len r')"
  shows "\<exists>r. find (\<lambda>r. pmatch (dst r) a (len r) \<and> ok r) rs = Some r"
  using assms by (auto intro: find_not_None)

end

interpretation nd_match: prefix_matching "nd_addr_match bo" 128 for bo
proof unfold_locales
  show "nd_addr_match bo a b 128 \<Longrightarrow> a = b" for a b
    by (simp add: nd_addr_match_iff addr_eq_abits [of a b bo])
qed (auto simp: nd_addr_match_iff)

lemma combine_prefix: "n \<le> 128 \<Longrightarrow> nd_addr_match bo (nd_addr_combine bo a b n) a n"
  by (simp add: nd_addr_match_iff abit_combine)

subsection \<open>Bytes\<close>

lemma length_addr_bytes [simp]: "length (addr_bytes bo a) = 16"
  by (simp add: addr_bytes_def)

lemma word_of_bytes_inverse:
  "word_of_bytes bo (ucast (drop_bit (byte_shift bo 0) w)) (ucast (drop_bit (byte_shift bo 1) w))
     (ucast (drop_bit (byte_shift bo 2) w)) (ucast (drop_bit (byte_shift bo 3) w)) = w"
proof (rule bit_word_eqI)
  fix n
  assume "n < LENGTH(32)"
  then show "bit (word_of_bytes bo (ucast (drop_bit (byte_shift bo 0) w)) (ucast (drop_bit (byte_shift bo 1) w))
      (ucast (drop_bit (byte_shift bo 2) w)) (ucast (drop_bit (byte_shift bo 3) w))) n = bit w n"
    by (cases bo; cases "n < 8"; cases "n < 16"; cases "n < 24")
      (auto simp: word_of_bytes_def byte_shift_def bit_simps not_less less_diff_conv2)
qed

lemma byte_shift_mod: "byte_shift bo (4 * i + k) = byte_shift bo k"
  by (simp only: byte_shift_def mod_mult_self4)

lemma addr_of_bytes_inverse [simp]: "addr_of_bytes bo (addr_bytes bo a) = a"
proof -
  have "au32 (addr_of_bytes bo (addr_bytes bo a)) i = au32 a i" if "i < 4" for i
  proof -
    have nth: "addr_bytes bo a ! (4 * i + k) = ucast (drop_bit (byte_shift bo k) (au32 a i))" if "k < 4" for k
      using that \<open>i < 4\<close> by (simp add: addr_bytes_def au8_def byte_shift_mod)
    show ?thesis
      using that nth [of 0] nth [of 1] nth [of 2] nth [of 3]
      by (simp add: addr_of_bytes_def word_of_bytes_inverse del: One_nat_def add_2_eq_Suc' add_Suc_right)
  qed
  then show ?thesis by (simp add: addr_eq_words)
qed

lemma length_lladdr_bytes [simp]: "length (lladdr_bytes l) = 6"
  by (simp add: lladdr_bytes_def)

lemma lladdr_of_bytes_inverse [simp]: "lladdr_of_bytes (lladdr_bytes l) = l"
  by (simp add: lladdr_of_bytes_def lladdr_bytes_def)

lemma nd_lladdr_eq_iff [simp]: "nd_lladdr_eq a b \<longleftrightarrow> a = b"
  by (cases a; cases b) (simp add: nd_lladdr_eq_def lladdr_bytes_def)

lemma seed_nonzero: "ndL_init_hash_seed u s t p \<noteq> 0"
  by (auto simp: ndL_init_hash_seed_def Let_def split: option.splits)

subsection \<open>Properties\<close>

text \<open>
  C36: \<open>nd_addr_match\<close> decides prefix membership: with a length of at most 128 it holds exactly when
  the two addresses agree on the leading \<open>pflen\<close> bits in network order, on either byte order;
  with a longer length it never holds.
\<close>

theorem match_is_prefix_agreement:
  "nd_addr_match bo a b pflen \<longleftrightarrow> pflen \<le> 128 \<and> (\<forall>k<pflen. abit bo a k = abit bo b k)"
  by (rule nd_addr_match_iff)

theorem match_is_prefix_agreement_witness:
  "nd_addr_match LittleEndian (Nd_addr 0xb80d0120 0 0 0x01000000) (Nd_addr 0xb80d0120 0 0 0x02000000) 126 \<and>
   abit LittleEndian (Nd_addr 0xb80d0120 0 0 0x01000000) 2 = abit LittleEndian (Nd_addr 0xb80d0120 0 0 0x02000000) 2 \<and>
   \<not> nd_addr_match LittleEndian (Nd_addr 0xb80d0120 0 0 0x01000000) (Nd_addr 0xb80d0120 0 0 0x02000000) 127"
proof -
  let ?a = "Nd_addr 0xb80d0120 0 0 0x01000000" and ?b = "Nd_addr 0xb80d0120 0 0 0x02000000"
  have m: "nd_addr_match LittleEndian ?a ?b 126" and n: "\<not> nd_addr_match LittleEndian ?a ?b 127"
    by code_simp+
  show ?thesis using m n match_is_prefix_agreement [of LittleEndian ?a ?b 126] by simp
qed


end
