(* ===== verification/Addr_Masks.thy ===== *)
theory Addr_Masks
  imports Addr
begin

text \<open>
  Netmask and prefix length: \<open>ndL_count_bits\<close> of \<^verbatim>\<open>src/addr.c\<close> adds up bits in parallel in
  fields of growing width, and the proof follows the fields.  \<open>digits s ds\<close> is the number whose
  \<open>s\<close>-bit digits, lowest first, are \<open>ds\<close>; one line of the C function turns \<open>s\<close>-bit digits
  into the \<open>2 * s\<close>-bit digits that are the sums of neighbours.
\<close>

fun digits :: "nat \<Rightarrow> nat list \<Rightarrow> nat" where
  "digits s [] = 0"
| "digits s (d # ds) = d + 2 ^ s * digits s ds"

fun pair_sum :: "nat list \<Rightarrow> nat list" where
  "pair_sum (a # b # ds) = (a + b) # pair_sum ds"
| "pair_sum ds = []"

definition low_fields :: "nat \<Rightarrow> nat \<Rightarrow> nat" where
  "low_fields s n = digits (2 * s) (replicate n (2 ^ s - 1))"

lemma digits_less: "(\<forall>d\<in>set ds. d < 2 ^ s) \<Longrightarrow> digits s ds < 2 ^ (s * length ds)"
proof (induction ds)
  case (Cons d ds)
  then have "digits s ds + 1 \<le> 2 ^ (s * length ds)" by simp
  then have "2 ^ s * (digits s ds + 1) \<le> 2 ^ s * 2 ^ (s * length ds)" by (rule mult_le_mono2)
  moreover have "d < 2 ^ s" using Cons.prems by simp
  ultimately show ?case by (simp add: power_add)
qed simp

lemma low_fields_and:
  "length ds = 2 * n \<Longrightarrow> \<forall>d\<in>set ds. d < 2 ^ s \<Longrightarrow>
   (digits s ds AND low_fields s n) + (drop_bit s (digits s ds) AND low_fields s n) = digits (2 * s) (pair_sum ds)"
proof (induction n arbitrary: ds)
  case 0
  then show ?case by (simp add: low_fields_def)
next
  case (Suc n)
  obtain a b es where ds: "ds = a # b # es" using Suc.prems(1)
    by (cases ds; cases "tl ds") auto
  have ab: "a < 2 ^ s" "b < 2 ^ s" and len: "length es = 2 * n" using Suc.prems ds by auto
  let ?V = "digits s es" and ?M = "low_fields s n"
  have sq: "(2::nat) ^ (2 * s) = 2 ^ s * 2 ^ s" by (simp add: mult_2 power_add)
  have V: "digits s ds = (a + 2 ^ s * b) + 2 ^ (2 * s) * ?V"
    unfolding sq by (simp add: ds algebra_simps)
  have M: "low_fields s (Suc n) = (2 ^ s - 1) + 2 ^ (2 * s) * ?M" by (simp add: low_fields_def)
  have abl: "a + 2 ^ s * b < 2 ^ (2 * s)"
  proof -
    have "2 ^ s * (b + 1) \<le> 2 ^ s * (2 ^ s :: nat)" using ab(2) by (intro mult_le_mono2) simp
    then show ?thesis using ab(1) by (simp add: sq)
  qed
  have ml: "2 ^ s - 1 < (2 ^ (2 * s) :: nat)"
    by (rule less_le_trans [of _ "2 ^ s"]) simp_all
  have and1: "digits s ds AND low_fields s (Suc n) = a + 2 ^ (2 * s) * (?V AND ?M)"
  proof -
    have "(a + 2 ^ s * b) AND (2 ^ s - 1) = a"
      using ab(1) by (simp add: nat_and_low del: One_nat_def)
    then show ?thesis unfolding V M by (simp only: nat_and_split [OF abl ml])
  qed
  have and2: "drop_bit s (digits s ds) AND low_fields s (Suc n) = b + 2 ^ (2 * s) * (drop_bit s ?V AND ?M)"
  proof -
    have "drop_bit s (digits s ds) = b + 2 ^ s * ?V" using ab(1) by (simp add: ds drop_bit_eq_div)
    moreover have "low_fields s (Suc n) = (2 ^ s - 1) + 2 ^ s * (2 ^ s * ?M)" by (simp add: M sq)
    moreover have "b AND (2 ^ s - 1) = b"
      using ab(2) by (simp add: nat_and_low del: One_nat_def)
    moreover have "?V AND (2 ^ s * ?M) = 2 ^ s * (drop_bit s ?V AND ?M)"
      using nat_and_split [of "?V mod 2 ^ s" s 0 "?V div 2 ^ s" ?M] by (simp add: drop_bit_eq_div)
    moreover have "2 ^ s - 1 < (2 ^ s :: nat)" by simp
    ultimately show ?thesis using ab(2)
      by (simp only: nat_and_split [of b s "2 ^ s - 1" ?V "2 ^ s * ?M"] sq mult.assoc)
  qed
  have IH: "(?V AND ?M) + (drop_bit s ?V AND ?M) = digits (2 * s) (pair_sum es)"
    using Suc.IH [OF len] Suc.prems(2) ds by simp
  have arith: "a + p * x + (b + p * y) = (a + b) + p * (x + y)" for p x y :: nat
    by (simp add: algebra_simps)
  show ?case unfolding and1 and2 arith IH unfolding ds by simp
qed


lemma pair_sum_length: "length ds = 2 * n \<Longrightarrow> length (pair_sum ds) = n"
proof (induction ds arbitrary: n rule: pair_sum.induct)
  case (1 a b ds)
  then show ?case by (cases n) auto
qed auto

lemma pair_sum_total: "even (length ds) \<Longrightarrow> sum_list (pair_sum ds) = sum_list ds"
  by (induction ds rule: pair_sum.induct) auto

lemma pair_sum_bound: "\<forall>d\<in>set ds. d \<le> m \<Longrightarrow> \<forall>d\<in>set (pair_sum ds). d \<le> 2 * m"
  by (induction ds rule: pair_sum.induct) auto

text \<open>One line of \<open>ndL_count_bits\<close>: no carry leaves a field, and no sum leaves the word.\<close>

lemma count_step:
  fixes v c :: u32
  assumes v: "unat v = digits s ds" and c: "unat c = low_fields s n"
    and len: "length ds = 2 * n" and width: "s * (2 * n) = 32"
    and small: "\<forall>d\<in>set ds. d \<le> m" and m: "2 * m < 2 ^ (2 * s)" "m < 2 ^ s"
  shows "unat ((v AND c) + (drop_bit s v AND c)) = digits (2 * s) (pair_sum ds)"
proof -
  have d: "\<forall>d\<in>set ds. d < 2 ^ s" using small m(2) by auto
  have sum: "(unat v AND unat c) + (unat (drop_bit s v) AND unat c) = digits (2 * s) (pair_sum ds)"
    using low_fields_and [OF len d] by (simp add: v c unat_drop_bit_eq)
  have "\<forall>d\<in>set (pair_sum ds). d < 2 ^ (2 * s)" using pair_sum_bound [OF small] m(1) by auto
  then have "digits (2 * s) (pair_sum ds) < 2 ^ (2 * s * n)"
    using digits_less [of "pair_sum ds" "2 * s"] pair_sum_length [OF len] by simp
  moreover have "2 * s * n = 32" using width by simp
  ultimately have "digits (2 * s) (pair_sum ds) < 2 ^ 32" by simp
  with sum show ?thesis
    by (subst unat_add_lem [THEN iffD1]) (simp_all add: unsigned_and_eq)
qed

lemma digits_bits:
  fixes v :: u32
  shows "unat v = digits 1 (map (\<lambda>i. of_bool (bit v i)) [0..<32])"
proof -
  have "digits 1 (map (\<lambda>i. of_bool (b i)) is) = horner_sum of_bool 2 (map b is)" for b :: "nat \<Rightarrow> bool" and "is"
    by (induction "is") simp_all
  then have "digits 1 (map (\<lambda>i. of_bool (bit v i)) [0..<32]) = horner_sum of_bool 2 (map (bit (unat v)) [0..<32])"
    by (simp add: bit_unsigned_iff cong: map_cong)
  also have "\<dots> = unat v"
    by (simp add: horner_sum_bit_eq_take_bit take_bit_nat_eq_self unsigned_less [of v, simplified])
  finally show ?thesis ..
qed

definition popcount :: "u32 \<Rightarrow> nat" where
  "popcount v = card {i. i < 32 \<and> bit v i}"

lemma popcount_sum: "popcount v = sum_list (map (\<lambda>i. of_bool (bit v i)) [0..<32])"
proof -
  have "popcount v = (\<Sum>i | i < 32 \<and> bit v i. 1)" by (simp add: popcount_def)
  also have "\<dots> = (\<Sum>i\<in>{0..<32}. of_bool (bit v i))"
    by (simp add: sum.If_cases of_bool_def) (rule arg_cong [of _ _ card], auto)
  finally show ?thesis by (simp only: interv_sum_list_conv_sum_set_nat set_upt)
qed

lemma replicate_eqs:
  "replicate 16 x = [x, x, x, x, x, x, x, x, x, x, x, x, x, x, x, x]"
  "replicate 8 x = [x, x, x, x, x, x, x, x]" "replicate 4 x = [x, x, x, x]" "replicate 2 x = [x, x]"
  by (simp_all add: numeral_eq_Suc)

lemma low_fields_values:
  "unat (0x55555555 :: u32) = low_fields 1 16" "unat (0x33333333 :: u32) = low_fields 2 8"
  "unat (0x0f0f0f0f :: u32) = low_fields 4 4" "unat (0x00ff00ff :: u32) = low_fields 8 2"
  "unat (0x0000ffff :: u32) = low_fields 16 1"
  by (simp_all add: low_fields_def replicate_eqs)

lemma count_bits_popcount: "unat (ndL_count_bits v) = popcount v"
proof -
  define b0 where "b0 = map (\<lambda>i. of_bool (bit v i) :: nat) [0..<32]"
  define b1 where "b1 = pair_sum b0"
  define b2 where "b2 = pair_sum b1"
  define b3 where "b3 = pair_sum b2"
  define b4 where "b4 = pair_sum b3"
  define b5 where "b5 = pair_sum b4"
  define v1 where "v1 = (v AND 0x55555555) + (drop_bit 1 v AND 0x55555555)"
  define v2 where "v2 = (v1 AND 0x33333333) + (drop_bit 2 v1 AND 0x33333333)"
  define v3 where "v3 = (v2 AND 0x0f0f0f0f) + (drop_bit 4 v2 AND 0x0f0f0f0f)"
  define v4 where "v4 = (v3 AND 0x00ff00ff) + (drop_bit 8 v3 AND 0x00ff00ff)"
  define v5 where "v5 = (v4 AND 0x0000ffff) + (drop_bit 16 v4 AND 0x0000ffff)"
  have len: "length b0 = 2 * 16" "length b1 = 2 * 8" "length b2 = 2 * 4" "length b3 = 2 * 2" "length b4 = 2 * 1"
    "length b5 = 1"
    by (simp_all add: b0_def b1_def b2_def b3_def b4_def b5_def pair_sum_length)
  have s0: "\<forall>d\<in>set b0. d \<le> 1" by (auto simp: b0_def)
  have s1: "\<forall>d\<in>set b1. d \<le> 2" using pair_sum_bound [OF s0] by (simp add: b1_def)
  have s2: "\<forall>d\<in>set b2. d \<le> 4" using pair_sum_bound [OF s1] by (simp add: b2_def)
  have s3: "\<forall>d\<in>set b3. d \<le> 8" using pair_sum_bound [OF s2] by (simp add: b3_def)
  have s4: "\<forall>d\<in>set b4. d \<le> 16" using pair_sum_bound [OF s3] by (simp add: b4_def)
  have d0: "unat v = digits 1 b0" by (simp add: digits_bits [of v] b0_def)
  have d1: "unat v1 = digits 2 b1"
    using count_step [OF d0 low_fields_values(1) len(1) _ s0] by (simp add: v1_def b1_def)
  have d2: "unat v2 = digits 4 b2"
    using count_step [OF d1 low_fields_values(2) len(2) _ s1] by (simp add: v2_def b2_def)
  have d3: "unat v3 = digits 8 b3"
    using count_step [OF d2 low_fields_values(3) len(3) _ s2] by (simp add: v3_def b3_def)
  have d4: "unat v4 = digits 16 b4"
    using count_step [OF d3 low_fields_values(4) len(4) _ s3] by (simp add: v4_def b4_def)
  have d5: "unat v5 = digits 32 b5"
    using count_step [OF d4 low_fields_values(5) len(5) _ s4] by (simp add: v5_def b5_def)
  have "digits 32 b5 = sum_list b5" using len(6) by (cases b5) auto
  also have "\<dots> = sum_list b0"
    using len by (simp add: b1_def b2_def b3_def b4_def b5_def pair_sum_total pair_sum_length)
  also have "\<dots> = popcount v" by (simp add: popcount_sum b0_def)
  finally show ?thesis
    using d5 by (simp add: ndL_count_bits_def Let_def v5_def v4_def v3_def v2_def v1_def)
qed

subsection \<open>The prefix length of a mask\<close>

lemma popcount_bitpos: "popcount v = card {j. j < 32 \<and> bit v (bitpos bo j)}"
proof -
  have inj: "inj_on (bitpos bo) {j. j < 32 \<and> bit v (bitpos bo j)}"
  proof (rule inj_onI)
    fix i j
    assume "i \<in> {j. j < 32 \<and> bit v (bitpos bo j)}" "j \<in> {j. j < 32 \<and> bit v (bitpos bo j)}"
      and eq: "bitpos bo i = bitpos bo j"
    then have "i < 32" "j < 32" by auto
    then have "j \<le> i" and "i \<le> j" using eq by (metis bit_masks le_refl)+
    then show "i = j" by simp
  qed
  have "bitpos bo ` {j. j < 32 \<and> bit v (bitpos bo j)} = {i. i < 32 \<and> bit v i}"
  proof (intro equalityI subsetI)
    fix i assume "i \<in> {i. i < 32 \<and> bit v i}"
    moreover from this obtain j where "j < 32" "bitpos bo j = i" using bitpos_surj [of i bo] by blast
    ultimately show "i \<in> bitpos bo ` {j. j < 32 \<and> bit v (bitpos bo j)}" by blast
  qed (use bitpos_less in blast)
  then show ?thesis using card_image [OF inj] by (simp add: popcount_def)
qed


lemma mask_to_pflen_card: "nd_mask_to_pflen m = card {k. k < 128 \<and> abit bo m k}"
proof -
  define W where "W i = {k. k div 32 = i \<and> abit bo m k}" for i :: nat
  have W: "card (W i) = popcount (au32 m i)" if "i < 4" for i
  proof -
    have "W i = (\<lambda>j. 32 * i + j) ` {j. j < 32 \<and> bit (au32 m i) (bitpos bo j)}"
    proof (intro equalityI subsetI)
      fix k assume "k \<in> W i"
      then have "k div 32 = i" "abit bo m k" by (auto simp: W_def)
      moreover have "k = 32 * (k div 32) + k mod 32" by simp
      ultimately have "k = 32 * i + k mod 32" and "bit (au32 m i) (bitpos bo (k mod 32))"
        using abit_word [of k bo m] that by (auto simp: div_less_iff_less_mult)
      then show "k \<in> (\<lambda>j. 32 * i + j) ` {j. j < 32 \<and> bit (au32 m i) (bitpos bo j)}" by auto
    next
      fix k assume "k \<in> (\<lambda>j. 32 * i + j) ` {j. j < 32 \<and> bit (au32 m i) (bitpos bo j)}"
      then obtain j where j: "k = 32 * i + j" "j < 32" "bit (au32 m i) (bitpos bo j)" by auto
      then show "k \<in> W i" using that abit_word [of k bo m] by (simp add: W_def)
    qed
    moreover have "inj_on (\<lambda>j. 32 * i + j) {j. j < 32 \<and> bit (au32 m i) (bitpos bo j)}"
      by (rule inj_onI) simp
    ultimately show ?thesis by (simp add: card_image popcount_bitpos [of _ bo])
  qed
  have fin: "finite (W i)" if "i < 4" for i
    by (rule finite_subset [of _ "{..<128}"]) (use that in \<open>auto simp: W_def\<close>)
  have disj: "W i \<inter> W j = {}" if "i \<noteq> j" for i j using that by (auto simp: W_def)
  have "k div 32 = 0 \<or> k div 32 = 1 \<or> k div 32 = 2 \<or> k div 32 = 3" if "k < 128" for k :: nat
    using that by linarith
  then have "{k. k < 128 \<and> abit bo m k} = W 0 \<union> (W 1 \<union> (W 2 \<union> W 3))"
    by (auto simp: W_def)
  then have "card {k. k < 128 \<and> abit bo m k} = card (W 0) + (card (W 1) + (card (W 2) + card (W 3)))"
    using fin disj by (simp add: card_Un_disjoint Int_Un_distrib)
  then show ?thesis
    by (simp add: W nd_mask_to_pflen_def count_bits_popcount)
qed

lemma mask_roundtrip: "nd_mask_to_pflen (nd_mask_from_pflen bo n) = min n 128"
proof -
  have "{k. k < 128 \<and> abit bo (nd_mask_from_pflen bo n) k} = {..<min n 128}"
    by (auto simp: abit_mask_from_pflen)
  then show ?thesis by (simp add: mask_to_pflen_card [of _ bo])
qed

text \<open>
  The bit-counting of \<open>nd_mask_to_pflen\<close> is exact: it returns the number of one bits of any
  128-bit mask, and it inverts \<open>nd_mask_from_pflen\<close>, whose lengths saturate at 128.
\<close>

theorem mask_lengths:
  "nd_mask_to_pflen m = card {k. k < 128 \<and> abit bo m k} \<and>
   nd_mask_to_pflen (nd_mask_from_pflen bo n) = min n 128"
  by (simp add: mask_to_pflen_card [of m bo] mask_roundtrip)

end
