(* ===== verification/Alloc.thy ===== *)
theory Alloc
  imports Nd_Prelude
begin

text \<open>
  \<^verbatim>\<open>src/alloc.c\<close>: the chunk allocator behind \<open>ND_NEW\<close> and \<open>ND_DELETE\<close>.  Memory comes in chunks
  from \<open>malloc\<close>; a chunk hands out 8-byte multiples from its low end upwards; a freed object
  goes to the free list of its size class and is reused first.  The address \<open>malloc\<close> returns is
  an argument of \<open>nd_alloc\<close> (\<open>None\<close> when it fails).

  \<open>alloc_inv s live\<close> relates the allocator's state to the set of blocks that are in use: no two
  blocks, used or free, overlap, and each lies in the part of a chunk already handed out.
  \<open>nd_alloc\<close> and \<open>nd_free\<close> keep it.  The locale \<open>block_allocator\<close> is what the other components
  rely on when they take a fresh address for a new object.
\<close>

record ndL_chunk =
  ck_base :: nat
  ck_free :: nat
  ck_size :: nat

record alloc_state =
  ndL_chunks :: "ndL_chunk list"
  ndL_alloc_size :: nat
  ndL_free_objects :: "nat list list"

datatype alloc_error = InvalidSize | OutOfMemory

definition NDPPD_CHUNK_ALLOC_SIZE :: nat where "NDPPD_CHUNK_ALLOC_SIZE = 16384"
definition NDPPD_CHUNK_ALLOC_MAX :: nat where "NDPPD_CHUNK_ALLOC_MAX = 1048576"
definition NDPPD_MAX_ALLOC :: nat where "NDPPD_MAX_ALLOC = 128"

definition alloc_init :: alloc_state where
  "alloc_init = \<lparr>ndL_chunks = [], ndL_alloc_size = NDPPD_CHUNK_ALLOC_SIZE,
                 ndL_free_objects = replicate 16 []\<rparr>"

text \<open>\<open>(size + 7U) & ~7U\<close>: the complement is taken at 32 bits and then widened.\<close>

definition round8 :: "nat \<Rightarrow> nat" where
  "round8 sz = (sz + 7) AND 0xFFFFFFF8"

text \<open>The search for a chunk with room, and taking the block from it.\<close>

fun carve :: "nat \<Rightarrow> ndL_chunk list \<Rightarrow> (nat \<times> ndL_chunk list) option" where
  "carve sz [] = None"
| "carve sz (c # cs) =
     (if ck_free c \<ge> sz
      then Some (ck_base c + ck_size c - ck_free c, c\<lparr>ck_free := ck_free c - sz\<rparr> # cs)
      else map_option (\<lambda>(p, cs'). (p, c # cs')) (carve sz cs))"

definition grow :: "nat \<Rightarrow> nat" where
  "grow sz =
     (let size1 = (if sz < NDPPD_CHUNK_ALLOC_MAX then sz * 2 else sz)
      in if size1 > NDPPD_CHUNK_ALLOC_MAX then NDPPD_CHUNK_ALLOC_MAX else size1)"

definition nd_alloc :: "nat option \<Rightarrow> nat \<Rightarrow> alloc_state \<Rightarrow> alloc_error + (nat \<times> alloc_state)" where
  "nd_alloc malloc size0 s =
     (if size0 = 0 \<or> size0 > NDPPD_MAX_ALLOC then Inl InvalidSize
      else
        let sz = round8 size0; bucket = sz div 8 - 1 in
        case ndL_free_objects s ! bucket of
          obj # rest \<Rightarrow> Inr (obj, s\<lparr>ndL_free_objects := (ndL_free_objects s)[bucket := rest]\<rparr>)
        | [] \<Rightarrow>
            (case carve sz (ndL_chunks s) of
               Some (p, cs) \<Rightarrow> Inr (p, s\<lparr>ndL_chunks := cs\<rparr>)
             | None \<Rightarrow>
                 (case malloc of
                    None \<Rightarrow> Inl OutOfMemory
                  | Some base \<Rightarrow>
                      let free = ndL_alloc_size s - round8 24;
                          c = \<lparr>ck_base = base, ck_free = free - sz, ck_size = ndL_alloc_size s\<rparr>
                      in Inr (base + ndL_alloc_size s - free,
                              s\<lparr>ndL_chunks := c # ndL_chunks s, ndL_alloc_size := grow (ndL_alloc_size s)\<rparr>))))"

definition nd_free :: "nat \<Rightarrow> nat \<Rightarrow> alloc_state \<Rightarrow> alloc_error + alloc_state" where
  "nd_free p size0 s =
     (if size0 = 0 \<or> size0 > NDPPD_MAX_ALLOC then Inl InvalidSize
      else
        let sz = round8 size0; bucket = sz div 8 - 1
        in Inr (s\<lparr>ndL_free_objects := (ndL_free_objects s)[bucket := p # ndL_free_objects s ! bucket]\<rparr>))"

text \<open>\<open>nd_strdup\<close>: the copy needs \<open>strlen + 1\<close> bytes from the same allocator.\<close>

definition nd_strdup :: "nat option \<Rightarrow> string \<Rightarrow> alloc_state \<Rightarrow> alloc_error + (nat \<times> alloc_state)" where
  "nd_strdup malloc str s = nd_alloc malloc (length str + 1) s"

text \<open>\<open>nd_alloc_cleanup\<close>: the addresses passed to \<open>free\<close>, in order.\<close>

definition nd_alloc_cleanup :: "alloc_state \<Rightarrow> nat list" where
  "nd_alloc_cleanup s = map ck_base (ndL_chunks s)"

subsection \<open>Blocks and the invariant\<close>

type_synonym block = "nat \<times> nat"

definition overlap :: "block \<Rightarrow> block \<Rightarrow> bool" where
  "overlap x y \<longleftrightarrow> fst x < fst y + snd y \<and> fst y < fst x + snd x"

definition free_blocks :: "alloc_state \<Rightarrow> block set" where
  "free_blocks s = (\<Union>b<16. (\<lambda>p. (p, 8 * Suc b)) ` set (ndL_free_objects s ! b))"

definition chunk_range :: "ndL_chunk \<Rightarrow> block" where
  "chunk_range c = (ck_base c, ck_size c)"

definition chunk_ok :: "ndL_chunk \<Rightarrow> bool" where
  "chunk_ok c \<longleftrightarrow> 8 dvd ck_base c \<and> 8 dvd ck_free c \<and> 8 dvd ck_size c \<and> ck_free c + 24 \<le> ck_size c"

definition in_used :: "ndL_chunk list \<Rightarrow> block \<Rightarrow> bool" where
  "in_used cs x \<longleftrightarrow>
     (\<exists>c\<in>set cs. ck_base c + 24 \<le> fst x \<and> fst x + snd x + ck_free c \<le> ck_base c + ck_size c)"

definition block_ok :: "block \<Rightarrow> bool" where
  "block_ok x \<longleftrightarrow> 8 dvd fst x \<and> 8 dvd snd x \<and> 0 < snd x \<and> snd x \<le> 128"

definition alloc_inv :: "alloc_state \<Rightarrow> block set \<Rightarrow> bool" where
  "alloc_inv s live \<longleftrightarrow>
     length (ndL_free_objects s) = 16 \<and>
     (\<forall>b<16. distinct (ndL_free_objects s ! b)) \<and>
     (\<forall>c\<in>set (ndL_chunks s). chunk_ok c) \<and>
     sorted_wrt (\<lambda>c d. \<not> overlap (chunk_range c) (chunk_range d)) (ndL_chunks s) \<and>
     (\<forall>x\<in>live \<union> free_blocks s. block_ok x \<and> in_used (ndL_chunks s) x) \<and>
     (\<forall>x\<in>live \<union> free_blocks s. \<forall>y\<in>live \<union> free_blocks s. x \<noteq> y \<longrightarrow> \<not> overlap x y) \<and>
     live \<inter> free_blocks s = {} \<and>
     NDPPD_CHUNK_ALLOC_SIZE \<le> ndL_alloc_size s \<and> ndL_alloc_size s \<le> NDPPD_CHUNK_ALLOC_MAX \<and>
     8 dvd ndL_alloc_size s"

text \<open>
  What \<open>malloc\<close> promises for the request \<open>nd_alloc\<close> makes: memory aligned for any object and
  apart from every chunk obtained before.
\<close>

definition malloc_fresh :: "nat option \<Rightarrow> alloc_state \<Rightarrow> bool" where
  "malloc_fresh malloc s \<longleftrightarrow>
     (\<forall>base. malloc = Some base \<longrightarrow>
        8 dvd base \<and> (\<forall>c\<in>set (ndL_chunks s). \<not> overlap (base, ndL_alloc_size s) (chunk_range c)))"

lemmas alloc_consts = NDPPD_CHUNK_ALLOC_SIZE_def NDPPD_CHUNK_ALLOC_MAX_def NDPPD_MAX_ALLOC_def

lemma round8_eq: "n \<le> 4294967288 \<Longrightarrow> round8 n = 8 * ((n + 7) div 8)"
proof -
  assume n: "n \<le> 4294967288"
  have "round8 n = ((n + 7) mod 8 + 2 ^ 3 * ((n + 7) div 8)) AND (0 + 2 ^ 3 * (2 ^ 29 - 1))"
    by (simp add: round8_def)
  also have "\<dots> = 8 * ((n + 7) div 8 mod 2 ^ 29)"
    by (subst nat_and_split) (simp_all only: nat_and_low, simp_all)
  also have "(n + 7) div 8 mod 2 ^ 29 = (n + 7) div 8" using n by (intro mod_less) simp
  finally show ?thesis .
qed


lemma round8_bounds:
  assumes "0 < n" and "n \<le> 128"
  shows "n \<le> round8 n" and "block_ok (8 * p, round8 n)" and "round8 n div 8 - 1 < 16"
    and "8 * Suc (round8 n div 8 - 1) = round8 n"
proof -
  have e: "round8 n = 8 * ((n + 7) div 8)" using assms by (intro round8_eq) simp
  have q: "0 < (n + 7) div 8" "(n + 7) div 8 \<le> 16" using assms by auto
  show "n \<le> round8 n" unfolding e by linarith
  show "block_ok (8 * p, round8 n)" unfolding e block_ok_def using q by simp
  show "round8 n div 8 - 1 < 16" unfolding e using q by simp
  show "8 * Suc (round8 n div 8 - 1) = round8 n" unfolding e using q by simp
qed

lemma round8_24 [simp]: "round8 24 = 24"
  by (simp add: round8_eq)

lemma grow_bounds:
  assumes "NDPPD_CHUNK_ALLOC_SIZE \<le> n" "n \<le> NDPPD_CHUNK_ALLOC_MAX" "8 dvd n"
  shows "NDPPD_CHUNK_ALLOC_SIZE \<le> grow n" "grow n \<le> NDPPD_CHUNK_ALLOC_MAX" "8 dvd grow n"
  using assms by (auto simp: grow_def alloc_consts Let_def)

lemma overlap_sym: "overlap x y = overlap y x"
  by (auto simp: overlap_def)

subsection \<open>Taking a block from a chunk\<close>

lemma carve_Some:
  "carve n cs = Some (p, cs') \<Longrightarrow>
   \<exists>as c bs. cs = as @ c # bs \<and> cs' = as @ c\<lparr>ck_free := ck_free c - n\<rparr> # bs \<and> n \<le> ck_free c \<and>
             p = ck_base c + ck_size c - ck_free c"
proof (induction cs arbitrary: cs')
  case (Cons d ds)
  show ?case
  proof (cases "n \<le> ck_free d")
    case True
    with Cons.prems have "cs' = [] @ d\<lparr>ck_free := ck_free d - n\<rparr> # ds" "p = ck_base d + ck_size d - ck_free d"
      by auto
    with True show ?thesis by blast
  next
    case False
    with Cons.prems obtain ds' where ds': "carve n ds = Some (p, ds')" "cs' = d # ds'" by auto
    from Cons.IH [OF ds'(1)] obtain as c bs where
      "ds = as @ c # bs" "ds' = as @ c\<lparr>ck_free := ck_free c - n\<rparr> # bs" "n \<le> ck_free c"
      "p = ck_base c + ck_size c - ck_free c" by blast
    with ds'(2) show ?thesis by (metis append_Cons)
  qed
qed simp

lemma carve_None: "carve n cs = None \<longleftrightarrow> (\<forall>c\<in>set cs. ck_free c < n)"
  by (induction cs) auto

text \<open>
  A new block at the boundary of a chunk overlaps no block that lies in the used part of any
  chunk.
\<close>

lemma fresh_block:
  assumes "in_used cs x" and "sorted_wrt (\<lambda>c d. \<not> overlap (chunk_range c) (chunk_range d)) cs"
    and "c \<in> set cs" and "chunk_ok c" and "n \<le> ck_free c" and "block_ok x"
    and "\<forall>c\<in>set cs. chunk_ok c"
  shows "\<not> overlap x (ck_base c + ck_size c - ck_free c, n)"
proof -
  obtain d where d: "d \<in> set cs" "ck_base d + 24 \<le> fst x" "fst x + snd x + ck_free d \<le> ck_base d + ck_size d"
    using assms(1) by (auto simp: in_used_def)
  show ?thesis
  proof (cases "d = c")
    case True
    with d show ?thesis by (auto simp: overlap_def)
  next
    case False
    have "\<not> overlap (chunk_range d) (chunk_range c)"
      using assms(2) d(1) assms(3) False
      by (induction cs) (auto simp: overlap_sym)
    with d assms(4,5,6) show ?thesis
      by (auto simp: overlap_def chunk_range_def chunk_ok_def block_ok_def)
  qed
qed

lemma in_used_carve:
  assumes "in_used (as @ c # bs) x"
  shows "in_used (as @ c\<lparr>ck_free := ck_free c - n\<rparr> # bs) x"
  using assms by (fastforce simp: in_used_def)

lemma in_used_new:
  assumes "chunk_ok c" "n \<le> ck_free c"
  shows "in_used (as @ c\<lparr>ck_free := ck_free c - n\<rparr> # bs) (ck_base c + ck_size c - ck_free c, n)"
  using assms by (auto simp: in_used_def chunk_ok_def intro!: bexI [of _ "c\<lparr>ck_free := ck_free c - n\<rparr>"])

lemma alloc_inv_init: "alloc_inv alloc_init {}"
  by (auto simp: alloc_inv_def alloc_init_def alloc_consts free_blocks_def)

subsection \<open>The invariant is kept\<close>

lemma alloc_invD:
  assumes "alloc_inv s live"
  shows "length (ndL_free_objects s) = 16" and "\<forall>b<16. distinct (ndL_free_objects s ! b)"
    and "\<forall>c\<in>set (ndL_chunks s). chunk_ok c"
    and "sorted_wrt (\<lambda>c d. \<not> overlap (chunk_range c) (chunk_range d)) (ndL_chunks s)"
    and "\<And>y. y \<in> live \<Longrightarrow> in_used (ndL_chunks s) y" and "\<And>y. y \<in> live \<Longrightarrow> block_ok y"
    and "\<And>y. y \<in> live \<Longrightarrow> y \<notin> free_blocks s"
    and "16384 \<le> ndL_alloc_size s" and "ndL_alloc_size s \<le> 1048576" and "8 dvd ndL_alloc_size s"
  using assms unfolding alloc_inv_def alloc_consts by blast+

lemma free_blocks_mem: "(p, 8 * Suc b) \<in> free_blocks s \<longleftrightarrow> b < 16 \<and> p \<in> set (ndL_free_objects s ! b)"
  by (auto simp: free_blocks_def)

lemma free_blocks_update:
  assumes "length (ndL_free_objects s) = 16" and "b < 16"
  shows "free_blocks (s\<lparr>ndL_free_objects := (ndL_free_objects s)[b := xs]\<rparr>) =
         (free_blocks s - {x. snd x = 8 * Suc b}) \<union> (\<lambda>p. (p, 8 * Suc b)) ` set xs" (is "?L = ?R")
proof (intro set_eqI iffI)
  fix x assume "x \<in> ?L"
  then show "x \<in> ?R" using assms by (fastforce simp: free_blocks_def nth_list_update split: if_splits)
next
  fix x assume "x \<in> ?R"
  then show "x \<in> ?L" using assms by (fastforce simp: free_blocks_def nth_list_update)
qed

lemma alloc_inv_add:
  assumes inv: "alloc_inv s live"
    and chunks: "\<forall>c\<in>set cs. chunk_ok c" "sorted_wrt (\<lambda>c d. \<not> overlap (chunk_range c) (chunk_range d)) cs"
    and keep: "\<And>x. in_used (ndL_chunks s) x \<Longrightarrow> in_used cs x"
    and new: "block_ok x" "in_used cs x" "\<And>y. in_used (ndL_chunks s) y \<Longrightarrow> block_ok y \<Longrightarrow> \<not> overlap y x"
    and sz: "NDPPD_CHUNK_ALLOC_SIZE \<le> z" "z \<le> NDPPD_CHUNK_ALLOC_MAX" "8 dvd z"
  shows "alloc_inv (s\<lparr>ndL_chunks := cs, ndL_alloc_size := z\<rparr>) (insert x live)"
proof -
  have old: "\<not> overlap y x \<and> \<not> overlap x y" if "y \<in> live \<union> free_blocks s" for y
    using inv that new(3) [of y] by (auto simp: alloc_inv_def overlap_sym)
  have "overlap x x" using new(1) by (simp add: overlap_def block_ok_def)
  with old have "x \<notin> free_blocks s" by blast
  moreover have "free_blocks (s\<lparr>ndL_chunks := cs, ndL_alloc_size := z\<rparr>) = free_blocks s"
    by (simp add: free_blocks_def)
  moreover have "\<forall>y\<in>insert x live \<union> free_blocks s. block_ok y \<and> in_used cs y"
    using inv new(1,2) keep by (auto simp: alloc_inv_def)
  moreover have "\<forall>y\<in>insert x live \<union> free_blocks s. \<forall>z\<in>insert x live \<union> free_blocks s. y \<noteq> z \<longrightarrow> \<not> overlap y z"
    using inv old unfolding alloc_inv_def by blast
  moreover have "insert x live \<inter> free_blocks s = {}"
    using inv \<open>x \<notin> free_blocks s\<close> by (simp add: alloc_inv_def)
  ultimately show ?thesis
    using inv chunks sz by (simp add: alloc_inv_def)
qed

lemma alloc_reuse:
  assumes inv: "alloc_inv s live" and b: "b < 16" and obj: "ndL_free_objects s ! b = obj # rest"
  shows "alloc_inv (s\<lparr>ndL_free_objects := (ndL_free_objects s)[b := rest]\<rparr>) (insert (obj, 8 * Suc b) live)"
    and "(obj, 8 * Suc b) \<in> free_blocks s"
proof -
  let ?s = "s\<lparr>ndL_free_objects := (ndL_free_objects s)[b := rest]\<rparr>"
  have len: "length (ndL_free_objects s) = 16" using alloc_invD(1) [OF inv] .
  have dist: "distinct (obj # rest)" using alloc_invD(2) [OF inv] obj b by metis
  show mem: "(obj, 8 * Suc b) \<in> free_blocks s" using b obj by (simp add: free_blocks_mem del: mult_Suc_right)
  have "x \<in> free_blocks ?s \<longleftrightarrow> x \<in> free_blocks s - {(obj, 8 * Suc b)}" for x
  proof (cases "snd x = 8 * Suc b")
    case True
    then have "x = (fst x, 8 * Suc b)" by (simp add: prod_eq_iff)
    then obtain q where "x = (q, 8 * Suc b)" by blast
    then show ?thesis
      unfolding free_blocks_update [OF len b] using dist obj b by (auto simp: free_blocks_mem simp del: mult_Suc_right)
  qed (auto simp: free_blocks_update [OF len b])
  then have free: "free_blocks ?s = free_blocks s - {(obj, 8 * Suc b)}" by blast
  have un: "insert (obj, 8 * Suc b) live \<union> free_blocks ?s = live \<union> free_blocks s"
    using mem free by auto
  have "insert (obj, 8 * Suc b) live \<inter> free_blocks ?s = {}"
    using alloc_invD(7) [OF inv] free by blast
  moreover have "\<forall>i<16. distinct ((ndL_free_objects s)[b := rest] ! i)"
    using alloc_invD(2) [OF inv] dist len b by (simp add: nth_list_update)
  ultimately show "alloc_inv ?s (insert (obj, 8 * Suc b) live)"
    using inv unfolding alloc_inv_def un by simp
qed

lemma alloc_carve:
  assumes inv: "alloc_inv s live" and n: "0 < n" "n \<le> 128" "8 dvd n"
    and c: "carve n (ndL_chunks s) = Some (p, cs)"
  shows "alloc_inv (s\<lparr>ndL_chunks := cs\<rparr>) (insert (p, n) live)"
proof -
  obtain as c bs where split: "ndL_chunks s = as @ c # bs" "cs = as @ c\<lparr>ck_free := ck_free c - n\<rparr> # bs"
    "n \<le> ck_free c" "p = ck_base c + ck_size c - ck_free c"
    using carve_Some [OF c] by blast
  have ok: "\<forall>c\<in>set (ndL_chunks s). chunk_ok c"
    and sep: "sorted_wrt (\<lambda>c d. \<not> overlap (chunk_range c) (chunk_range d)) (ndL_chunks s)"
    using alloc_invD [OF inv] by blast+
  have c_ok: "chunk_ok c" using ok split by auto
  have "alloc_inv (s\<lparr>ndL_chunks := cs, ndL_alloc_size := ndL_alloc_size s\<rparr>) (insert (p, n) live)"
  proof (rule alloc_inv_add [OF inv])
    show "\<forall>c\<in>set cs. chunk_ok c" using ok split n(3) by (auto simp: chunk_ok_def)
    show "sorted_wrt (\<lambda>c d. \<not> overlap (chunk_range c) (chunk_range d)) cs"
      using sep split by (simp add: sorted_wrt_append chunk_range_def)
    show "in_used cs x" if "in_used (ndL_chunks s) x" for x
      using in_used_carve that split by simp
    show "block_ok (p, n)" using n c_ok split(3,4) by (auto simp: block_ok_def chunk_ok_def)
    show "in_used cs (p, n)" using in_used_new [OF c_ok split(3)] split by simp
    show "\<not> overlap y (p, n)" if "in_used (ndL_chunks s) y" "block_ok y" for y
      using fresh_block [OF that(1) sep _ c_ok split(3) that(2) ok] split by simp
  qed (use alloc_invD [OF inv] in \<open>simp_all add: alloc_consts\<close>)
  then show ?thesis by simp
qed

lemma alloc_new_chunk:
  assumes inv: "alloc_inv s live" and n: "0 < n" "n \<le> 128" "8 dvd n"
    and base: "malloc_fresh (Some base) s"
  shows "alloc_inv (s\<lparr>ndL_chunks := \<lparr>ck_base = base, ck_free = ndL_alloc_size s - 24 - n, ck_size = ndL_alloc_size s\<rparr>
                        # ndL_chunks s, ndL_alloc_size := grow (ndL_alloc_size s)\<rparr>)
           (insert (base + 24, n) live)"
proof -
  define c where "c = \<lparr>ck_base = base, ck_free = ndL_alloc_size s - 24 - n, ck_size = ndL_alloc_size s\<rparr>"
  have sz: "16384 \<le> ndL_alloc_size s" "8 dvd ndL_alloc_size s"
    using alloc_invD [OF inv] by blast+
  have fr: "8 dvd base" "\<forall>d\<in>set (ndL_chunks s). \<not> overlap (chunk_range c) (chunk_range d)"
    using base by (auto simp: malloc_fresh_def c_def chunk_range_def)
  have c_ok: "chunk_ok c" using fr sz n by (auto simp: chunk_ok_def c_def dvd_diff_nat)
  have used: "in_used (c # ndL_chunks s) (base + 24, n)"
    using sz n by (auto simp: in_used_def c_def)
  show ?thesis unfolding c_def [symmetric]
  proof (rule alloc_inv_add [OF inv])
    show "\<forall>c\<in>set (c # ndL_chunks s). chunk_ok c" using alloc_invD(3) [OF inv] c_ok by simp
    show "sorted_wrt (\<lambda>c d. \<not> overlap (chunk_range c) (chunk_range d)) (c # ndL_chunks s)"
      using alloc_invD(4) [OF inv] fr by simp
    show "in_used (c # ndL_chunks s) x" if "in_used (ndL_chunks s) x" for x
      using that by (auto simp: in_used_def)
    show "block_ok (base + 24, n)" using n fr by (auto simp: block_ok_def)
    show "\<not> overlap y (base + 24, n)" if y: "in_used (ndL_chunks s) y" "block_ok y" for y
    proof -
      obtain d where d: "d \<in> set (ndL_chunks s)" "ck_base d + 24 \<le> fst y"
        "fst y + snd y + ck_free d \<le> ck_base d + ck_size d"
        using y(1) by (auto simp: in_used_def)
      with fr(2) sz n show ?thesis by (auto simp: overlap_def chunk_range_def c_def)
    qed
  qed (use used grow_bounds [of "ndL_alloc_size s"] alloc_invD [OF inv] in \<open>simp_all add: alloc_consts\<close>)
qed

text \<open>What \<open>nd_alloc\<close> does, on every branch.\<close>

lemma nd_alloc_inv:
  assumes inv: "alloc_inv s live" and m: "malloc_fresh malloc s"
    and r: "nd_alloc malloc n s = Inr (p, s')"
  shows "alloc_inv s' (insert (p, round8 n) live)" and "(p, round8 n) \<notin> live"
proof -
  have n: "0 < n" "n \<le> 128" using r by (auto simp: nd_alloc_def alloc_consts split: if_splits)
  note b = round8_bounds [OF n]
  have n8: "0 < round8 n" "round8 n \<le> 128" "8 dvd round8 n" using b(2) by (auto simp: block_ok_def)
  have both: "alloc_inv s' (insert (p, round8 n) live) \<and> (p, round8 n) \<notin> live"
  proof (cases "ndL_free_objects s ! (round8 n div 8 - 1)")
    case (Cons obj rest)
    with r n have "p = obj" "s' = s\<lparr>ndL_free_objects := (ndL_free_objects s)[round8 n div 8 - 1 := rest]\<rparr>"
      by (auto simp: nd_alloc_def alloc_consts Let_def)
    with alloc_reuse [OF inv b(3) Cons] alloc_invD(7) [OF inv] b(4) show ?thesis by metis
  next
    case Nil
    have fresh: "(p, round8 n) \<notin> live" if "\<And>y. y \<in> live \<Longrightarrow> \<not> overlap y (p, round8 n)"
    proof
      assume "(p, round8 n) \<in> live"
      then have "\<not> overlap (p, round8 n) (p, round8 n)" by (rule that)
      with n8(1) show False by (simp add: overlap_def)
    qed
    show ?thesis
    proof (cases "carve (round8 n) (ndL_chunks s)")
      case (Some q)
      with r n Nil have s': "carve (round8 n) (ndL_chunks s) = Some (p, ndL_chunks s')"
        "s' = s\<lparr>ndL_chunks := ndL_chunks s'\<rparr>"
        by (auto simp: nd_alloc_def alloc_consts Let_def split: prod.splits)
      obtain as c bs where split: "ndL_chunks s = as @ c # bs" "round8 n \<le> ck_free c"
        "p = ck_base c + ck_size c - ck_free c"
        using carve_Some [OF s'(1)] by blast
      have "(p, round8 n) \<notin> live"
      proof (rule fresh)
        fix y assume "y \<in> live"
        then have y: "in_used (ndL_chunks s) y" "block_ok y" using alloc_invD(5,6) [OF inv] by auto
        have "c \<in> set (ndL_chunks s)" and "chunk_ok c" using alloc_invD(3) [OF inv] split(1) by auto
        from fresh_block [OF y(1) alloc_invD(4) [OF inv] this split(2) y(2) alloc_invD(3) [OF inv]]
        show "\<not> overlap y (p, round8 n)" by (simp add: split(3))
      qed
      with alloc_carve [OF inv n8 s'(1)] s'(2) show ?thesis by simp
    next
      case None
      with r n Nil obtain base where base: "malloc = Some base"
        by (auto simp: nd_alloc_def alloc_consts Let_def split: option.splits)
      note sz = alloc_invD(8) [OF inv]
      have p: "p = base + 24" and s': "s' = s\<lparr>ndL_chunks := \<lparr>ck_base = base, ck_free = ndL_alloc_size s - 24 - round8 n,
          ck_size = ndL_alloc_size s\<rparr> # ndL_chunks s, ndL_alloc_size := grow (ndL_alloc_size s)\<rparr>"
        using r n Nil None base sz by (auto simp: nd_alloc_def alloc_consts Let_def)
      have "(p, round8 n) \<notin> live"
      proof (rule fresh)
        fix y assume "y \<in> live"
        then obtain d where d: "d \<in> set (ndL_chunks s)" "ck_base d + 24 \<le> fst y"
          "fst y + snd y + ck_free d \<le> ck_base d + ck_size d"
          using alloc_invD(5) [OF inv, of y] by (auto simp: in_used_def)
        with m base have "\<not> overlap (base, ndL_alloc_size s) (chunk_range d)" by (simp add: malloc_fresh_def)
        with d p sz n8 show "\<not> overlap y (p, round8 n)"
          by (auto simp: overlap_def chunk_range_def)
      qed
      with alloc_new_chunk [OF inv n8] m base s' p show ?thesis by simp
    qed
  qed
  then show "alloc_inv s' (insert (p, round8 n) live)" and "(p, round8 n) \<notin> live" by auto
qed

lemma nd_free_inv:
  assumes inv: "alloc_inv s live" and p: "(p, round8 n) \<in> live" and r: "nd_free p n s = Inr s'"
  shows "alloc_inv s' (live - {(p, round8 n)})"
proof -
  have n: "0 < n" "n \<le> 128" using r by (auto simp: nd_free_def alloc_consts split: if_splits)
  obtain b where b: "b < 16" "round8 n = 8 * Suc b" "round8 n div 8 - 1 = b"
    using round8_bounds(3,4) [OF n] by metis
  have s': "s' = s\<lparr>ndL_free_objects := (ndL_free_objects s)[b := p # ndL_free_objects s ! b]\<rparr>"
    using r n b(3) by (auto simp: nd_free_def alloc_consts Let_def)
  note len = alloc_invD(1) [OF inv]
  have "x \<in> free_blocks s' \<longleftrightarrow> x \<in> insert (p, 8 * Suc b) (free_blocks s)" for x
  proof (cases "snd x = 8 * Suc b")
    case True
    then have "x = (fst x, 8 * Suc b)" by (simp add: prod_eq_iff)
    then obtain q where "x = (q, 8 * Suc b)" by blast
    then show ?thesis
      unfolding s' free_blocks_update [OF len b(1)]
      using b(1) by (auto simp: free_blocks_mem simp del: mult_Suc_right)
  next
    case False
    then show ?thesis unfolding s' free_blocks_update [OF len b(1)] by auto
  qed
  then have free: "free_blocks s' = insert (p, round8 n) (free_blocks s)" unfolding b(2) by blast
  have "p \<notin> set (ndL_free_objects s ! b)"
    using alloc_invD(7) [OF inv p] b(1,2) free_blocks_mem [of p b s] by metis
  then have "\<forall>i<16. distinct (ndL_free_objects s' ! i)"
    using alloc_invD(2) [OF inv] len b(1) by (simp add: s' nth_list_update)
  moreover have "(live - {(p, round8 n)}) \<union> free_blocks s' = live \<union> free_blocks s"
    using free p by auto
  moreover have "(live - {(p, round8 n)}) \<inter> free_blocks s' = {}"
    using free alloc_invD(7) [OF inv] by blast
  moreover have "length (ndL_free_objects s') = 16" "ndL_chunks s' = ndL_chunks s" "ndL_alloc_size s' = ndL_alloc_size s"
    using len by (simp_all add: s')
  ultimately show ?thesis using inv unfolding alloc_inv_def by simp
qed

subsection \<open>Programs of allocations and frees\<close>

text \<open>
  A program of the daemon: any sequence of allocations and of frees of blocks in use with the
  size they were allocated with.
\<close>

inductive alloc_reach :: "alloc_state \<Rightarrow> block set \<Rightarrow> bool" where
  start: "alloc_reach alloc_init {}"
| alloc: "alloc_reach s live \<Longrightarrow> malloc_fresh malloc s \<Longrightarrow> nd_alloc malloc n s = Inr (p, s') \<Longrightarrow>
          alloc_reach s' (insert (p, round8 n) live)"
| free: "alloc_reach s live \<Longrightarrow> (p, round8 n) \<in> live \<Longrightarrow> nd_free p n s = Inr s' \<Longrightarrow>
         alloc_reach s' (live - {(p, round8 n)})"

lemma alloc_reach_inv: "alloc_reach s live \<Longrightarrow> alloc_inv s live"
proof (induction rule: alloc_reach.induct)
  case start
  show ?case by (rule alloc_inv_init)
next
  case (alloc s live malloc n p s')
  then show ?case by (blast intro: nd_alloc_inv)
next
  case (free s live p n s')
  then show ?case by (blast intro: nd_free_inv)
qed

text \<open>When \<open>nd_alloc\<close> fails: an invalid size, or \<open>malloc\<close> failing when a new chunk is needed.\<close>

lemma nd_alloc_total:
  assumes "0 < n" "n \<le> 128"
  shows "\<exists>p s'. nd_alloc (Some base) n s = Inr (p, s')"
  using assms by (auto simp: nd_alloc_def alloc_consts Let_def split: list.splits option.splits)

subsection \<open>The interface\<close>

locale block_allocator =
  fixes inv :: "'s \<Rightarrow> block set \<Rightarrow> bool"
    and may :: "'m \<Rightarrow> 's \<Rightarrow> bool"
    and alloc :: "'m \<Rightarrow> nat \<Rightarrow> 's \<Rightarrow> 'e + (nat \<times> 's)"
    and dealloc :: "nat \<Rightarrow> nat \<Rightarrow> 's \<Rightarrow> 'e + 's"
    and rnd :: "nat \<Rightarrow> nat"
  assumes alloc_inv: "inv s live \<Longrightarrow> may m s \<Longrightarrow> alloc m n s = Inr (p, s') \<Longrightarrow> inv s' (insert (p, rnd n) live)"
    and alloc_fresh: "inv s live \<Longrightarrow> may m s \<Longrightarrow> alloc m n s = Inr (p, s') \<Longrightarrow> (p, rnd n) \<notin> live"
    and free_inv: "inv s live \<Longrightarrow> (p, rnd n) \<in> live \<Longrightarrow> dealloc p n s = Inr s' \<Longrightarrow> inv s' (live - {(p, rnd n)})"
    and inv_apart: "inv s live \<Longrightarrow> x \<in> live \<Longrightarrow> y \<in> live \<Longrightarrow> x \<noteq> y \<Longrightarrow> \<not> overlap x y"
    and inv_aligned: "inv s live \<Longrightarrow> x \<in> live \<Longrightarrow> 8 dvd fst x"
begin

text \<open>Two objects allocated one after the other are apart from each other and from all others.\<close>

lemma two_allocs:
  assumes i: "inv s live" and m: "may m s" and a: "alloc m n s = Inr (p, s1)"
    and m': "may m' s1" and a': "alloc m' n' s1 = Inr (q, s2)"
  shows "\<not> overlap (p, rnd n) (q, rnd n')"
proof -
  have i1: "inv s1 (insert (p, rnd n) live)" using alloc_inv [OF i m a] .
  have i2: "inv s2 (insert (q, rnd n') (insert (p, rnd n) live))" using alloc_inv [OF i1 m' a'] .
  moreover have "(p, rnd n) \<noteq> (q, rnd n')" using alloc_fresh [OF i1 m' a'] by auto
  ultimately show ?thesis by (intro inv_apart [OF i2]) auto
qed

lemma alloc_apart:
  assumes i: "inv s live" and m: "may m s" and a: "alloc m n s = Inr (p, s')" and x: "x \<in> live"
  shows "\<not> overlap (p, rnd n) x"
proof -
  have "(p, rnd n) \<noteq> x" using alloc_fresh [OF i m a] x by auto
  with inv_apart [OF alloc_inv [OF i m a]] x show ?thesis by blast
qed

end

interpretation nd_mem: block_allocator alloc_inv malloc_fresh nd_alloc nd_free round8
proof unfold_locales
  show "alloc_inv s live \<Longrightarrow> malloc_fresh m s \<Longrightarrow> nd_alloc m n s = Inr (p, s') \<Longrightarrow>
        alloc_inv s' (insert (p, round8 n) live)" for s live m n p s'
    by (rule nd_alloc_inv)
  show "alloc_inv s live \<Longrightarrow> malloc_fresh m s \<Longrightarrow> nd_alloc m n s = Inr (p, s') \<Longrightarrow>
        (p, round8 n) \<notin> live" for s live m n p s'
    by (rule nd_alloc_inv)
  show "alloc_inv s live \<Longrightarrow> (p, round8 n) \<in> live \<Longrightarrow> nd_free p n s = Inr s' \<Longrightarrow>
        alloc_inv s' (live - {(p, round8 n)})" for s live p n s'
    by (rule nd_free_inv)
  show "alloc_inv s live \<Longrightarrow> x \<in> live \<Longrightarrow> y \<in> live \<Longrightarrow> x \<noteq> y \<Longrightarrow> \<not> overlap x y" for s live x y
    unfolding alloc_inv_def by blast
  show "alloc_inv s live \<Longrightarrow> x \<in> live \<Longrightarrow> 8 dvd fst x" for s live x
    using alloc_invD(6) by (auto simp: block_ok_def)
qed

subsection \<open>Properties\<close>

text \<open>
  C34: whatever sequence of allocations and releases the program makes, the blocks in use never
  overlap, each lies inside one chunk behind the chunk's header, and each is aligned to 8 bytes.
\<close>

theorem blocks_disjoint:
  assumes "alloc_reach s live" "x \<in> live"
  shows "block_ok x \<and> in_used (ndL_chunks s) x \<and> (\<forall>y\<in>live. y \<noteq> x \<longrightarrow> \<not> overlap x y)"
  using alloc_reach_inv [OF assms(1)] assms(2) alloc_invD(5,6) nd_mem.inv_apart by metis

lemma two_blocks:
  "\<exists>s. alloc_reach s {(4120, 16), (4136, 40)}"
proof -
  obtain s1 where s1: "nd_alloc (Some 4096) 16 alloc_init = Inr (4120, s1)" "ndL_chunks s1 \<noteq> []"
    "ndL_chunks s1 = [\<lparr>ck_base = 4096, ck_free = 16344, ck_size = 16384\<rparr>]" "ndL_free_objects s1 = replicate 16 []"
    by (simp add: nd_alloc_def alloc_init_def alloc_consts round8_eq Let_def)
  have r1: "alloc_reach s1 (insert (4120, round8 16) {})"
    by (rule alloc_reach.alloc [OF alloc_reach.start _ s1(1)]) (simp add: malloc_fresh_def alloc_init_def)
  obtain s2 where s2: "nd_alloc None 36 s1 = Inr (4136, s2)"
    using s1(3,4) by (simp add: nd_alloc_def alloc_consts round8_eq Let_def)
  have "alloc_reach s2 (insert (4136, round8 36) (insert (4120, round8 16) {}))"
    by (rule alloc_reach.alloc [OF r1 _ s2]) (simp add: malloc_fresh_def)
  then show ?thesis by (auto simp: round8_eq insert_commute)
qed

theorem blocks_disjoint_witness:
  "block_ok (4120, 16) \<and> \<not> overlap (4120, 16) (4136, 40) \<and> (\<exists>s. alloc_reach s {(4120, 16), (4136, 40)})"
proof -
  obtain s where s: "alloc_reach s {(4120, 16), (4136, 40)}" using two_blocks by blast
  show ?thesis using blocks_disjoint [OF s, of "(4120, 16)"] s by auto
qed

text \<open>
  The error paths of \<open>nd_alloc\<close> are exactly these: a size of 0 or more than 128 bytes is refused,
  and an acceptable size fails only when no released block of its class, no chunk with room
  and no memory from \<open>malloc\<close> is left.
\<close>

theorem alloc_errors:
  "nd_alloc malloc n s = Inl e \<longleftrightarrow>
     e = InvalidSize \<and> (n = 0 \<or> 128 < n) \<or>
     e = OutOfMemory \<and> 0 < n \<and> n \<le> 128 \<and> malloc = None \<and>
       ndL_free_objects s ! (round8 n div 8 - 1) = [] \<and> list_all (\<lambda>c. ck_free c < round8 n) (ndL_chunks s)"
  by (auto simp: nd_alloc_def Let_def alloc_consts list_all_iff carve_None [symmetric]
           split: if_splits list.splits option.splits)

end
