(* ===== verification/Linked_List.thy ===== *)
theory Linked_List
  imports Nd_Prelude
begin

text \<open>
  The intrusive singly linked lists of \<^verbatim>\<open>src/ndppd.h\<close> (the \<open>ND_LL_*\<close> macros), on an explicit
  heap of \<open>next\<close> links.  A list is the address of its head and a function \<open>links\<close> that reads
  the chosen \<open>next\<close> field.  The macros are loops with no bound, so they are
  \<^theory_text>\<open>partial_function (option)\<close>: \<open>None\<close> is a loop that never ends.  The lemmas show that on a
  well-formed list (\<open>ll_list\<close>) every macro returns, and that it computes the list operation
  the other components use in its place: cons, \<open>remove1\<close>, \<open>find\<close>, \<open>length\<close>, and for the
  deletion-safe traversal \<open>filter\<close>.  The locale \<open>linked_lists\<close> is the interface, interpreted at
  the end of the theory on the macros.
\<close>

type_synonym links = "ptr \<Rightarrow> ptr option"

definition ND_LL_PREPEND :: "links \<Rightarrow> ptr option \<Rightarrow> ptr \<Rightarrow> links \<times> ptr option" where
  "ND_LL_PREPEND nxt head el = (nxt(el := head), Some el)"

partial_function (option) ll_prev :: "links \<Rightarrow> ptr option \<Rightarrow> ptr \<Rightarrow> ptr option option" where
  "ll_prev nxt lst el =
     (case lst of
        None \<Rightarrow> Some None
      | Some l \<Rightarrow> if nxt l = Some el then Some (Some l) else ll_prev nxt (nxt l) el)"

definition ND_LL_DELETE :: "links \<Rightarrow> ptr option \<Rightarrow> ptr \<Rightarrow> (links \<times> ptr option) option" where
  "ND_LL_DELETE nxt head el = do {
     lst \<leftarrow> ll_prev nxt head el;
     let nxt1 = (case lst of None \<Rightarrow> nxt | Some l \<Rightarrow> nxt(l := nxt el));
     let head1 = (if head = Some el then nxt1 el else head);
     Some (nxt1, head1)
   }"

partial_function (option) ND_LL_COUNT :: "links \<Rightarrow> ptr option \<Rightarrow> nat \<Rightarrow> nat option" where
  "ND_LL_COUNT nxt el count =
     (case el of None \<Rightarrow> Some count | Some e \<Rightarrow> ND_LL_COUNT nxt (nxt e) (Suc count))"

partial_function (option) ND_LL_SEARCH ::
  "links \<Rightarrow> ptr option \<Rightarrow> (ptr \<Rightarrow> bool) \<Rightarrow> ptr option option" where
  "ND_LL_SEARCH nxt el pred =
     (case el of
        None \<Rightarrow> Some None
      | Some e \<Rightarrow> if pred e then Some (Some e) else ND_LL_SEARCH nxt (nxt e) pred)"

text \<open>
  \<open>ND_LL_FOREACH_S\<close>: the successor is read before the body runs, so the body may unlink the
  element it is given.  The loop state is the pair of the links and the head, which the body may
  change.
\<close>

partial_function (option) ND_LL_FOREACH_S ::
  "(ptr \<Rightarrow> links \<times> ptr option \<Rightarrow> (links \<times> ptr option) option) \<Rightarrow> ptr option \<Rightarrow> ptr option \<Rightarrow>
   links \<times> ptr option \<Rightarrow> (links \<times> ptr option) option" where
  "ND_LL_FOREACH_S body el tmp st =
     (case el of
        None \<Rightarrow> Some st
      | Some e \<Rightarrow>
          Option.bind (body e st)
            (\<lambda>st'. ND_LL_FOREACH_S body tmp (Option.bind tmp (fst st')) st'))"

text \<open>The traversal as the macro starts it.\<close>

definition ll_foreach_s ::
  "(ptr \<Rightarrow> links \<times> ptr option \<Rightarrow> (links \<times> ptr option) option) \<Rightarrow> links \<times> ptr option \<Rightarrow>
   (links \<times> ptr option) option" where
  "ll_foreach_s body st = ND_LL_FOREACH_S body (snd st) (Option.bind (snd st) (fst st)) st"

definition ll_delete_if :: "(ptr \<Rightarrow> bool) \<Rightarrow> ptr \<Rightarrow> links \<times> ptr option \<Rightarrow> (links \<times> ptr option) option" where
  "ll_delete_if expired e st = (if expired e then ND_LL_DELETE (fst st) (snd st) e else Some st)"

subsection \<open>Well-formed lists\<close>

fun ll_list :: "links \<Rightarrow> ptr option \<Rightarrow> ptr list \<Rightarrow> bool" where
  "ll_list nxt head [] = (head = None)"
| "ll_list nxt head (x # xs) = (head = Some x \<and> ll_list nxt (nxt x) xs \<and> x \<notin> set xs)"

lemma ll_list_distinct: "ll_list nxt head xs \<Longrightarrow> distinct xs"
  by (induction xs arbitrary: head) auto

lemma ll_list_frame: "\<forall>q\<in>set xs. nxt' q = nxt q \<Longrightarrow> ll_list nxt' head xs = ll_list nxt head xs"
  by (induction xs arbitrary: head) auto

lemma ll_list_upd_notin [simp]: "q \<notin> set xs \<Longrightarrow> ll_list (nxt(q := v)) head xs = ll_list nxt head xs"
  by (rule ll_list_frame) auto

lemma ll_list_None [simp]: "ll_list nxt None xs = (xs = [])"
  by (cases xs) auto

lemma ll_list_Some: "ll_list nxt (Some p) xs \<longleftrightarrow> (\<exists>ys. xs = p # ys \<and> ll_list nxt (nxt p) ys \<and> p \<notin> set ys)"
  by (cases xs) auto

lemma ll_list_append_hd:
  "ll_list nxt head (xs @ y # ys) \<Longrightarrow> ll_list nxt (Some y) (y # ys)"
  by (induction xs arbitrary: head) auto

lemma ll_prev_notin: "ll_list nxt head xs \<Longrightarrow> el \<notin> set (tl xs) \<Longrightarrow> ll_prev nxt head el = Some None"
proof (induction xs arbitrary: head)
  case Nil
  then show ?case by (simp add: ll_prev.simps)
next
  case (Cons x xs)
  have "nxt x \<noteq> Some el" using Cons.prems by (cases xs) auto
  moreover have "ll_prev nxt (nxt x) el = Some None"
    using Cons by (cases xs) auto
  ultimately show ?case using Cons.prems by (simp add: ll_prev.simps [of nxt "Some x"])
qed

lemma ll_prev_in:
  "ll_list nxt head (xs @ l # el # ys) \<Longrightarrow> ll_prev nxt head el = Some (Some l)"
proof (induction xs arbitrary: head)
  case Nil
  then show ?case by (simp add: ll_prev.simps)
next
  case (Cons x xs)
  have "nxt x \<noteq> Some el" using Cons.prems by (cases xs) auto
  with Cons show ?case by (simp add: ll_prev.simps [of nxt "Some x"])
qed

lemma ll_list_unlink:
  "ll_list nxt head (xs @ l # el # ys) \<Longrightarrow> ll_list (nxt(l := nxt el)) head (xs @ l # ys)"
  by (induction xs arbitrary: head) auto

lemma ND_LL_DELETE_list:
  assumes "ll_list nxt head xs" and "el \<in> set xs"
  shows "\<exists>nxt' head'. ND_LL_DELETE nxt head el = Some (nxt', head') \<and> ll_list nxt' head' (remove1 el xs)"
proof (cases "xs \<noteq> [] \<and> hd xs = el")
  case True
  then obtain ys where xs: "xs = el # ys" by (cases xs) auto
  have "ll_prev nxt head el = Some None" using ll_prev_notin [OF assms(1)] assms(1) xs by simp
  with assms xs show ?thesis by (auto simp: ND_LL_DELETE_def)
next
  case False
  obtain as bs where split: "xs = as @ el # bs" "el \<notin> set as"
    using assms(2) by (metis split_list_first)
  with False have "as \<noteq> []" by (cases as) auto
  then obtain as' l where as: "as = as' @ [l]" by (metis append_butlast_last_id)
  have lst: "ll_list nxt head (as' @ l # el # bs)" using assms(1) split as by simp
  have "head \<noteq> Some el" using lst split as by (cases as') auto
  moreover have "remove1 el xs = as' @ l # bs" using split as by (simp add: remove1_append)
  ultimately show ?thesis
    using ll_prev_in [OF lst] ll_list_unlink [OF lst] by (auto simp: ND_LL_DELETE_def)
qed

lemma ND_LL_COUNT_acc: "ll_list nxt head xs \<Longrightarrow> ND_LL_COUNT nxt head n = Some (n + length xs)"
  by (induction xs arbitrary: head n) (simp_all add: ND_LL_COUNT.simps)

lemma ND_LL_SEARCH_find: "ll_list nxt head xs \<Longrightarrow> ND_LL_SEARCH nxt head pred = Some (find pred xs)"
  by (induction xs arbitrary: head) (simp_all add: ND_LL_SEARCH.simps)

subsection \<open>The traversal that deletes as it goes\<close>

lemma ll_list_Some_hd: "ll_list nxt head xs \<Longrightarrow> head = (case xs of [] \<Rightarrow> None | x # _ \<Rightarrow> Some x)"
  by (cases xs) auto

lemma ll_list_next:
  "ll_list nxt head (xs @ y # ys) \<Longrightarrow> nxt y = (case ys of [] \<Rightarrow> None | z # _ \<Rightarrow> Some z)"
  by (metis ll_list.simps(2) ll_list_Some_hd ll_list_append_hd)

lemma foreach_delete_invariant:
  "ll_list (fst st) (snd st) (keep @ todo) \<Longrightarrow>
   el = (case todo of [] \<Rightarrow> None | x # _ \<Rightarrow> Some x) \<Longrightarrow>
   tmp = (case todo of [] \<Rightarrow> None | [x] \<Rightarrow> None | x # y # _ \<Rightarrow> Some y) \<Longrightarrow>
   \<exists>st'. ND_LL_FOREACH_S (ll_delete_if expired) el tmp st = Some st' \<and>
         ll_list (fst st') (snd st') (keep @ filter (\<lambda>p. \<not> expired p) todo)"
proof (induction todo arbitrary: st keep el tmp)
  case Nil
  then show ?case by (simp add: ND_LL_FOREACH_S.simps)
next
  case (Cons e rest)
  define keep' where "keep' = (if expired e then keep else keep @ [e])"
  obtain st1 where st1: "ll_delete_if expired e st = Some st1"
    and l1: "ll_list (fst st1) (snd st1) (keep' @ rest)"
  proof (cases "expired e")
    case True
    have "e \<notin> set keep" using ll_list_distinct [OF Cons.prems(1)] by auto
    then have "remove1 e (keep @ e # rest) = keep @ rest" by (simp add: remove1_append)
    with ND_LL_DELETE_list [OF Cons.prems(1), of e] True that show ?thesis
      by (auto simp: ll_delete_if_def keep'_def)
  next
    case False
    with Cons.prems(1) that show ?thesis by (auto simp: ll_delete_if_def keep'_def)
  qed
  have tmp: "tmp = (case rest of [] \<Rightarrow> None | x # _ \<Rightarrow> Some x)"
    using Cons.prems(3) by (auto split: list.splits)
  have nx: "Option.bind tmp (fst st1) = (case rest of [] \<Rightarrow> None | [x] \<Rightarrow> None | x # y # _ \<Rightarrow> Some y)"
  proof (cases rest)
    case Nil
    then show ?thesis by (simp add: tmp)
  next
    case (Cons y ys)
    with ll_list_next [of "fst st1" "snd st1" keep' y ys] l1 show ?thesis
      by (simp add: tmp split: list.splits)
  qed
  have "keep' @ filter (\<lambda>p. \<not> expired p) rest = keep @ filter (\<lambda>p. \<not> expired p) (e # rest)"
    by (simp add: keep'_def)
  with Cons.IH [OF l1 tmp nx] st1 Cons.prems(2) show ?case
    by (simp add: ND_LL_FOREACH_S.simps [of _ "Some e"])
qed

lemma foreach_delete_filter:
  assumes "ll_list nxt head xs"
  shows "\<exists>nxt' head'. ll_foreach_s (ll_delete_if expired) (nxt, head) = Some (nxt', head') \<and>
           ll_list nxt' head' (filter (\<lambda>p. \<not> expired p) xs)"
proof -
  have "Option.bind head nxt = (case xs of [] \<Rightarrow> None | [x] \<Rightarrow> None | x # y # _ \<Rightarrow> Some y)"
    using assms ll_list_next [of nxt head "[]"] by (cases xs) (auto split: list.splits)
  with foreach_delete_invariant [of "(nxt, head)" "[]" xs head "Option.bind head nxt" expired]
    assms ll_list_Some_hd [OF assms]
  show ?thesis by (fastforce simp: ll_foreach_s_def)
qed

subsection \<open>The interface\<close>

text \<open>
  What a client of the lists relies on: a representation predicate and what each operation
  does to the sequence represented.
\<close>

locale linked_lists =
  fixes lrep :: "'h \<Rightarrow> ptr option \<Rightarrow> ptr list \<Rightarrow> bool"
    and prepend :: "'h \<Rightarrow> ptr option \<Rightarrow> ptr \<Rightarrow> 'h \<times> ptr option"
    and delete :: "'h \<Rightarrow> ptr option \<Rightarrow> ptr \<Rightarrow> ('h \<times> ptr option) option"
    and count :: "'h \<Rightarrow> ptr option \<Rightarrow> nat option"
    and search :: "'h \<Rightarrow> ptr option \<Rightarrow> (ptr \<Rightarrow> bool) \<Rightarrow> ptr option option"
  assumes lrep_distinct: "lrep h p xs \<Longrightarrow> distinct xs"
    and lrep_prepend: "lrep h p xs \<Longrightarrow> el \<notin> set xs \<Longrightarrow> prepend h p el = (h', p') \<Longrightarrow> lrep h' p' (el # xs)"
    and lrep_delete: "lrep h p xs \<Longrightarrow> el \<in> set xs \<Longrightarrow>
           \<exists>h' p'. delete h p el = Some (h', p') \<and> lrep h' p' (remove1 el xs)"
    and lrep_count: "lrep h p xs \<Longrightarrow> count h p = Some (length xs)"
    and lrep_search: "lrep h p xs \<Longrightarrow> search h p P = Some (find P xs)"
begin

text \<open>A client that links an element, finds it again, and unlinks it gets its list back.\<close>

lemma prepend_search:
  assumes "lrep h p xs" and "el \<notin> set xs" and "prepend h p el = (h', p')" and "P el"
  shows "search h' p' P = Some (Some el)"
  using lrep_search [OF lrep_prepend [OF assms(1-3)], of P] assms(4) by simp

lemma prepend_delete:
  assumes "lrep h p xs" and "el \<notin> set xs" and "prepend h p el = (h', p')"
  shows "\<exists>h'' p''. delete h' p' el = Some (h'', p'') \<and> lrep h'' p'' xs"
  using lrep_delete [OF lrep_prepend [OF assms], of el] by simp

lemma delete_count:
  assumes "lrep h p xs" and "el \<in> set xs"
  shows "\<exists>h' p'. delete h p el = Some (h', p') \<and> count h' p' = Some (length xs - 1)"
proof -
  obtain h' p' where d: "delete h p el = Some (h', p')" and l: "lrep h' p' (remove1 el xs)"
    using lrep_delete [OF assms] by blast
  from lrep_count [OF l] assms(2) have "count h' p' = Some (length xs - 1)"
    by (simp add: length_remove1)
  with d show ?thesis by blast
qed

lemma delete_forgets:
  assumes "lrep h p xs" and "el \<in> set xs"
  shows "\<exists>h' p'. delete h p el = Some (h', p') \<and> search h' p' (\<lambda>q. q = el) = Some None"
proof -
  obtain h' p' where d: "delete h p el = Some (h', p')" and l: "lrep h' p' (remove1 el xs)"
    using lrep_delete [OF assms] by blast
  have "el \<notin> set (remove1 el xs)" using lrep_distinct [OF assms(1)] by simp
  then have "find (\<lambda>q. q = el) (remove1 el xs) = None" by (auto simp: find_None_iff)
  with lrep_search [OF l, of "\<lambda>q. q = el"] d show ?thesis by auto
qed

end

interpretation nd_ll: linked_lists ll_list ND_LL_PREPEND ND_LL_DELETE
  "\<lambda>nxt head. ND_LL_COUNT nxt head 0" ND_LL_SEARCH
proof unfold_locales
  show "ll_list h p xs \<Longrightarrow> distinct xs" for h p xs by (rule ll_list_distinct)
  show "ll_list h p xs \<Longrightarrow> el \<notin> set xs \<Longrightarrow> ND_LL_PREPEND h p el = (h', p') \<Longrightarrow>
        ll_list h' p' (el # xs)" for h p xs el h' p'
    by (auto simp: ND_LL_PREPEND_def)
  show "ll_list h p xs \<Longrightarrow> el \<in> set xs \<Longrightarrow>
        \<exists>h' p'. ND_LL_DELETE h p el = Some (h', p') \<and> ll_list h' p' (remove1 el xs)" for h p xs el
    by (rule ND_LL_DELETE_list)
  show "ll_list h p xs \<Longrightarrow> ND_LL_COUNT h p 0 = Some (length xs)" for h p xs
    by (simp add: ND_LL_COUNT_acc)
  show "ll_list h p xs \<Longrightarrow> ND_LL_SEARCH h p P = Some (find P xs)" for h p xs P
    by (rule ND_LL_SEARCH_find)
qed

subsection \<open>Properties\<close>



text \<open>
  The list macros implement lists: on a well-formed list, prepending conses, deleting a member
  removes it wherever it stands, counting gives the length and searching the first match, and all four return.
\<close>

theorem ll_macros_refine_lists:
  assumes "ll_list nxt head xs" "el \<in> set xs" "new \<notin> set xs"
  shows "ll_list (fst (ND_LL_PREPEND nxt head new)) (snd (ND_LL_PREPEND nxt head new)) (new # xs) \<and>
     (\<exists>nxt' head'. ND_LL_DELETE nxt head el = Some (nxt', head') \<and> ll_list nxt' head' (remove1 el xs)) \<and>
     ND_LL_COUNT nxt head 0 = Some (length xs) \<and> ND_LL_SEARCH nxt head P = Some (find P xs)"
  using nd_ll.lrep_prepend [OF assms(1,3) prod.collapse [symmetric]] nd_ll.lrep_delete [OF assms(1,2)]
    nd_ll.lrep_count [OF assms(1)] nd_ll.lrep_search [OF assms(1)]
  by simp

theorem ll_macros_refine_lists_witness:
  "ND_LL_COUNT ((\<lambda>_. None)(1 := Some 2)) (Some 1) 0 = Some 2 \<and>
   ND_LL_SEARCH ((\<lambda>_. None)(1 := Some 2)) (Some 1) even = Some (Some 2)"
proof -
  have h: "ll_list ((\<lambda>_. None)(1 := Some 2)) (Some 1) [1, 2]" by simp
  show ?thesis using ll_macros_refine_lists [OF h, of 2 7 even] by simp
qed

end
