(* ===== verification/Frames.thy ===== *)
theory Frames
  imports Addr
begin

text \<open>
  The packet formats of \<^verbatim>\<open>src/iface.c\<close>, as byte strings: the ICMPv6 checksum, the frames of
  outgoing solicitations and advertisements, and the checks and option parsing of incoming
  ones.  Reads of a received frame go through \<open>read_byte\<close> and \<open>read_bytes\<close>, which are \<open>None\<close>
  outside the frame, so that \<open>Some\<close> means the code stayed inside the buffer.

  Offsets: an Ethernet header is 14 bytes and an IPv6 header 40, so \<open>sizeof(ndL_ip6_msg_t)\<close> is
  54 and the payload starts there.
\<close>

subsection \<open>Byte order\<close>

definition be16 :: "u8 \<Rightarrow> u8 \<Rightarrow> u16" where
  "be16 hi lo = push_bit 8 (ucast hi) OR ucast lo"

definition be16_bytes :: "u16 \<Rightarrow> bytes" where
  "be16_bytes w = [ucast (drop_bit 8 w), ucast w]"

definition be32_bytes :: "u32 \<Rightarrow> bytes" where
  "be32_bytes w = [ucast (drop_bit 24 w), ucast (drop_bit 16 w), ucast (drop_bit 8 w), ucast w]"

definition read_be16 :: "bytes \<Rightarrow> nat \<Rightarrow> u16 option" where
  "read_be16 b i = do { hi \<leftarrow> read_byte b i; lo \<leftarrow> read_byte b (i + 1); Some (be16 hi lo) }"

definition read_addr :: "bytes \<Rightarrow> nat \<Rightarrow> nd_addr option" where
  "read_addr b i = map_option (addr_of_bytes LittleEndian) (read_bytes b i 16)"

subsection \<open>The checksum\<close>

definition fold_carry :: "u32 \<Rightarrow> u32" where
  "fold_carry acc = (if acc > 0xffff then acc - 0xffff else acc)"

fun checksum_loop :: "u32 \<Rightarrow> bytes \<Rightarrow> u32" where
  "checksum_loop acc [] = acc"
| "checksum_loop acc [p] = fold_carry (acc + ucast p)"
| "checksum_loop acc (p # q # rest) = checksum_loop (fold_carry (acc + ucast (be16 p q))) rest"

definition ndL_calculate_checksum :: "u32 \<Rightarrow> bytes \<Rightarrow> u16" where
  "ndL_calculate_checksum acc data = ucast (checksum_loop acc data)"

text \<open>
  The pseudo header (source, destination, length, next header 58), the ICMPv6 header with its
  checksum field cleared, then the rest of the message.  \<open>icmp\<close> holds the message from its
  header on.  The result is the value before \<open>htons\<close>.
\<close>

definition ndL_calculate_icmp6_checksum :: "bytes \<Rightarrow> bytes \<Rightarrow> bytes \<Rightarrow> nat \<Rightarrow> u16" where
  "ndL_calculate_icmp6_checksum src dst icmp sz =
     (let hdr = src @ dst @ be32_bytes (of_nat sz) @ [0, 0, 0, 58] @ (take 2 icmp @ [0, 0] @ take 4 (drop 4 icmp));
          sum1 = ndL_calculate_checksum 0xffff hdr;
          sum2 = ndL_calculate_checksum (ucast sum1) (take (sz - 8) (drop 8 icmp))
      in NOT sum2)"

subsection \<open>Outgoing frames\<close>

definition ND_NA_FLAG_ROUTER :: u8 where "ND_NA_FLAG_ROUTER = 0x80"
definition ND_NA_FLAG_SOLICITED :: u8 where "ND_NA_FLAG_SOLICITED = 0x40"
definition ND_NA_FLAG_OVERRIDE :: u8 where "ND_NA_FLAG_OVERRIDE = 0x20"

text \<open>What \<open>ndL_send_icmp6\<close> writes around the ICMPv6 message it is given.\<close>

definition icmp6_frame :: "nd_lladdr \<Rightarrow> nd_lladdr \<Rightarrow> nd_addr \<Rightarrow> nd_addr \<Rightarrow> bytes \<Rightarrow> bytes" where
  "icmp6_frame shost dhost src dst icmp =
     (let srcb = addr_bytes LittleEndian src; dstb = addr_bytes LittleEndian dst;
          cksum = ndL_calculate_icmp6_checksum srcb dstb icmp (length icmp)
      in lladdr_bytes dhost @ lladdr_bytes shost @ [0x86, 0xdd] @
         [0x60, 0, 0, 0] @ be16_bytes (of_nat (length icmp)) @ [58, 255] @ srcb @ dstb @
         take 2 icmp @ be16_bytes cksum @ drop 4 icmp)"

definition ndL_get_local_addr :: "nd_lladdr \<Rightarrow> nd_addr" where
  "ndL_get_local_addr l =
     addr_of_bytes LittleEndian
       [0xfe, 0x80, 0, 0, 0, 0, 0, 0, ll0 l XOR 0x02, ll1 l, ll2 l, 0xff, 0xfe, ll3 l, ll4 l, ll5 l]"

definition na_icmp :: "nd_addr \<Rightarrow> nd_lladdr \<Rightarrow> nd_addr \<Rightarrow> bool \<Rightarrow> bytes" where
  "na_icmp dst tgt_ll tgt router =
     (let flags1 = (if \<not> nd_addr_is_multicast LittleEndian dst
                    then ND_NA_FLAG_OVERRIDE OR ND_NA_FLAG_SOLICITED else ND_NA_FLAG_OVERRIDE);
          flags2 = (if router then flags1 OR ND_NA_FLAG_ROUTER else flags1)
      in [136, 0, 0, 0, flags2, 0, 0, 0] @ addr_bytes LittleEndian tgt @ [2, 1] @ lladdr_bytes tgt_ll)"

text \<open>
  \<open>nd_iface_send_na\<close> as a frame: \<open>own\<close> is the interface's link-layer address and the default for
  the advertised one.
\<close>

definition na_frame :: "nd_lladdr \<Rightarrow> nd_addr \<Rightarrow> nd_lladdr \<Rightarrow> nd_addr \<Rightarrow> nd_lladdr option \<Rightarrow> bool \<Rightarrow> bytes" where
  "na_frame own dst dst_ll tgt tgt_ll router =
     (let ll = (case tgt_ll of None \<Rightarrow> own | Some l \<Rightarrow> l)
      in icmp6_frame own dst_ll tgt dst (na_icmp dst ll tgt router))"

definition solicited_node :: "nd_addr \<Rightarrow> nd_addr" where
  "solicited_node tgt =
     addr_of_bytes LittleEndian
       [0xff, 0x02, 0, 0, 0, 0, 0, 0, 0, 0, 0, 0x01, 0xff,
        au8 LittleEndian tgt 13, au8 LittleEndian tgt 14, au8 LittleEndian tgt 15]"

definition ns_icmp :: "nd_lladdr \<Rightarrow> nd_addr \<Rightarrow> bytes" where
  "ns_icmp own tgt = [135, 0, 0, 0, 0, 0, 0, 0] @ addr_bytes LittleEndian tgt @ [1, 1] @ lladdr_bytes own"

definition ns_frame :: "nd_lladdr \<Rightarrow> nd_addr \<Rightarrow> bytes" where
  "ns_frame own tgt =
     icmp6_frame own
       (Nd_lladdr 0x33 0x33 0xff (au8 LittleEndian tgt 13) (au8 LittleEndian tgt 14) (au8 LittleEndian tgt 15))
       (ndL_get_local_addr own) (solicited_node tgt) (ns_icmp own tgt)"

subsection \<open>Incoming frames\<close>

datatype verdict =
    Drop
  | Icmp nat nat   \<comment> \<open>offset of the ICMPv6 header from the payload, and the message length\<close>

text \<open>The part of \<open>ndL_handle_msg\<close> after the extension headers.\<close>

definition check_icmp :: "bytes \<Rightarrow> nat \<Rightarrow> nat \<Rightarrow> verdict option" where
  "check_icmp f plen i =
     (if plen - i < 8 then Some Drop
      else do {
        src \<leftarrow> read_bytes f 22 16;
        dst \<leftarrow> read_bytes f 38 16;
        icmp \<leftarrow> read_bytes f (54 + i) (plen - i);
        cksum \<leftarrow> read_be16 f (54 + i + 2);
        if ndL_calculate_icmp6_checksum src dst icmp (plen - i) \<noteq> cksum then Some Drop
        else do {
          hops \<leftarrow> read_byte f 21;
          if hops \<noteq> 255 then Some Drop else Some (Icmp i (plen - i))
        }
      })"

definition check_msg :: "bytes \<Rightarrow> verdict option" where
  "check_msg f = do {
     plen16 \<leftarrow> read_be16 f 18;
     let plen = unat plen16;
     nxt \<leftarrow> read_byte f 20;
     if nxt = 0 then
       (if plen < 8 then Some Drop
        else do {
          hlen \<leftarrow> read_byte f 55;
          if plen < 8 + unat hlen * 8 then Some Drop
          else do {
            hnxt \<leftarrow> read_byte f 54;
            if hnxt \<noteq> 58 then Some Drop else check_icmp f plen (8 + 8 * unat hlen)
          }
        })
     else if nxt \<noteq> 58 then Some Drop
     else check_icmp f plen 0
   }"

text \<open>
  The option loop of \<open>ndL_handle_ns\<close>: \<open>opts\<close> are the \<open>opts_len\<close> bytes not yet looked at.
  \<open>None\<close> discards the packet (an option of length zero); otherwise the source link-layer
  address seen last, if any.
\<close>

function ns_options :: "bytes \<Rightarrow> nd_lladdr option \<Rightarrow> nd_lladdr option option" where
  "ns_options opts src_ll =
     (if 8 \<le> length opts then
        let len = unat (opts ! 1) in
        if len = 0 then None
        else if len * 8 > length opts then Some src_ll
        else ns_options (drop (len * 8) opts)
               (if opts ! 0 = 1 \<and> len = 1 then Some (lladdr_of_bytes (take 6 (drop 2 opts))) else src_ll)
      else Some src_ll)"
  by pat_completeness auto
termination
  by (relation "measure (\<lambda>(opts, _). length opts)") auto

declare ns_options.simps [simp del]

text \<open>
  What \<open>ndL_handle_ns\<close> extracts from a solicitation: \<open>Some None\<close> drops it, \<open>Some (Some \<dots>)\<close> is
  the source, the destination, the target and the link-layer address to answer to.
\<close>

definition parse_ns :: "bytes \<Rightarrow> nat \<Rightarrow> nat \<Rightarrow> (nd_addr \<times> nd_addr \<times> nd_addr \<times> nd_lladdr option) option option" where
  "parse_ns f i len =
     (if len < 24 then Some None
      else do {
        tgt \<leftarrow> read_addr f (54 + i + 8);
        if nd_addr_is_multicast LittleEndian tgt then Some None
        else do {
          src \<leftarrow> read_addr f 22;
          dst \<leftarrow> read_addr f 38;
          if nd_addr_is_unspecified src then Some (Some (src, dst, tgt, None))
          else do {
            opts \<leftarrow> read_bytes f (54 + i + 24) (len - 24);
            shost \<leftarrow> read_bytes f 6 6;
            case ns_options opts None of
              None \<Rightarrow> Some None
            | Some None \<Rightarrow> Some (Some (src, dst, tgt, Some (lladdr_of_bytes shost)))
            | Some (Some ll) \<Rightarrow> Some (Some (src, dst, tgt, Some ll))
          }
        }
      })"

text \<open>\<open>ndL_handle_na\<close>: the target, unless the message is too short.\<close>

definition parse_na :: "bytes \<Rightarrow> nat \<Rightarrow> nat \<Rightarrow> nd_addr option option" where
  "parse_na f i len = (if len < 24 then Some None else map_option Some (read_addr f (54 + i + 8)))"

text \<open>The tests of the receive loop \<open>ndL_io_handler\<close> on a frame of \<open>length f\<close> bytes.\<close>

definition accept_frame :: "bytes \<Rightarrow> bool" where
  "accept_frame f \<longleftrightarrow>
     54 \<le> length f \<and> be16 (f ! 12) (f ! 13) = 0x86dd \<and> unat (be16 (f ! 18) (f ! 19)) = length f - 54"


subsection \<open>The checksum is the one's complement sum\<close>

text \<open>
  The reference, after RFC 1071: add the 16-bit words, the last byte of an odd message padded
  with a zero byte, and fold every carry back in.
\<close>

fun word_sum :: "bytes \<Rightarrow> nat" where
  "word_sum [] = 0"
| "word_sum [p] = 256 * unat p"
| "word_sum (p # q # rest) = 256 * unat p + unat q + word_sum rest"

definition ones_complement :: "nat \<Rightarrow> nat" where
  "ones_complement n = (if n = 0 then 0 else (n - 1) mod 65535 + 1)"

lemma unat_be16: "unat (be16 p q) = 256 * unat p + unat q"
proof -
  have "push_bit 8 (ucast p) AND ucast q = (0 :: u16)"
    by (rule bit_word_eqI) (auto simp: bit_simps dest: bit_imp_le_length)
  then have "be16 p q = push_bit 8 (ucast p) + ucast q"
    unfolding be16_def by (metis disjunctive_add_eq_or)
  moreover have lt: "unat p < 256" "unat q < 256" using unsigned_less [of p] unsigned_less [of q] by auto
  moreover have "unat (push_bit 8 (ucast p) :: u16) = 256 * unat p"
    using lt by (simp only: unsigned_push_bit_eq unsigned_ucast_eq) (simp add: take_bit_eq_mod push_bit_eq_mult)
  ultimately show ?thesis
    by (subst \<open>be16 p q = _\<close>, subst unat_add_lem [THEN iffD1]) (simp_all add: unsigned_ucast_eq take_bit_eq_mod)
qed

lemma be16_less: "unat (be16 p q) < 65536"
  using unsigned_less [of "be16 p q"] by simp

lemma fold_carry_value:
  assumes "unat s \<le> 65535" "w \<le> 65535" "unat v = w"
  shows "unat (fold_carry (s + v)) = (if unat s + w > 65535 then unat s + w - 65535 else unat s + w)"
proof -
  have sum: "unat (s + v) = unat s + w" using assms by (subst unat_add_lem [THEN iffD1]) simp_all
  have gt: "s + v > 0xffff \<longleftrightarrow> unat s + w > 65535" using sum by (simp add: word_less_nat_alt)
  show ?thesis
  proof (cases "unat s + w > 65535")
    case True
    with gt sum have "(0xffff :: u32) \<le> s + v" by (simp add: word_le_nat_alt)
    with True gt sum show ?thesis by (simp add: fold_carry_def unat_sub)
  qed (use gt sum in \<open>simp add: fold_carry_def\<close>)
qed

lemma ones_complement_step:
  assumes "0 < s" "s \<le> 65535" "w \<le> 65535"
  shows "ones_complement ((if s + w > 65535 then s + w - 65535 else s + w) + n) = ones_complement (s + (w + n))"
proof (cases "s + w > 65535")
  case True
  then have "s + (w + n) - 1 = (s + w - 65535 + n - 1) + 65535" by simp
  then have "(s + (w + n) - 1) mod 65535 = (s + w - 65535 + n - 1) mod 65535"
    by (metis mod_add_self2)
  with True assms show ?thesis by (simp add: ones_complement_def)
qed (simp add: add.assoc)

lemma checksum_loop_even:
  "even (length data) \<Longrightarrow> 0 < unat acc \<Longrightarrow> unat acc \<le> 65535 \<Longrightarrow>
   unat (checksum_loop acc data) = ones_complement (unat acc + word_sum data)"
proof (induction acc data rule: checksum_loop.induct)
  case (1 acc)
  then show ?case by (simp add: ones_complement_def)
next
  case (2 acc p)
  then show ?case by simp
next
  case (3 acc p q rest)
  let ?w = "256 * unat p + unat q"
  have w: "unat (ucast (be16 p q) :: u32) = ?w"
    using be16_less [of p q] by (simp add: unsigned_ucast_eq take_bit_eq_mod unat_be16)
  have wl: "?w \<le> 65535" using be16_less [of p q] by (simp add: unat_be16)
  have fc: "unat (fold_carry (acc + ucast (be16 p q))) =
            (if unat acc + ?w > 65535 then unat acc + ?w - 65535 else unat acc + ?w)"
    by (rule fold_carry_value [OF 3(4) wl w])
  with 3 wl have "unat (checksum_loop acc (p # q # rest)) =
        ones_complement ((if unat acc + ?w > 65535 then unat acc + ?w - 65535 else unat acc + ?w) + word_sum rest)"
    by auto
  also have "\<dots> = ones_complement (unat acc + (?w + word_sum rest))"
    by (rule ones_complement_step [OF 3(3,4) wl])
  finally show ?case by simp
qed

lemma ones_complement_range: "0 < n \<Longrightarrow> 0 < ones_complement n \<and> ones_complement n \<le> 65535"
  using mod_less_divisor [of 65535 "n - 1"] by (auto simp: ones_complement_def simp del: mod_less_divisor)

lemma calculate_checksum_even:
  assumes "even (length data)" "0 < unat acc" "unat acc \<le> 65535"
  shows "unat (ndL_calculate_checksum acc data) = ones_complement (unat acc + word_sum data)"
proof -
  have "unat (checksum_loop acc data) = ones_complement (unat acc + word_sum data)"
    by (rule checksum_loop_even [OF assms])
  with ones_complement_range [of "unat acc + word_sum data"] assms show ?thesis
    by (simp add: ndL_calculate_checksum_def unsigned_ucast_eq take_bit_eq_mod)
qed

lemma word_sum_append: "even (length a) \<Longrightarrow> word_sum (a @ b) = word_sum a + word_sum b"
  by (induction a rule: word_sum.induct) auto

lemma ones_complement_add: "0 < m \<Longrightarrow> ones_complement (ones_complement m + n) = ones_complement (m + n)"
proof -
  assume m: "0 < m"
  have "(ones_complement m + n - 1) mod 65535 = ((m - 1) mod 65535 + n) mod 65535"
    using m by (simp add: ones_complement_def)
  also have "\<dots> = (m + n - 1) mod 65535" using m by (simp add: mod_simps)
  finally show ?thesis using m ones_complement_range [OF m] by (simp add: ones_complement_def)
qed

lemma ones_complement_cycle: "0 < n \<Longrightarrow> ones_complement (65535 + n) = ones_complement n"
proof -
  assume "0 < n"
  then have "65535 + n - 1 = (n - 1) + 65535" by simp
  then have "(65535 + n - 1) mod 65535 = (n - 1) mod 65535" by (simp only: mod_add_self2)
  with \<open>0 < n\<close> show ?thesis by (simp add: ones_complement_def)
qed

text \<open>The bytes the checksum is taken over, with the checksum field cleared.\<close>

definition summed :: "bytes \<Rightarrow> bytes \<Rightarrow> bytes \<Rightarrow> bytes" where
  "summed src dst icmp =
     src @ dst @ be32_bytes (of_nat (length icmp)) @ [0, 0, 0, 58] @ take 2 icmp @ [0, 0] @ drop 4 icmp"

lemma summed_pos:
  assumes "length src = 16" "length dst = 16"
  shows "0 < word_sum (summed src dst icmp)"
proof -
  have "word_sum (summed src dst icmp) = word_sum (src @ dst @ be32_bytes (of_nat (length icmp))) +
          word_sum ([0, 0, 0, 58] @ take 2 icmp @ [0, 0] @ drop 4 icmp)"
    using assms unfolding summed_def by (subst word_sum_append [symmetric]) (simp_all add: be32_bytes_def)
  then show ?thesis by simp
qed

lemma icmp6_checksum_sum:
  assumes "length src = 16" "length dst = 16" "8 \<le> length icmp" "even (length icmp)"
  shows "unat (NOT (ndL_calculate_icmp6_checksum src dst icmp (length icmp))) =
         ones_complement (word_sum (summed src dst icmp))"
proof -
  let ?hdr = "src @ dst @ be32_bytes (of_nat (length icmp)) @ [0, 0, 0, 58] @ (take 2 icmp @ [0, 0] @ take 4 (drop 4 icmp))"
  let ?rest = "drop 8 icmp"
  have ev: "even (length ?hdr)" using assms by (simp add: be32_bytes_def)
  have split: "summed src dst icmp = ?hdr @ ?rest"
    using append_take_drop_id [of 4 "drop 4 icmp"] by (simp add: summed_def)
  define s1 where "s1 = ndL_calculate_checksum 0xffff ?hdr"
  have s1: "unat s1 = ones_complement (65535 + word_sum ?hdr)"
    unfolding s1_def using calculate_checksum_even [OF ev, of "0xffff"] by simp
  then have r1: "0 < unat s1" "unat s1 \<le> 65535" using ones_complement_range by simp_all
  have u1: "unat (ucast s1 :: u32) = unat s1"
    using r1 by (simp add: unsigned_ucast_eq take_bit_eq_mod)
  have "unat (ndL_calculate_checksum (ucast s1) ?rest) = ones_complement (unat s1 + word_sum ?rest)"
    using calculate_checksum_even [of ?rest "ucast s1"] r1 u1 assms by simp
  also have "\<dots> = ones_complement (65535 + word_sum ?hdr + word_sum ?rest)"
    by (simp add: s1 ones_complement_add)
  also have "\<dots> = ones_complement (65535 + word_sum (summed src dst icmp))"
    by (simp only: split word_sum_append [OF ev] add.assoc)
  also have "\<dots> = ones_complement (word_sum (summed src dst icmp))"
    by (rule ones_complement_cycle [OF summed_pos [OF assms(1,2)]])
  finally show ?thesis
    using assms by (simp add: ndL_calculate_icmp6_checksum_def Let_def s1_def)
qed

subsection \<open>Received frames are read inside the buffer\<close>

lemma accept_frameD:
  assumes "accept_frame f"
  shows "54 \<le> length f" and "read_be16 f 18 = Some (be16 (f ! 18) (f ! 19))"
    and "unat (be16 (f ! 18) (f ! 19)) = length f - 54"
  using assms by (simp_all add: accept_frame_def read_be16_def)

lemma check_icmp_cases:
  assumes "54 + plen = length f" and "i \<le> plen"
  shows "check_icmp f plen i = Some Drop \<or>
         (check_icmp f plen i = Some (Icmp i (plen - i)) \<and> 8 \<le> plen - i \<and> f ! 21 = 255 \<and>
          ndL_calculate_icmp6_checksum (take 16 (drop 22 f)) (take 16 (drop 38 f)) (drop (54 + i) f) (plen - i) =
          be16 (f ! (54 + i + 2)) (f ! (54 + i + 3)))"
  using assms by (simp add: check_icmp_def read_be16_def)

lemma check_msg_cases:
  assumes "accept_frame f"
  shows "check_msg f = Some Drop \<or>
         (\<exists>i len. check_msg f = Some (Icmp i len) \<and> 54 + i + len = length f \<and> 8 \<le> len \<and> f ! 21 = 255 \<and>
          ndL_calculate_icmp6_checksum (take 16 (drop 22 f)) (take 16 (drop 38 f)) (drop (54 + i) f) len =
          be16 (f ! (54 + i + 2)) (f ! (54 + i + 3)))"
proof -
  define plen where "plen = length f - 54"
  have eq: "54 + plen = length f" using accept_frameD(1) [OF assms] by (simp add: plen_def)
  have icmp: "check_icmp f plen i = Some Drop \<or>
         (\<exists>j len. check_icmp f plen i = Some (Icmp j len) \<and> 54 + j + len = length f \<and> 8 \<le> len \<and> f ! 21 = 255 \<and>
          ndL_calculate_icmp6_checksum (take 16 (drop 22 f)) (take 16 (drop 38 f)) (drop (54 + j) f) len =
          be16 (f ! (54 + j + 2)) (f ! (54 + j + 3)))" if "i \<le> plen" for i
    using check_icmp_cases [OF eq that] that eq by (elim disjE) auto
  have "check_msg f = (if f ! 20 = 0
          then if plen < 8 then Some Drop
               else if plen < 8 + unat (f ! 55) * 8 then Some Drop
               else if f ! 54 \<noteq> 58 then Some Drop else check_icmp f plen (8 + 8 * unat (f ! 55))
          else if f ! 20 \<noteq> 58 then Some Drop else check_icmp f plen 0)"
    using accept_frameD [OF assms] eq by (simp add: check_msg_def Let_def plen_def)
  then show ?thesis
    using icmp [of 0] icmp [of "8 + 8 * unat (f ! 55)"] by (simp split: if_splits)
qed

lemma parse_ns_safe:
  assumes "54 + i + len = length f"
  shows "\<exists>r. parse_ns f i len = Some r"
  using assms
  by (auto simp: parse_ns_def read_addr_def split: option.splits)

lemma parse_na_safe: "54 + i + len = length f \<Longrightarrow> \<exists>r. parse_na f i len = Some r"
  by (auto simp: parse_na_def read_addr_def)

subsection \<open>Options\<close>

text \<open>A well-formed option: type, length in units of 8 bytes, and its data.\<close>

type_synonym nd_option = "u8 \<times> nat \<times> bytes"

definition option_ok :: "nd_option \<Rightarrow> bool" where
  "option_ok = (\<lambda>(t, n, d). 1 \<le> n \<and> n \<le> 255 \<and> length d + 2 = 8 * n)"

definition option_bytes :: "nd_option \<Rightarrow> bytes" where
  "option_bytes = (\<lambda>(t, n, d). t # of_nat n # d)"

definition sllao :: "nd_option \<Rightarrow> bool" where
  "sllao = (\<lambda>(t, n, d). t = 1 \<and> n = 1)"

definition last_sllao :: "nd_option list \<Rightarrow> nd_lladdr option" where
  "last_sllao os = (case filter sllao os of [] \<Rightarrow> None | _ \<Rightarrow> Some (lladdr_of_bytes (snd (snd (last (filter sllao os))))))"

lemma unat_option_len: "n \<le> 255 \<Longrightarrow> unat (of_nat n :: u8) = n"
  by (simp add: unat_of_nat)

lemma ns_options_step:
  assumes "option_ok (t, n, d)"
  shows "ns_options (option_bytes (t, n, d) @ rest) ll =
         ns_options rest (if sllao (t, n, d) then Some (lladdr_of_bytes d) else ll)"
proof -
  have n: "unat (of_nat n :: u8) = n" "1 \<le> n" "length d + 2 = 8 * n"
    using assms by (auto simp: option_ok_def unat_option_len)
  have drop: "drop (n * 8) (option_bytes (t, n, d) @ rest) = rest"
    using n by (simp add: option_bytes_def drop_append mult.commute drop_Cons')
  have "n = 1 \<Longrightarrow> take 6 d = d" using n by simp
  then show ?thesis
    using n drop by (subst ns_options.simps) (auto simp: option_bytes_def sllao_def Let_def)
qed

lemma ns_options_list:
  assumes "\<forall>opt\<in>set os. option_ok opt" and "length rest < 8"
  shows "ns_options (concat (map option_bytes os) @ rest) ll =
         Some (case last_sllao os of None \<Rightarrow> ll | Some l \<Rightarrow> Some l)"
  using assms(1)
proof (induction os arbitrary: ll)
  case Nil
  then show ?case using assms(2) by (simp add: ns_options.simps last_sllao_def)
next
  case (Cons opt os)
  obtain t n d where opt: "opt = (t, n, d)" by (cases opt)
  with Cons show ?case
    by (auto simp: ns_options_step last_sllao_def sllao_def split: list.splits)
qed

subsection \<open>What the daemon sends passes its own checks\<close>

lemma be16_of_bytes [simp]: "be16 (ucast (drop_bit 8 w)) (ucast w) = (w :: u16)"
  unfolding be16_def by (rule bit_word_eqI) (auto simp: bit_simps)

lemma length_be16_bytes [simp]: "length (be16_bytes w) = 2"
  by (simp add: be16_bytes_def)

lemma length_icmp6_frame [simp]: "4 \<le> length icmp \<Longrightarrow> length (icmp6_frame sh dh src dst icmp) = 54 + length icmp"
  by (simp add: icmp6_frame_def Let_def)

lemma checksum_ignores_field:
  assumes "8 \<le> length icmp"
  shows "ndL_calculate_icmp6_checksum src dst (take 2 icmp @ be16_bytes c @ drop 4 icmp) (length icmp) =
         ndL_calculate_icmp6_checksum src dst icmp (length icmp)"
  using assms by (simp add: ndL_calculate_icmp6_checksum_def be16_bytes_def min_def)

lemma icmp6_frame_fields:
  fixes sh dh src dst
  assumes "8 \<le> length icmp"
  defines "f \<equiv> icmp6_frame sh dh src dst icmp"
  shows "f ! 12 = 0x86" "f ! 13 = 0xdd" "f ! 20 = 58" "f ! 21 = 255"
    "be16 (f ! 18) (f ! 19) = of_nat (length icmp)"
    "take 6 (drop 6 f) = lladdr_bytes sh"
    "take 16 (drop 22 f) = addr_bytes LittleEndian src"
    "take 16 (drop 38 f) = addr_bytes LittleEndian dst"
    "drop 54 f = take 2 icmp @ be16_bytes (ndL_calculate_icmp6_checksum (addr_bytes LittleEndian src)
        (addr_bytes LittleEndian dst) icmp (length icmp)) @ drop 4 icmp"
  using assms(1) unfolding f_def icmp6_frame_def
  by (simp_all add: Let_def nth_append nth_Cons' be16_bytes_def)

lemma icmp6_frame_accepted:
  assumes "8 \<le> length icmp" "length icmp < 65536"
  shows "accept_frame (icmp6_frame sh dh src dst icmp)"
proof -
  have "be16 0x86 0xdd = 0x86dd" by (simp add: be16_def push_bit_eq_mult)
  then show ?thesis
    using assms icmp6_frame_fields [OF assms(1), of sh dh src dst]
    by (simp add: accept_frame_def unat_of_nat)
qed

lemma nth_drop_read: "n + k < length f \<Longrightarrow> f ! (n + k) = drop n f ! k"
  by simp

lemma icmp6_frame_checked:
  assumes "8 \<le> length icmp" "length icmp < 65536"
  shows "check_msg (icmp6_frame sh dh src dst icmp) = Some (Icmp 0 (length icmp))"
proof -
  let ?f = "icmp6_frame sh dh src dst icmp"
  let ?c = "ndL_calculate_icmp6_checksum (addr_bytes LittleEndian src) (addr_bytes LittleEndian dst) icmp (length icmp)"
  note fields = icmp6_frame_fields [OF assms(1), of sh dh src dst]
  have len: "length ?f = 54 + length icmp" using assms by simp
  have "?f ! 56 = drop 54 ?f ! 2" "?f ! 57 = drop 54 ?f ! 3"
    using len assms nth_drop_read [of 54 2 ?f] nth_drop_read [of 54 3 ?f] by simp_all
  then have ck: "be16 (?f ! 56) (?f ! 57) = ?c"
    using assms by (simp only: fields(9)) (simp add: nth_append be16_bytes_def min_def)
  have "check_icmp ?f (length icmp) 0 = Some (Icmp 0 (length icmp))"
    using assms len ck fields checksum_ignores_field [OF assms(1)]
    by (simp add: check_icmp_def read_be16_def)
  then show ?thesis
    using accept_frameD [OF icmp6_frame_accepted [OF assms, of sh dh src dst]] fields len
    by (simp add: check_msg_def)
qed

lemma ns_icmp_length [simp]: "length (ns_icmp own tgt) = 32"
  by (simp add: ns_icmp_def)

lemma na_icmp_length [simp]: "length (na_icmp dst ll tgt r) = 32"
  by (simp add: na_icmp_def Let_def)

lemma local_addr_specified: "\<not> nd_addr_is_unspecified (ndL_get_local_addr l)"
proof -
  have "bit (au32 (ndL_get_local_addr l) 0) 7"
    by (simp add: ndL_get_local_addr_def addr_of_bytes_def word_of_bytes_def byte_shift_def bit_simps)
  then have "au32 (ndL_get_local_addr l) 0 \<noteq> 0" by auto
  then show ?thesis by (auto simp: nd_addr_is_unspecified_def au32_def)
qed

lemma ns_frame_parsed:
  assumes "\<not> nd_addr_is_multicast LittleEndian tgt"
  shows "parse_ns (ns_frame own tgt) 0 32 =
         Some (Some (ndL_get_local_addr own, solicited_node tgt, tgt, Some own))"
proof -
  let ?dh = "Nd_lladdr 0x33 0x33 0xff (au8 LittleEndian tgt 13) (au8 LittleEndian tgt 14) (au8 LittleEndian tgt 15)"
  note fields = icmp6_frame_fields [of "ns_icmp own tgt" own ?dh "ndL_get_local_addr own" "solicited_node tgt",
      folded ns_frame_def, simplified]
  have len: "length (ns_frame own tgt) = 86" by (simp add: ns_frame_def)
  have body: "drop (54 + k) (ns_frame own tgt) = drop (k - 4) (drop 4 (ns_icmp own tgt))" if "4 \<le> k" for k
  proof -
    have "drop (54 + k) (ns_frame own tgt) = drop k (drop 54 (ns_frame own tgt))" by (simp add: add.commute)
    with that show ?thesis by (simp only: fields(9)) simp
  qed
  have tgt: "take 16 (drop 62 (ns_frame own tgt)) = addr_bytes LittleEndian tgt"
    using body [of 8] by (simp add: ns_icmp_def)
  have "drop 78 (ns_frame own tgt) = option_bytes (1, 1, lladdr_bytes own) @ []"
    using body [of 24] by (simp add: ns_icmp_def option_bytes_def)
  moreover have "option_ok (1, 1, lladdr_bytes own)" by (simp add: option_ok_def)
  ultimately have opts: "ns_options (drop 78 (ns_frame own tgt)) None = Some (Some own)"
    by (simp only: ns_options_step) (simp add: sllao_def ns_options.simps)
  show ?thesis
    using fields tgt opts assms len local_addr_specified [of own]
    by (simp add: parse_ns_def read_addr_def)
qed

lemma na_frame_parsed: "parse_na (na_frame own dst dst_ll tgt tgt_ll router) 0 32 = Some (Some tgt)"
proof -
  let ?ll = "case tgt_ll of None \<Rightarrow> own | Some l \<Rightarrow> l"
  let ?f = "icmp6_frame own dst_ll tgt dst (na_icmp dst ?ll tgt router)"
  note fields = icmp6_frame_fields [of "na_icmp dst ?ll tgt router" own dst_ll tgt dst, simplified]
  have "drop 62 ?f = drop 4 (drop 4 (na_icmp dst ?ll tgt router))"
    using arg_cong [OF fields(9), of "drop 8"] by simp
  then have "take 16 (drop 62 ?f) = addr_bytes LittleEndian tgt"
    by (simp add: na_icmp_def Let_def)
  then show ?thesis by (simp add: na_frame_def Let_def parse_na_def read_addr_def)
qed

lemma icmp6_frame_type:
  assumes "8 \<le> length icmp"
  shows "icmp6_frame sh dh src dst icmp ! 54 = icmp ! 0"
proof -
  have "icmp6_frame sh dh src dst icmp ! 54 = drop 54 (icmp6_frame sh dh src dst icmp) ! 0"
    using assms by simp
  also have "\<dots> = icmp ! 0"
    unfolding icmp6_frame_fields(9) [OF assms] using assms by (simp add: nth_append)
  finally show ?thesis .
qed

lemma frame_types [simp]: "ns_frame own tgt ! 54 = 135" "na_frame own dst dst_ll tgt tgt_ll router ! 54 = 136"
  by (simp_all add: ns_frame_def na_frame_def Let_def icmp6_frame_type) (simp_all add: ns_icmp_def na_icmp_def Let_def)

lemma checksum_loop_snoc:
  "even (length data) \<Longrightarrow> checksum_loop acc (data @ [p]) = fold_carry (checksum_loop acc data + ucast p)"
  by (induction acc data rule: checksum_loop.induct) simp_all

lemma word_sum_snoc: "even (length data) \<Longrightarrow> word_sum (data @ [p]) = word_sum data + 256 * unat p"
  by (simp add: word_sum_append)

lemma calculate_checksum_odd:
  assumes "even (length data)" "0 < unat acc" "unat acc \<le> 65535"
  shows "unat (ndL_calculate_checksum acc (data @ [p])) = ones_complement (unat acc + word_sum data + unat p)"
proof -
  let ?s = "checksum_loop acc data"
  have s: "unat ?s = ones_complement (unat acc + word_sum data)" by (rule checksum_loop_even [OF assms])
  then have r: "0 < unat ?s" "unat ?s \<le> 65535" using ones_complement_range assms(2) by simp_all
  have p: "unat (ucast p :: u32) = unat p" "unat p \<le> 65535"
    using unsigned_less [of p, where ?'a = nat] by (simp_all add: unsigned_ucast_eq take_bit_eq_mod)
  have v: "unat (fold_carry (?s + ucast p)) = (if unat ?s + unat p > 65535 then unat ?s + unat p - 65535 else unat ?s + unat p)"
    by (rule fold_carry_value [OF r(2) p(2,1)])
  also have "\<dots> = ones_complement (unat ?s + unat p)"
    using ones_complement_step [OF r p(2), where n = 0] r p(2) by (auto simp: ones_complement_def split: if_splits)
  also have "\<dots> = ones_complement (unat acc + word_sum data + unat p)"
    using ones_complement_add [of "unat acc + word_sum data" "unat p"] assms(2) by (simp add: s)
  finally have c: "unat (fold_carry (?s + ucast p)) = ones_complement (unat acc + word_sum data + unat p)" .
  moreover have "ones_complement (unat acc + word_sum data + unat p) < 65536"
    using ones_complement_range [of "unat acc + word_sum data + unat p"] assms(2) by simp
  ultimately show ?thesis
    by (simp add: ndL_calculate_checksum_def checksum_loop_snoc [OF assms(1)] unsigned_ucast_eq take_bit_eq_mod)
qed

subsection \<open>Properties\<close>

text \<open>
  C32: on messages of even length the ICMPv6 checksum of the code is the Internet checksum of RFC 1071 and RFC 4443:
  the complement of the one's-complement sum of the 16-bit big-endian words of the pseudo header (addresses, length, next
  header) followed by the message with its checksum field taken as zero.  The running sum, kept in 32 bits with
  a carry folded after every addition, never overflows.
\<close>

theorem icmp6_checksum_is_internet_checksum:
  assumes "length src = 16" "length dst = 16" "8 \<le> length icmp" "even (length icmp)"
  shows "unat (NOT (ndL_calculate_icmp6_checksum src dst icmp (length icmp))) =
         ones_complement (word_sum (summed src dst icmp))"
  by (rule icmp6_checksum_sum [OF assms])

theorem icmp6_checksum_is_internet_checksum_witness:
  "unat (NOT (ndL_calculate_icmp6_checksum (replicate 16 1) (replicate 16 2) [135, 0, 9, 9, 0, 0, 0, 0] 8)) =
   ones_complement (word_sum (summed (replicate 16 1) (replicate 16 2) [135, 0, 9, 9, 0, 0, 0, 0]))"
proof -
  have eight: "length [135, 0, 9, 9, 0, 0, 0, 0 :: u8] = 8" by simp
  show ?thesis
    using icmp6_checksum_is_internet_checksum [of "replicate 16 1" "replicate 16 2" "[135, 0, 9, 9, 0, 0, 0, 0]"]
    unfolding eight by simp
qed

text \<open>
  On data of odd length the code departs from RFC 1071.  The last byte is added as the low half of
  a 16-bit word, where the standard pads it on the right, so that it is the high half.
\<close>

theorem checksum_odd_tail:
  assumes "even (length data)" "0 < unat acc" "unat acc \<le> 65535"
  shows "unat (ndL_calculate_checksum acc (data @ [p])) = ones_complement (unat acc + word_sum data + unat p) \<and>
         ones_complement (unat acc + word_sum (data @ [p])) = ones_complement (unat acc + word_sum data + 256 * unat p)"
  by (simp add: calculate_checksum_odd [OF assms] word_sum_snoc [OF assms(1)] add.assoc)

theorem checksum_odd_tail_witness:
  "unat (ndL_calculate_checksum 0xffff [0, 1, 2]) = 3 \<and> ones_complement (0xffff + word_sum [0, 1, 2]) = 513"
  using checksum_odd_tail [of "[0, 1]" "0xffff" 2] by (simp add: ones_complement_def)



text \<open>
  C31: the daemon's frames are what its receiver expects.  A solicitation built by \<open>nd_iface_send_ns\<close> passes the
  receive checks, checksum included, and is read back with the sender's link-local address, the solicited-node group,
  the target and the sender's link-layer address from the option; an advertisement built by \<open>nd_iface_send_na\<close>
  passes them as well and is read back with its target.
\<close>

theorem frames_roundtrip:
  assumes "\<not> nd_addr_is_multicast LittleEndian tgt"
  shows "accept_frame (ns_frame own tgt) \<and> check_msg (ns_frame own tgt) = Some (Icmp 0 32) \<and>
     parse_ns (ns_frame own tgt) 0 32 = Some (Some (ndL_get_local_addr own, solicited_node tgt, tgt, Some own)) \<and>
     accept_frame (na_frame own dst dst_ll tgt tgt_ll router) \<and>
     check_msg (na_frame own dst dst_ll tgt tgt_ll router) = Some (Icmp 0 32) \<and>
     parse_na (na_frame own dst dst_ll tgt tgt_ll router) 0 32 = Some (Some tgt)"
  using ns_frame_parsed [OF assms] na_frame_parsed
  by (simp add: ns_frame_def na_frame_def Let_def icmp6_frame_accepted icmp6_frame_checked)

theorem frames_roundtrip_witness:
  "parse_ns (ns_frame (Nd_lladdr 2 0 0 0 0 1) (Nd_addr 0xb80d0120 0 0 0x01000000)) 0 32 =
   Some (Some (ndL_get_local_addr (Nd_lladdr 2 0 0 0 0 1), solicited_node (Nd_addr 0xb80d0120 0 0 0x01000000),
               Nd_addr 0xb80d0120 0 0 0x01000000, Some (Nd_lladdr 2 0 0 0 0 1)))"
proof -
  have h: "\<not> nd_addr_is_multicast LittleEndian (Nd_addr 0xb80d0120 0 0 0x01000000)" by code_simp
  show ?thesis using frames_roundtrip [OF h, of "Nd_lladdr 2 0 0 0 0 1"] by simp
qed

text \<open>
  The option loop of a solicitation finds the source link-layer address.  For every sequence of well-formed options,
  with fewer than 8 trailing bytes, it ends with the address of the last source link-layer option of length one,
  and with the address it started from when there is none; options of other types are skipped by
  their length.
\<close>

theorem ns_options_last_sllao:
  assumes "\<forall>opt\<in>set os. option_ok opt" "length rest < 8"
  shows "ns_options (concat (map option_bytes os) @ rest) ll = Some (case last_sllao os of None \<Rightarrow> ll | Some l \<Rightarrow> Some l)"
  by (rule ns_options_list [OF assms])

theorem ns_options_last_sllao_witness:
  "ns_options ([5, 1, 0, 0, 0, 0, 5, 220] @ [1, 1, 2, 0, 0, 0, 0, 7]) None = Some (Some (Nd_lladdr 2 0 0 0 0 7))"
proof -
  have h: "\<forall>opt\<in>set [(5, 1, [0, 0, 0, 0, 5, 220]), (1, 1, [2, 0, 0, 0, 0, 7])]. option_ok opt"
    by (simp add: option_ok_def)
  show ?thesis
    using ns_options_last_sllao [OF h, of "[]" None]
    by (simp add: option_bytes_def last_sllao_def sllao_def lladdr_of_bytes_def)
qed

end
