(* ===== verification/Bpf_Filter.thy ===== *)
theory Bpf_Filter
  imports Frames
begin

text \<open>
  The socket filter of \<^verbatim>\<open>src/iface.c\<close> (\<open>ndL_configure_filter\<close>): a program for the classic BPF
  machine, written here instruction by instruction, and the semantics of the instructions it
  uses (a load outside the packet drops the packet; jumps only go forward, so a run is a
  recursion on the rest of the program).  The lemmas show which packets the program keeps, and
  that it keeps every packet the receive path would act on.
\<close>

subsection \<open>The machine\<close>

datatype insn =
    LD_H_ABS nat        \<comment> \<open>\<open>A := P[k:2]\<close>\<close>
  | LD_B_ABS nat        \<comment> \<open>\<open>A := P[k:1]\<close>\<close>
  | LD_B_IND nat        \<comment> \<open>\<open>A := P[X+k:1]\<close>\<close>
  | LD_MEM nat          \<comment> \<open>\<open>A := M[k]\<close>\<close>
  | LDX_W_IMM u32       \<comment> \<open>\<open>X := k\<close>\<close>
  | ST nat              \<comment> \<open>\<open>M[k] := A\<close>\<close>
  | ALU_MUL_K u32
  | ALU_ADD_K u32
  | ALU_ADD_X
  | TAX                 \<comment> \<open>\<open>X := A\<close>\<close>
  | JEQ_K u32 nat nat   \<comment> \<open>skip the first or the second number of instructions\<close>
  | RET_K u32

function bpf_run :: "insn list \<Rightarrow> bytes \<Rightarrow> u32 \<Rightarrow> u32 \<Rightarrow> u32 list \<Rightarrow> u32" where
  "bpf_run [] P A X M = 0"
| "bpf_run (LD_H_ABS k # is) P A X M =
     (if k + 1 < length P then bpf_run is P (ucast (be16 (P ! k) (P ! (k + 1)))) X M else 0)"
| "bpf_run (LD_B_ABS k # is) P A X M = (if k < length P then bpf_run is P (ucast (P ! k)) X M else 0)"
| "bpf_run (LD_B_IND k # is) P A X M =
     (if unat X + k < length P then bpf_run is P (ucast (P ! (unat X + k))) X M else 0)"
| "bpf_run (LD_MEM k # is) P A X M = bpf_run is P (M ! k) X M"
| "bpf_run (LDX_W_IMM k # is) P A X M = bpf_run is P A k M"
| "bpf_run (ST k # is) P A X M = bpf_run is P A X (M[k := A])"
| "bpf_run (ALU_MUL_K k # is) P A X M = bpf_run is P (A * k) X M"
| "bpf_run (ALU_ADD_K k # is) P A X M = bpf_run is P (A + k) X M"
| "bpf_run (ALU_ADD_X # is) P A X M = bpf_run is P (A + X) X M"
| "bpf_run (TAX # is) P A X M = bpf_run is P A A M"
| "bpf_run (JEQ_K k jt jf # is) P A X M = bpf_run (drop (if A = k then jt else jf) is) P A X M"
| "bpf_run (RET_K k # is) P A X M = k"
  by pat_completeness auto
termination
  by (relation "measure (\<lambda>(is, _). length is)") auto

text \<open>What the kernel demands of a program before it attaches it.\<close>

fun bpf_valid :: "insn list \<Rightarrow> bool" where
  "bpf_valid [] = False"
| "bpf_valid [i] = (case i of RET_K _ \<Rightarrow> True | _ \<Rightarrow> False)"
| "bpf_valid (i # is) =
     ((case i of JEQ_K _ jt jf \<Rightarrow> jt < length is \<and> jf < length is
       | LD_MEM k \<Rightarrow> k < 16 | ST k \<Rightarrow> k < 16 | _ \<Rightarrow> True) \<and> bpf_valid is)"

subsection \<open>The program\<close>

definition ndL_filter :: "insn list" where
  "ndL_filter =
    [LD_H_ABS 12,
     JEQ_K 0x86dd 0 17,
     LDX_W_IMM 54,
     LD_B_ABS 20,
     JEQ_K 0 0 8,
     LD_B_IND 0,
     ST 0,
     LD_B_IND 1,
     ALU_MUL_K 8,
     ALU_ADD_K 8,
     ALU_ADD_X,
     TAX,
     LD_MEM 0,
     JEQ_K 58 0 5,
     LD_B_IND 0,
     JEQ_K 135 4 0,
     JEQ_K 136 3 0,
     JEQ_K 130 2 0,
     JEQ_K 131 1 0,
     RET_K 0,
     RET_K 0xffffffff]"

definition filter_verdict :: "bytes \<Rightarrow> u32" where
  "filter_verdict P = bpf_run ndL_filter P 0 0 (replicate 16 0)"

subsection \<open>What it keeps\<close>

definition nd_types :: "u8 set" where
  "nd_types = {135, 136, 130, 131}"

definition keeps :: "bytes \<Rightarrow> bool" where
  "keeps P \<longleftrightarrow>
     20 < length P \<and> be16 (P ! 12) (P ! 13) = 0x86dd \<and>
     (P ! 20 = 58 \<and> 54 < length P \<and> P ! 54 \<in> nd_types \<or>
      P ! 20 = 0 \<and> 55 < length P \<and> P ! 54 = 58 \<and>
        62 + 8 * unat (P ! 55) < length P \<and> P ! (62 + 8 * unat (P ! 55)) \<in> nd_types)"

lemma unat8_less: "unat (b :: u8) < 256"
  using unsigned_less [of b] by simp

lemma unat16_less: "unat (b :: u16) < 65536"
  using unsigned_less [of b] by simp

lemma unat_ucast8 [simp]: "unat (ucast (b :: u8) :: u32) = unat b"
  using unat8_less [of b] by (simp add: unsigned_ucast_eq take_bit_eq_mod)

lemma unat_ucast16 [simp]: "unat (ucast (b :: u16) :: u32) = unat b"
  using unat16_less [of b] by (simp add: unsigned_ucast_eq take_bit_eq_mod)

lemma ucast8_eq: "unat k < 256 \<Longrightarrow> ucast (b :: u8) = (k :: u32) \<longleftrightarrow> b = ucast k"
  by (auto simp: word_unat_eq_iff unsigned_ucast_eq take_bit_eq_mod)

lemma ucast16_eq: "unat k < 65536 \<Longrightarrow> ucast (b :: u16) = (k :: u32) \<longleftrightarrow> b = ucast k"
  by (auto simp: word_unat_eq_iff unsigned_ucast_eq take_bit_eq_mod)

lemmas ucast_eqs = ucast8_eq ucast16_eq

lemma hbh_offset: "unat (62 + ucast (b :: u8) * 8 :: u32) = 62 + 8 * unat b"
  using unat8_less [of b] by (simp add: unat_word_ariths)

lemma filter_verdict_keeps: "filter_verdict P = (if keeps P then 0xffffffff else 0)"
  unfolding filter_verdict_def ndL_filter_def
  by (auto simp: keeps_def nd_types_def ucast_eqs hbh_offset)

lemma filter_valid: "bpf_valid ndL_filter"
  by (simp add: ndL_filter_def)

lemma keeps_received:
  assumes "accept_frame f" "check_msg f = Some (Icmp i len)" "f ! (54 + i) \<in> nd_types"
  shows "keeps f"
proof -
  have len: "54 \<le> length f" and ty: "be16 (f ! 12) (f ! 13) = 0x86dd"
    using assms(1) by (simp_all add: accept_frame_def)
  have end_len: "54 + i + len = length f" "8 \<le> len"
    using check_msg_cases [OF assms(1)] assms(2) by auto
  have "f ! 20 = 58 \<and> i = 0 \<or> f ! 20 = 0 \<and> f ! 54 = 58 \<and> i = 8 + 8 * unat (f ! 55)"
    using assms(2) accept_frameD [OF assms(1)] len
    by (auto simp: check_msg_def check_icmp_def read_byte_def Let_def bind_eq_Some_conv split: if_splits)
  then show ?thesis using len ty end_len assms(3) by (auto simp: keeps_def)
qed

subsection \<open>Properties\<close>

text \<open>
  C33: the socket filter is a valid program and keeps exactly the frames it is meant to keep: IPv6 frames whose
  ICMPv6 message, directly or behind one hop-by-hop header, is a neighbour solicitation or advertisement or a
  multicast listener query or report.  All other frames are dropped, also those too short to be read.
\<close>

theorem filter_exact:
  "bpf_valid ndL_filter \<and> filter_verdict P = (if keeps P then 0xffffffff else 0)"
  by (simp add: filter_valid filter_verdict_keeps)

text \<open>
  The filter loses nothing the daemon would act on: every frame that passes the receive checks and carries
  one of the four message types is kept whole by the filter.
\<close>

theorem filter_keeps_received:
  assumes "accept_frame f" "check_msg f = Some (Icmp i len)" "f ! (54 + i) \<in> nd_types"
  shows "filter_verdict f = 0xffffffff"
  by (simp add: filter_verdict_keeps keeps_received [OF assms])

theorem filter_keeps_received_witness:
  "filter_verdict (ns_frame (Nd_lladdr 2 0 0 0 0 1) (Nd_addr 0xb80d0120 0 0 0x01000000)) = 0xffffffff"
proof -
  let ?f = "ns_frame (Nd_lladdr 2 0 0 0 0 1) (Nd_addr 0xb80d0120 0 0 0x01000000)"
  have a: "accept_frame ?f" by (simp add: ns_frame_def icmp6_frame_accepted)
  have c: "check_msg ?f = Some (Icmp 0 32)" by (simp add: ns_frame_def icmp6_frame_checked)
  have t: "?f ! (54 + 0) \<in> nd_types" by (simp add: nd_types_def)
  show ?thesis using filter_keeps_received [OF a c t] .
qed

end
