(* ===== verification/Daemon_Env.thy ===== *)
theory Daemon_Env
  imports Addr
begin

text \<open>
  The environment every component of the running daemon shares: the clock \<open>nd_current_time\<close>
  (milliseconds, set once per turn of the main loop), the actions the daemon takes on the
  outside world in the order it takes them, and what the kernel answers.

  The daemon's state is one record, built up by record extension in the order the
  components call each other: \<open>nd_env\<close> here, then \<open>rt_state\<close> (\<^verbatim>\<open>rt.c\<close>), \<open>iface_state\<close>
  (\<^verbatim>\<open>iface.c\<close>) and \<open>session_state\<close> (\<^verbatim>\<open>session.c\<close>, \<^verbatim>\<open>proxy.c\<close>).  An operation on a prefix of
  the record is polymorphic in the rest, so it applies to the whole daemon and leaves the rest
  alone by its type.
\<close>

text \<open>The supported targets (amd64, arm64) are little-endian.\<close>

definition host :: byte_order where "host = LittleEndian"

datatype mr_type = PACKET_MR_PROMISC | PACKET_MR_ALLMULTI

text \<open>The fields \<open>nd_rt_add_route\<close> and \<open>nd_rt_remove_route\<close> set in a netlink request.\<close>

record nl_route_req =
  nlmsg_type :: nat
  nlmsg_flags :: nat
  rtm_protocol :: nat
  rtm_family :: nat
  rtm_dst_len :: nat
  rtm_table :: nat
  rtm_scope :: nat
  rta_oif :: "nat option"
  rta_dst :: nd_addr

datatype effect =
    Packet nat bytes               \<comment> \<open>a frame sent on the packet socket, by interface index\<close>
  | RouteReq nl_route_req          \<comment> \<open>a route change sent on the netlink socket\<close>
  | DumpReq nat                    \<comment> \<open>a dump request (its \<open>nlmsg_type\<close>) on the netlink socket\<close>
  | AddMembership nat mr_type
  | DropMembership nat mr_type
  | ClosePacketSocket              \<comment> \<open>\<open>nd_io_close\<close> on the packet socket\<close>

record nd_env =
  nd_current_time :: int
  out :: "effect list"

definition emit :: "effect \<Rightarrow> 'a nd_env_scheme \<Rightarrow> 'a nd_env_scheme" where
  "emit e s = s\<lparr>out := out s @ [e]\<rparr>"

lemma emit_frame [frame_simps, simp]:
  "nd_current_time (emit e s) = nd_current_time s" "nd_env.more (emit e s) = nd_env.more s"
  "out (emit e s) = out s @ [e]"
  by (simp_all add: emit_def)

text \<open>
  What the kernel answers during one operation: the interface name and index tables (the
  error is the \<open>errno\<close> of the call), hardware addresses, interface flags, and whether a change
  of packet membership succeeds.
\<close>

datatype errno = ENODEV | EOTHER

record kernel =
  if_nametoindex :: "string \<Rightarrow> errno + nat"
  if_indextoname :: "nat \<Rightarrow> string option"
  siocgifhwaddr :: "string \<Rightarrow> nd_lladdr option"
  siocgifflags_up :: "string \<Rightarrow> bool option"
  add_membership :: "nat \<Rightarrow> mr_type \<Rightarrow> bool"

end
