(* ===== verification/Route_Table.thy ===== *)
theory Route_Table
  imports Daemon_Env
begin

text \<open>
  The routing and address tables of \<^verbatim>\<open>src/rt.c\<close>: insertion that keeps the list of routes ordered
  by falling prefix length, deletion, lookup, the requests the daemon sends to the
  kernel, and the tables of local addresses.  \<open>routes_ok\<close> is the invariant (order, and one
  route per destination, length and table); with it a lookup is a longest-prefix match, by the
  locale \<open>prefix_matching\<close>.  \<open>route_map\<close> is the abstract table the list implements.
\<close>

record nd_rt_route =
  rt_dst :: nd_addr
  rt_oif :: nat
  rt_pflen :: nat
  rt_table :: nat
  rt_owned :: bool

record nd_rt_addr =
  rta_iif :: nat
  rta_addr :: nd_addr
  rta_pflen :: nat

record rt_state = nd_env +
  ndL_routes :: "nd_rt_route list"
  ndL_addrs :: "nd_rt_addr list"
  nd_rt_dump_timeout :: int

subsection \<open>Routes\<close>

definition same_route_key :: "nd_rt_route \<Rightarrow> nd_rt_route \<Rightarrow> bool" where
  "same_route_key r q \<longleftrightarrow> nd_addr_eq (rt_dst r) (rt_dst q) \<and> rt_pflen r = rt_pflen q \<and> rt_table r = rt_table q"

fun insert_route :: "nd_rt_route \<Rightarrow> nd_rt_route list \<Rightarrow> nd_rt_route list" where
  "insert_route r [] = [r]"
| "insert_route r (c # cs) = (if rt_pflen r \<ge> rt_pflen c then r # c # cs else c # insert_route r cs)"

definition ndL_new_route :: "nd_rt_route \<Rightarrow> 'a rt_state_scheme \<Rightarrow> 'a rt_state_scheme" where
  "ndL_new_route route s =
     (if list_ex (\<lambda>r. same_route_key r route) (ndL_routes s) then s
      else s\<lparr>ndL_routes := insert_route route (ndL_routes s)\<rparr>)"

fun remove_route :: "nd_rt_route \<Rightarrow> nd_rt_route list \<Rightarrow> nd_rt_route list" where
  "remove_route r [] = []"
| "remove_route r (c # cs) =
     (if nd_addr_eq (rt_dst c) (rt_dst r) \<and> rt_oif c = rt_oif r \<and> rt_pflen c = rt_pflen r \<and> rt_table c = rt_table r
      then cs else c # remove_route r cs)"

definition ndL_delete_route :: "nd_rt_route \<Rightarrow> 'a rt_state_scheme \<Rightarrow> 'a rt_state_scheme" where
  "ndL_delete_route route s = s\<lparr>ndL_routes := remove_route route (ndL_routes s)\<rparr>"

definition nd_rt_find_route :: "nd_addr \<Rightarrow> nat \<Rightarrow> 'a rt_state_scheme \<Rightarrow> nd_rt_route option" where
  "nd_rt_find_route addr table s =
     find (\<lambda>r. nd_addr_match host (rt_dst r) addr (rt_pflen r) \<and> rt_table r = table) (ndL_routes s)"

subsection \<open>Addresses\<close>

definition nd_rt_is_local_addr :: "nat \<Rightarrow> nd_addr \<Rightarrow> 'a rt_state_scheme \<Rightarrow> bool" where
  "nd_rt_is_local_addr index addr s =
     list_ex (\<lambda>a. rta_iif a = index \<and> nd_addr_eq (rta_addr a) addr) (ndL_addrs s)"

definition ndL_new_addr :: "nat \<Rightarrow> nd_addr \<Rightarrow> nat \<Rightarrow> 'a rt_state_scheme \<Rightarrow> 'a rt_state_scheme" where
  "ndL_new_addr index addr pflen s =
     (if list_ex (\<lambda>a. rta_iif a = index \<and> nd_addr_eq (rta_addr a) addr \<and> rta_pflen a = pflen) (ndL_addrs s) then s
      else s\<lparr>ndL_addrs := \<lparr>rta_iif = index, rta_addr = addr, rta_pflen = pflen\<rparr> # ndL_addrs s\<rparr>)"

fun remove_addr :: "nat \<Rightarrow> nd_addr \<Rightarrow> nat \<Rightarrow> nd_rt_addr list \<Rightarrow> nd_rt_addr list" where
  "remove_addr index addr pflen [] = []"
| "remove_addr index addr pflen (a # as) =
     (if rta_iif a = index \<and> nd_addr_eq (rta_addr a) addr \<and> rta_pflen a = pflen
      then as else a # remove_addr index addr pflen as)"

definition ndL_delete_addr :: "nat \<Rightarrow> nd_addr \<Rightarrow> nat \<Rightarrow> 'a rt_state_scheme \<Rightarrow> 'a rt_state_scheme" where
  "ndL_delete_addr index addr pflen s = s\<lparr>ndL_addrs := remove_addr index addr pflen (ndL_addrs s)\<rparr>"

subsection \<open>Requests to the kernel\<close>

definition RTPROT_NDPPD :: nat where "RTPROT_NDPPD = 72"

text \<open>The fields of \<open>struct rtmsg\<close> are bytes, so the length and the table are cut to 8 bits.\<close>

definition nd_rt_add_route :: "nd_addr \<Rightarrow> nat \<Rightarrow> nat \<Rightarrow> nat \<Rightarrow> 'a rt_state_scheme \<Rightarrow> 'a rt_state_scheme" where
  "nd_rt_add_route dst pflen oif table s =
     emit (RouteReq \<lparr>nlmsg_type = 24, nlmsg_flags = 0x401, rtm_protocol = RTPROT_NDPPD, rtm_family = 10,
                     rtm_dst_len = pflen mod 256, rtm_table = table mod 256, rtm_scope = 0,
                     rta_oif = Some oif, rta_dst = dst\<rparr>) s"

definition nd_rt_remove_route :: "nd_addr \<Rightarrow> nat \<Rightarrow> nat \<Rightarrow> 'a rt_state_scheme \<Rightarrow> 'a rt_state_scheme" where
  "nd_rt_remove_route dst pflen table s =
     emit (RouteReq \<lparr>nlmsg_type = 25, nlmsg_flags = 1, rtm_protocol = RTPROT_NDPPD, rtm_family = 10,
                     rtm_dst_len = pflen mod 256, rtm_table = table mod 256, rtm_scope = 0,
                     rta_oif = None, rta_dst = dst\<rparr>) s"

definition nd_rt_remove_owned_routes :: "'a rt_state_scheme \<Rightarrow> 'a rt_state_scheme" where
  "nd_rt_remove_owned_routes s =
     fold (\<lambda>r s. if rt_owned r then nd_rt_remove_route (rt_dst r) (rt_pflen r) (rt_table r) s else s)
       (ndL_routes s) s"

definition nd_rt_query_routes :: "'a rt_state_scheme \<Rightarrow> bool \<times> 'a rt_state_scheme" where
  "nd_rt_query_routes s =
     (if nd_rt_dump_timeout s \<noteq> 0 then (False, s)
      else (True, emit (DumpReq 26) (s\<lparr>nd_rt_dump_timeout := nd_current_time s + 5000\<rparr>)))"

definition nd_rt_query_addresses :: "'a rt_state_scheme \<Rightarrow> bool \<times> 'a rt_state_scheme" where
  "nd_rt_query_addresses s =
     (if nd_rt_dump_timeout s \<noteq> 0 then (False, s)
      else (True, emit (DumpReq 22) (s\<lparr>nd_rt_dump_timeout := nd_current_time s + 5000\<rparr>)))"

subsection \<open>The invariant\<close>

definition longer :: "nd_rt_route \<Rightarrow> nd_rt_route \<Rightarrow> bool" where
  "longer r q \<longleftrightarrow> rt_pflen r \<ge> rt_pflen q"

definition routes_ok :: "nd_rt_route list \<Rightarrow> bool" where
  "routes_ok rs \<longleftrightarrow> sorted_wrt longer rs \<and> sorted_wrt (\<lambda>r q. \<not> same_route_key r q) rs"

lemma same_route_key_refl [simp]: "same_route_key r r"
  by (simp add: same_route_key_def)

lemma same_route_key_sym: "same_route_key r q = same_route_key q r"
  by (auto simp: same_route_key_def)

lemma set_insert_route [simp]: "set (insert_route r rs) = insert r (set rs)"
  by (induction rs) auto

lemma sorted_insert_route: "sorted_wrt longer rs \<Longrightarrow> sorted_wrt longer (insert_route r rs)"
  by (induction rs) (auto simp: longer_def)

lemma unique_insert_route:
  "sorted_wrt (\<lambda>r q. \<not> same_route_key r q) rs \<Longrightarrow> \<forall>q\<in>set rs. \<not> same_route_key q r \<Longrightarrow>
   sorted_wrt (\<lambda>r q. \<not> same_route_key r q) (insert_route r rs)"
  by (induction rs) (auto simp: same_route_key_sym)

lemma set_remove_route: "set (remove_route r rs) \<subseteq> set rs"
  by (induction rs) auto

lemma routes_ok_new: "routes_ok (ndL_routes s) \<Longrightarrow> routes_ok (ndL_routes (ndL_new_route r s))"
  by (auto simp: ndL_new_route_def routes_ok_def list_ex_iff
           intro: sorted_insert_route unique_insert_route)

lemma sorted_wrt_remove_route: "sorted_wrt P rs \<Longrightarrow> sorted_wrt P (remove_route r rs)"
  using set_remove_route by (induction rs) fastforce+

lemma routes_ok_delete: "routes_ok (ndL_routes s) \<Longrightarrow> routes_ok (ndL_routes (ndL_delete_route r s))"
  by (simp add: ndL_delete_route_def routes_ok_def sorted_wrt_remove_route)

lemma remove_route_mem:
  "routes_ok rs \<Longrightarrow>
   q \<in> set (remove_route r rs) \<longleftrightarrow> q \<in> set rs \<and> \<not> (same_route_key q r \<and> rt_oif q = rt_oif r)"
  by (induction rs) (auto simp: routes_ok_def same_route_key_def)

subsection \<open>Lookup\<close>

lemma find_route_SomeD:
  "nd_rt_find_route a t s = Some r \<Longrightarrow>
   r \<in> set (ndL_routes s) \<and> nd_addr_match host (rt_dst r) a (rt_pflen r) \<and> rt_table r = t"
  by (auto simp: nd_rt_find_route_def dest: find_SomeD)

lemma find_route_longest:
  assumes "routes_ok (ndL_routes s)" and "nd_rt_find_route a t s = Some r"
    and "r' \<in> set (ndL_routes s)" "rt_table r' = t" "nd_addr_match host (rt_dst r') a (rt_pflen r')"
  shows "rt_pflen r' \<le> rt_pflen r"
proof -
  have "sorted_wrt (\<lambda>x y. rt_pflen x \<ge> rt_pflen y) (ndL_routes s)"
    using assms(1) by (simp add: routes_ok_def longer_def [abs_def])
  from nd_match.first_is_longest [OF this, where ok = "\<lambda>r. rt_table r = t" and dst = rt_dst]
    assms(2-) show ?thesis by (simp add: nd_rt_find_route_def)
qed

lemma find_route_None:
  "nd_rt_find_route a t s = None \<longleftrightarrow>
   (\<forall>r\<in>set (ndL_routes s). rt_table r = t \<longrightarrow> \<not> nd_addr_match host (rt_dst r) a (rt_pflen r))"
  by (auto simp: nd_rt_find_route_def find_None_iff)

subsection \<open>The abstract table\<close>

text \<open>
  A route table as a partial map from destination, length and table to the outgoing interface
  and the owner flag: what the list stands for.
\<close>

type_synonym route_key = "nd_addr \<times> nat \<times> nat"

definition route_key_of :: "nd_rt_route \<Rightarrow> route_key" where
  "route_key_of r = (rt_dst r, rt_pflen r, rt_table r)"

definition route_map :: "'a rt_state_scheme \<Rightarrow> route_key \<rightharpoonup> nd_rt_route" where
  "route_map s = map_of (map (\<lambda>r. (route_key_of r, r)) (ndL_routes s))"

lemma route_key_of_eq: "route_key_of r = route_key_of q \<longleftrightarrow> same_route_key r q"
  by (auto simp: route_key_of_def same_route_key_def)

lemma map_of_routes:
  "sorted_wrt (\<lambda>r q. \<not> same_route_key r q) rs \<Longrightarrow>
   map_of (map (\<lambda>r. (route_key_of r, r)) rs) k = Some r \<longleftrightarrow> r \<in> set rs \<and> route_key_of r = k"
proof (induction rs)
  case (Cons a rs)
  then show ?case using same_route_key_sym by (auto simp: route_key_of_eq split: if_splits)
qed simp

lemma route_map_Some:
  "routes_ok (ndL_routes s) \<Longrightarrow> route_map s k = Some r \<longleftrightarrow> r \<in> set (ndL_routes s) \<and> route_key_of r = k"
  by (simp add: route_map_def routes_ok_def map_of_routes)

lemma route_map_new:
  assumes "routes_ok (ndL_routes s)"
  shows "route_map (ndL_new_route r s) =
         (if route_map s (route_key_of r) = None then (route_map s)(route_key_of r \<mapsto> r) else route_map s)"
proof -
  have none: "route_map s (route_key_of r) = None \<longleftrightarrow> \<not> list_ex (\<lambda>q. same_route_key q r) (ndL_routes s)"
    using route_map_Some [OF assms, of "route_key_of r"]
    by (metis list_ex_iff not_None_eq route_key_of_eq)
  show ?thesis
  proof (cases "route_map s (route_key_of r) = None")
    case True
    have ok: "routes_ok (ndL_routes (ndL_new_route r s))" by (rule routes_ok_new [OF assms])
    have "route_map (ndL_new_route r s) k = ((route_map s)(route_key_of r \<mapsto> r)) k" for k
    proof (cases "route_map (ndL_new_route r s) k")
      case None
      then show ?thesis
        using route_map_Some [OF ok, of k] route_map_Some [OF assms, of k] True none
        by (auto simp: ndL_new_route_def) (metis not_None_eq)
    next
      case (Some q)
      then show ?thesis
        using route_map_Some [OF ok, of k q] route_map_Some [OF assms, of k q] True none
        by (auto simp: ndL_new_route_def list_ex_iff route_key_of_eq)
    qed
    then show ?thesis using True by auto
  next
    case False
    with none show ?thesis by (auto simp: ndL_new_route_def)
  qed
qed

lemma route_map_delete:
  assumes "routes_ok (ndL_routes s)"
  shows "route_map (ndL_delete_route r s) k =
         (case route_map s k of
            None \<Rightarrow> None
          | Some q \<Rightarrow> if k = route_key_of r \<and> rt_oif q = rt_oif r then None else Some q)"
proof -
  have ok: "routes_ok (ndL_routes (ndL_delete_route r s))" by (rule routes_ok_delete [OF assms])
  have mem: "q \<in> set (ndL_routes (ndL_delete_route r s)) \<longleftrightarrow>
             q \<in> set (ndL_routes s) \<and> \<not> (same_route_key q r \<and> rt_oif q = rt_oif r)" for q
    using remove_route_mem [OF assms] by (simp add: ndL_delete_route_def)
  show ?thesis
  proof (cases "route_map (ndL_delete_route r s) k")
    case None
    then show ?thesis
      using route_map_Some [OF ok, of k] route_map_Some [OF assms, of k] mem
      by (fastforce simp: route_key_of_eq split: option.splits)
  next
    case (Some q)
    then have "route_map s k = Some q" and "\<not> (k = route_key_of r \<and> rt_oif q = rt_oif r)"
      using route_map_Some [OF ok, of k q] route_map_Some [OF assms, of k q] mem
      by (auto simp: route_key_of_eq)
    with Some show ?thesis by simp
  qed
qed

subsection \<open>Addresses\<close>

lemma is_local_addr_new:
  "nd_rt_is_local_addr i a (ndL_new_addr j b n s) \<longleftrightarrow> nd_rt_is_local_addr i a s \<or> (i = j \<and> a = b)"
  by (auto simp: nd_rt_is_local_addr_def ndL_new_addr_def list_ex_iff)

subsection \<open>Properties\<close>

text \<open>
  C29: \<open>nd_rt_find_route\<close> is longest-prefix routing.  On any table built by the daemon's own insertions and deletions
  (\<open>routes_ok\<close>), the route it returns matches the address in the table asked for, and no matching route of
  that table is more specific; it returns nothing only when no route of the table matches.
\<close>

theorem find_route_longest_prefix:
  assumes "routes_ok (ndL_routes s)"
  shows "case nd_rt_find_route a t s of
           None \<Rightarrow> \<forall>r\<in>set (ndL_routes s). rt_table r = t \<longrightarrow> \<not> nd_addr_match host (rt_dst r) a (rt_pflen r)
         | Some r \<Rightarrow> r \<in> set (ndL_routes s) \<and> rt_table r = t \<and> nd_addr_match host (rt_dst r) a (rt_pflen r) \<and>
             (\<forall>r'\<in>set (ndL_routes s). rt_table r' = t \<longrightarrow> nd_addr_match host (rt_dst r') a (rt_pflen r') \<longrightarrow>
                rt_pflen r' \<le> rt_pflen r)"
  using find_route_SomeD [of a t s] find_route_longest [OF assms] find_route_None [of a t s]
  by (cases "nd_rt_find_route a t s") auto

definition sample_routes :: "nd_rt_route list" where
  "sample_routes =
    [\<lparr>rt_dst = Nd_addr 0xb80d0120 0 0 0, rt_oif = 3, rt_pflen = 64, rt_table = 254, rt_owned = False\<rparr>,
     \<lparr>rt_dst = Nd_addr 0xb80d0120 0 0 0, rt_oif = 2, rt_pflen = 32, rt_table = 254, rt_owned = False\<rparr>]"

definition sample_rt :: rt_state where
  "sample_rt = \<lparr>nd_current_time = 0, out = [], ndL_routes = sample_routes, ndL_addrs = [], nd_rt_dump_timeout = 0\<rparr>"

theorem find_route_longest_prefix_witness:
  "nd_rt_find_route (Nd_addr 0xb80d0120 0 0 0x01000000) 254 sample_rt = Some (hd sample_routes) \<and>
   nd_addr_match host (rt_dst (sample_routes ! 1)) (Nd_addr 0xb80d0120 0 0 0x01000000) (rt_pflen (sample_routes ! 1)) \<and>
   rt_pflen (sample_routes ! 1) \<le> rt_pflen (hd sample_routes)"
proof -
  let ?a = "Nd_addr 0xb80d0120 0 0 0x01000000"
  have h: "routes_ok (ndL_routes sample_rt)"
    by (simp add: routes_ok_def sample_rt_def sample_routes_def longer_def same_route_key_def)
  have f: "nd_rt_find_route ?a 254 sample_rt = Some (hd sample_routes)" by code_simp
  have m: "nd_addr_match host (rt_dst (sample_routes ! 1)) ?a (rt_pflen (sample_routes ! 1))" by code_simp
  have "sample_routes ! 1 \<in> set (ndL_routes sample_rt)" "rt_table (sample_routes ! 1) = 254"
    by (simp_all add: sample_rt_def sample_routes_def)
  then show ?thesis
    using find_route_longest_prefix [OF h, where a = ?a and t = 254] f m by simp
qed

text \<open>
  C30: the sorted route list implements a finite map from (destination, prefix length, table) to routes, and stays
  sorted and duplicate-free: \<open>ndL_new_route\<close> adds the route when its key is free and otherwise keeps the
  old one, and \<open>ndL_delete_route\<close> removes the entry of the key if its outgoing interface is the one given.
\<close>

theorem route_table_refines_map:
  assumes "routes_ok (ndL_routes s)"
  shows "routes_ok (ndL_routes (ndL_new_route r s)) \<and> routes_ok (ndL_routes (ndL_delete_route r s)) \<and>
     route_map (ndL_new_route r s) =
       (if route_map s (route_key_of r) = None then (route_map s)(route_key_of r \<mapsto> r) else route_map s) \<and>
     route_map (ndL_delete_route r s) =
       (if map_option rt_oif (route_map s (route_key_of r)) = Some (rt_oif r)
        then (route_map s)(route_key_of r := None) else route_map s)"
  using routes_ok_new [OF assms] routes_ok_delete [OF assms] route_map_new [OF assms, of r]
    route_map_delete [OF assms, of r]
  by (auto simp: fun_eq_iff split: option.splits)

theorem route_table_refines_map_witness:
  "route_map (ndL_delete_route (hd sample_routes) sample_rt) =
   (route_map sample_rt)(route_key_of (hd sample_routes) := None)"
proof -
  have h: "routes_ok (ndL_routes sample_rt)"
    by (simp add: routes_ok_def sample_rt_def sample_routes_def longer_def same_route_key_def)
  have "map_option rt_oif (route_map sample_rt (route_key_of (hd sample_routes))) = Some (rt_oif (hd sample_routes))"
    by code_simp
  then show ?thesis using route_table_refines_map [OF h, of "hd sample_routes"] by simp
qed

text \<open>
  A lost route.  The kernel keeps two routes for one prefix through different interfaces; \<open>ndL_new_route\<close>
  drops the second one, since its key ignores the interface, while \<open>ndL_delete_route\<close> compares the interface.  So after
  the first route is deleted again the table has no route for the key, although the kernel still has the second.
\<close>

theorem second_route_lost:
  assumes "routes_ok (ndL_routes s)" "route_map s (route_key_of r1) = None"
    and "route_key_of r2 = route_key_of r1" "rt_oif r2 \<noteq> rt_oif r1"
  shows "route_map (ndL_delete_route r1 (ndL_new_route r2 (ndL_new_route r1 s))) (route_key_of r2) = None"
  using assms by (simp add: route_map_delete route_map_new routes_ok_new)

theorem second_route_lost_witness:
  "route_map
     (ndL_delete_route \<lparr>rt_dst = Nd_addr 1 0 0 0, rt_oif = 2, rt_pflen = 32, rt_table = 254, rt_owned = False\<rparr>
       (ndL_new_route \<lparr>rt_dst = Nd_addr 1 0 0 0, rt_oif = 3, rt_pflen = 32, rt_table = 254, rt_owned = False\<rparr>
         (ndL_new_route \<lparr>rt_dst = Nd_addr 1 0 0 0, rt_oif = 2, rt_pflen = 32, rt_table = 254, rt_owned = False\<rparr>
           sample_rt))) (Nd_addr 1 0 0 0, 32, 254) = None"
proof -
  let ?r = "\<lambda>n. \<lparr>rt_dst = Nd_addr 1 0 0 0, rt_oif = n, rt_pflen = 32, rt_table = 254, rt_owned = False\<rparr>"
  have h: "routes_ok (ndL_routes sample_rt)"
    by (simp add: routes_ok_def sample_rt_def sample_routes_def longer_def same_route_key_def)
  show ?thesis
    using second_route_lost [OF h, of "?r 2" "?r 3"]
    by (simp add: route_map_def route_key_of_def sample_rt_def sample_routes_def)
qed

end
