(* ===== verification/Iface.thy ===== *)
theory Iface
  imports Route_Table Frames
begin

text \<open>
  The interfaces of \<^verbatim>\<open>src/iface.c\<close>: opening by name or by index with sharing and reference
  counts, the waiting state of an interface that does not exist yet, closing, cleaning up, and
  sending.  \<open>h_iface\<close> is the heap of \<open>nd_iface_t\<close> objects and \<open>ndL_first_iface\<close> the list of
  their addresses.  \<open>iface_inv\<close> is the invariant of the component: the list holds exactly the
  live objects, once each, and the reference count of each is the number of references that the
  rest of the program holds (\<open>refs\<close>, which the clients instantiate).
\<close>

definition IF_NAMESIZE :: nat where "IF_NAMESIZE = 16"

record nd_iface =
  if_refcount :: int
  if_name :: string
  if_lladdr :: nd_lladdr
  if_index :: nat
  if_up :: bool
  if_admin_up :: bool
  if_proxy :: "ptr option"
  if_promiscuous :: bool

record iface_state = rt_state +
  h_iface :: "ptr \<rightharpoonup> nd_iface"
  ndL_first_iface :: "ptr list"
  ndL_io :: bool
  nd_iface_no_restore_flags :: bool
  heap_next :: ptr

definition zero_lladdr :: nd_lladdr where
  "zero_lladdr = Nd_lladdr 0 0 0 0 0 0"

subsection \<open>Opening and closing\<close>

definition iface_ref :: "ptr \<Rightarrow> 'a iface_state_scheme \<Rightarrow> 'a iface_state_scheme option" where
  "iface_ref p s = do {
     i \<leftarrow> h_iface s p;
     Some (s\<lparr>h_iface := (h_iface s)(p \<mapsto> i\<lparr>if_refcount := if_refcount i + 1\<rparr>)\<rparr>)
   }"

definition iface_new :: "nd_iface \<Rightarrow> 'a iface_state_scheme \<Rightarrow> (ptr option \<times> 'a iface_state_scheme) option" where
  "iface_new i s = do {
     require (length (if_name i) < IF_NAMESIZE);
     let p = heap_next s;
     Some (Some p, s\<lparr>h_iface := (h_iface s)(p \<mapsto> i), ndL_first_iface := p # ndL_first_iface s,
                     heap_next := Suc p\<rparr>)
   }"

definition mr_type_of :: "bool \<Rightarrow> mr_type" where
  "mr_type_of promiscuous = (if promiscuous then PACKET_MR_PROMISC else PACKET_MR_ALLMULTI)"

text \<open>The branch for a configured interface that does not exist yet.\<close>

definition open_waiting :: "string \<Rightarrow> bool \<Rightarrow> 'a iface_state_scheme \<Rightarrow> (ptr option \<times> 'a iface_state_scheme) option" where
  "open_waiting name promiscuous s = do {
     w \<leftarrow> heap_find (h_iface s) (\<lambda>w. if_name w = name) (ndL_first_iface s);
     case w of
       Some p \<Rightarrow> do { s' \<leftarrow> iface_ref p s; Some (Some p, s') }
     | None \<Rightarrow> iface_new \<lparr>if_refcount = 1, if_name = name, if_lladdr = zero_lladdr, if_index = 0, if_up = False,
                          if_admin_up = False, if_proxy = None, if_promiscuous = promiscuous\<rparr> s
   }"

text \<open>The rest of the function, once name and index are known.\<close>

definition open_resolved ::
  "kernel \<Rightarrow> string \<Rightarrow> nat \<Rightarrow> bool \<Rightarrow> 'a iface_state_scheme \<Rightarrow> (ptr option \<times> 'a iface_state_scheme) option" where
  "open_resolved k name index promiscuous s = do {
     found \<leftarrow> heap_find (h_iface s) (\<lambda>i. if_index i = index \<and> if_up i) (ndL_first_iface s);
     case found of
       Some p \<Rightarrow> do { s' \<leftarrow> iface_ref p s; Some (Some p, s') }
     | None \<Rightarrow> do {
         waiting \<leftarrow> heap_find (h_iface s) (\<lambda>i. \<not> if_up i \<and> if_name i = name) (ndL_first_iface s);
         case waiting of
           Some p \<Rightarrow> do { s' \<leftarrow> iface_ref p s; Some (Some p, s') }
         | None \<Rightarrow> do {
             require (length name < IF_NAMESIZE);
             case siocgifhwaddr k name of
               None \<Rightarrow> Some (None, s)
             | Some lladdr \<Rightarrow>
                 let mr = mr_type_of promiscuous; s1 = emit (AddMembership index mr) s in
                 if \<not> add_membership k index mr then Some (None, s1)
                 else iface_new \<lparr>if_refcount = 1, if_name = name, if_lladdr = lladdr, if_index = index, if_up = True,
                                 if_admin_up = False, if_proxy = None, if_promiscuous = promiscuous\<rparr> s1
           }
       }
   }"

definition nd_iface_open ::
  "kernel \<Rightarrow> string option \<Rightarrow> nat \<Rightarrow> bool \<Rightarrow> 'a iface_state_scheme \<Rightarrow>
   (ptr option \<times> 'a iface_state_scheme) option" where
  "nd_iface_open k name index promiscuous s =
     (case name of
        None \<Rightarrow>
          if index = 0 then Some (None, s)
          else (case if_indextoname k index of
                  None \<Rightarrow> Some (None, s)
                | Some nm \<Rightarrow> open_resolved k nm index promiscuous s)
      | Some nm \<Rightarrow>
          (case if_nametoindex k nm of
             Inl e \<Rightarrow> if e = ENODEV \<and> index = 0 then open_waiting nm promiscuous s else Some (None, s)
           | Inr resolved \<Rightarrow>
               if index \<noteq> 0 \<and> index \<noteq> resolved then Some (None, s)
               else open_resolved k nm resolved promiscuous s))"

definition nd_iface_close :: "ptr \<Rightarrow> 'a iface_state_scheme \<Rightarrow> 'a iface_state_scheme option" where
  "nd_iface_close p s = do {
     i \<leftarrow> h_iface s p;
     let rc = if_refcount i - 1;
     let s1 = s\<lparr>h_iface := (h_iface s)(p \<mapsto> i\<lparr>if_refcount := rc\<rparr>)\<rparr>;
     if rc > 0 then Some s1
     else do {
       let s2 = (if if_up i \<and> \<not> nd_iface_no_restore_flags s
                 then emit (DropMembership (if_index i) (mr_type_of (if_promiscuous i))) s1 else s1);
       Some (s2\<lparr>ndL_first_iface := remove1 p (ndL_first_iface s2), h_iface := (h_iface s2)(p := None)\<rparr>)
     }
   }"

definition cleanup_one :: "ptr \<Rightarrow> 'a iface_state_scheme \<Rightarrow> 'a iface_state_scheme option" where
  "cleanup_one p s = do {
     i \<leftarrow> h_iface s p;
     nd_iface_close p (s\<lparr>h_iface := (h_iface s)(p \<mapsto> i\<lparr>if_refcount := 1\<rparr>)\<rparr>)
   }"

definition nd_iface_cleanup :: "'a iface_state_scheme \<Rightarrow> 'a iface_state_scheme option" where
  "nd_iface_cleanup s = do {
     s' \<leftarrow> foldM cleanup_one (ndL_first_iface s) s;
     Some (if ndL_io s' then emit ClosePacketSocket s' else s')
   }"

subsection \<open>Sending\<close>

definition ndL_send_icmp6 :: "nd_iface \<Rightarrow> bytes \<Rightarrow> 'a iface_state_scheme \<Rightarrow> 'a iface_state_scheme" where
  "ndL_send_icmp6 i frame s = (if \<not> if_up i then s else emit (Packet (if_index i) frame) s)"

definition nd_iface_send_na ::
  "ptr option \<Rightarrow> nd_addr \<Rightarrow> nd_lladdr \<Rightarrow> nd_addr \<Rightarrow> nd_lladdr option \<Rightarrow> bool \<Rightarrow>
   'a iface_state_scheme \<Rightarrow> 'a iface_state_scheme option" where
  "nd_iface_send_na iface dst dst_ll tgt tgt_ll router s = do {
     p \<leftarrow> iface;
     i \<leftarrow> h_iface s p;
     Some (ndL_send_icmp6 i (na_frame (if_lladdr i) dst dst_ll tgt tgt_ll router) s)
   }"

definition nd_iface_send_ns :: "ptr option \<Rightarrow> nd_addr \<Rightarrow> 'a iface_state_scheme \<Rightarrow> 'a iface_state_scheme option" where
  "nd_iface_send_ns iface tgt s = do {
     p \<leftarrow> iface;
     i \<leftarrow> h_iface s p;
     Some (ndL_send_icmp6 i (ns_frame (if_lladdr i) tgt) s)
   }"

subsection \<open>The invariant\<close>

definition iface_entry_ok :: "(ptr \<Rightarrow> nat) \<Rightarrow> ptr \<Rightarrow> nd_iface option \<Rightarrow> bool" where
  "iface_entry_ok refs p oi =
     (case oi of
        None \<Rightarrow> refs p = 0
      | Some i \<Rightarrow> 0 < refs p \<and> if_refcount i = int (refs p) \<and> length (if_name i) < IF_NAMESIZE)"

definition iface_inv :: "(ptr \<Rightarrow> nat) \<Rightarrow> 'a iface_state_scheme \<Rightarrow> bool" where
  "iface_inv refs s \<longleftrightarrow>
     distinct (ndL_first_iface s) \<and> set (ndL_first_iface s) = dom (h_iface s) \<and>
     (\<forall>p\<in>dom (h_iface s). p < heap_next s) \<and> (\<forall>p. iface_entry_ok refs p (h_iface s p))"

text \<open>What opening and closing leave alone: everything but the interfaces and the trace.\<close>

definition iface_step :: "'a iface_state_scheme \<Rightarrow> 'a iface_state_scheme \<Rightarrow> bool" where
  "iface_step s s' \<longleftrightarrow>
     s' = s\<lparr>h_iface := h_iface s', ndL_first_iface := ndL_first_iface s', heap_next := heap_next s', out := out s'\<rparr> \<and>
     heap_next s \<le> heap_next s' \<and>
     (\<forall>q i'. h_iface s' q = Some i' \<longrightarrow>
        (case h_iface s q of Some i \<Rightarrow> i' = i\<lparr>if_refcount := if_refcount i'\<rparr> | None \<Rightarrow> if_proxy i' = None))"

definition kernel_ok :: "kernel \<Rightarrow> bool" where
  "kernel_ok k \<longleftrightarrow> (\<forall>i nm. if_indextoname k i = Some nm \<longrightarrow> length nm < IF_NAMESIZE)"

lemma iface_invD:
  assumes "iface_inv refs s"
  shows "distinct (ndL_first_iface s)" "set (ndL_first_iface s) = dom (h_iface s)"
    "finite (dom (h_iface s))" "\<And>p. iface_entry_ok refs p (h_iface s p)"
    "\<And>p i. h_iface s p = Some i \<Longrightarrow> p < heap_next s"
    "\<And>p i. h_iface s p = Some i \<Longrightarrow> 0 < refs p \<and> if_refcount i = int (refs p) \<and> length (if_name i) < IF_NAMESIZE"
    "h_iface s (heap_next s) = None"
proof -
  show set: "set (ndL_first_iface s) = dom (h_iface s)" using assms by (simp add: iface_inv_def)
  then show "finite (dom (h_iface s))" using finite_set [of "ndL_first_iface s"] by simp
  show ok: "iface_entry_ok refs p (h_iface s p)" for p using assms by (simp add: iface_inv_def)
  show lt: "p < heap_next s" if "h_iface s p = Some i" for p i using assms that by (auto simp: iface_inv_def)
  show "0 < refs p \<and> if_refcount i = int (refs p) \<and> length (if_name i) < IF_NAMESIZE"
    if "h_iface s p = Some i" for p i using ok [of p] that by (simp add: iface_entry_ok_def)
  show "h_iface s (heap_next s) = None" using lt by (cases "h_iface s (heap_next s)") auto
qed (use assms in \<open>simp add: iface_inv_def\<close>)

lemma iface_inv_live: "iface_inv refs s \<Longrightarrow> 0 < refs p \<Longrightarrow> \<exists>i. h_iface s p = Some i"
  using iface_invD(4) [of refs s p] by (cases "h_iface s p") (auto simp: iface_entry_ok_def)

lemma iface_inv_out [simp]: "iface_inv refs (s\<lparr>out := t\<rparr>) = iface_inv refs s"
  by (simp add: iface_inv_def)

lemma iface_inv_emit [simp]: "iface_inv refs (emit e s) = iface_inv refs s"
  by (simp add: emit_def)

lemma iface_step_refl [simp]: "iface_step s s"
  by (auto simp: iface_step_def split: option.splits)

lemma iface_step_emit [simp]: "iface_step s (emit e s)"
  by (auto simp: iface_step_def emit_def split: option.splits)

lemma heap_find_ifaces:
  "iface_inv refs s \<Longrightarrow> \<exists>r. heap_find (h_iface s) P (ndL_first_iface s) = Some r"
  by (rule heap_find_total) (simp add: iface_invD(2))

lemma iface_ref_inv:
  assumes "iface_inv refs s" and "h_iface s p = Some i"
  shows "\<exists>s'. iface_ref p s = Some s' \<and> iface_inv (refs(p := refs p + 1)) s' \<and> iface_step s s'"
proof -
  let ?s = "s\<lparr>h_iface := (h_iface s)(p \<mapsto> i\<lparr>if_refcount := if_refcount i + 1\<rparr>)\<rparr>"
  have "iface_entry_ok (refs(p := refs p + 1)) q (h_iface ?s q)" for q
    using iface_invD(4) [OF assms(1), of q] assms(2) by (cases "q = p") (simp_all add: iface_entry_ok_def cong: option.case_cong)
  moreover have "dom (h_iface ?s) = dom (h_iface s)" using assms(2) by auto
  ultimately have "iface_inv (refs(p := refs p + 1)) ?s"
    using assms(1) by (simp add: iface_inv_def)
  moreover have "iface_step s ?s" using assms(2) by (auto simp: iface_step_def split: option.splits if_splits)
  moreover have "iface_ref p s = Some ?s" using assms(2) by (simp add: iface_ref_def)
  ultimately show ?thesis by blast
qed

lemma iface_new_inv:
  assumes "iface_inv refs s" "length (if_name i) < IF_NAMESIZE" "if_refcount i = 1" "if_proxy i = None"
  shows "\<exists>p s'. iface_new i s = Some (Some p, s') \<and> iface_inv (refs(p := refs p + 1)) s' \<and> iface_step s s'"
proof -
  let ?p = "heap_next s"
  let ?s = "s\<lparr>h_iface := (h_iface s)(?p \<mapsto> i), ndL_first_iface := ?p # ndL_first_iface s, heap_next := Suc ?p\<rparr>"
  have fresh: "h_iface s ?p = None" by (rule iface_invD(7) [OF assms(1)])
  then have refs: "refs ?p = 0" using iface_invD(4) [OF assms(1), of ?p] by (simp add: iface_entry_ok_def)
  have "iface_entry_ok (refs(?p := refs ?p + 1)) q (h_iface ?s q)" for q
    using iface_invD(4) [OF assms(1), of q] refs assms by (cases "q = ?p") (simp_all add: iface_entry_ok_def cong: option.case_cong)
  moreover have "?p \<notin> set (ndL_first_iface s)" using iface_invD(2) [OF assms(1)] fresh by auto
  moreover have "\<forall>q\<in>dom (h_iface ?s). q < heap_next ?s"
    using iface_invD(5) [OF assms(1)] by (fastforce split: if_splits)
  ultimately have "iface_inv (refs(?p := refs ?p + 1)) ?s"
    using assms(1) by (simp add: iface_inv_def)
  moreover have "iface_step s ?s"
    using fresh assms(4) by (auto simp: iface_step_def split: option.splits if_splits)
  moreover have "iface_new i s = Some (Some ?p, ?s)" using assms(2) by (simp add: iface_new_def Let_def)
  ultimately show ?thesis by blast
qed

text \<open>The contract of opening: safe, and a successful call is one more reference.\<close>

definition open_ok ::
  "(ptr \<Rightarrow> nat) \<Rightarrow> 'a iface_state_scheme \<Rightarrow> (ptr option \<times> 'a iface_state_scheme) option \<Rightarrow> bool" where
  "open_ok refs s res \<longleftrightarrow>
     (\<exists>r s'. res = Some (r, s') \<and> iface_step s s' \<and>
        iface_inv (case r of None \<Rightarrow> refs | Some p \<Rightarrow> refs(p := refs p + 1)) s')"

lemma open_ok_fail [simp]: "iface_inv refs s \<Longrightarrow> open_ok refs s (Some (None, s))"
  by (simp add: open_ok_def)

lemma open_ok_share:
  assumes "iface_inv refs s" and "heap_find (h_iface s) P (ndL_first_iface s) = Some (Some p)"
  shows "open_ok refs s (do { s' \<leftarrow> iface_ref p s; Some (Some p, s') })"
proof -
  obtain i where "h_iface s p = Some i" using heap_find_SomeD [OF assms(2)] by auto
  from iface_ref_inv [OF assms(1) this] show ?thesis by (auto simp: open_ok_def)
qed

lemma open_ok_new:
  assumes "iface_inv refs s" "length (if_name i) < IF_NAMESIZE" "if_refcount i = 1" "if_proxy i = None"
  shows "open_ok refs s (iface_new i s)"
  using iface_new_inv [OF assms] by (auto simp: open_ok_def)

lemma iface_step_trans_emit: "iface_step (emit e s) s' \<Longrightarrow> iface_step s s'"
  by (simp add: iface_step_def emit_def)

lemma open_ok_emit: "open_ok refs (emit e s) res \<Longrightarrow> open_ok refs s res"
  by (auto simp: open_ok_def dest: iface_step_trans_emit)

lemma open_waiting_ok:
  assumes "iface_inv refs s" "length nm < IF_NAMESIZE"
  shows "open_ok refs s (open_waiting nm pr s)"
proof -
  obtain w where w: "heap_find (h_iface s) (\<lambda>w. if_name w = nm) (ndL_first_iface s) = Some w"
    using heap_find_ifaces [OF assms(1)] by blast
  show ?thesis
    using w assms open_ok_share [OF assms(1)]
    by (cases w) (auto simp: open_waiting_def intro!: open_ok_new)
qed

lemma open_resolved_ok:
  assumes "iface_inv refs s" "length nm < IF_NAMESIZE"
  shows "open_ok refs s (open_resolved k nm index pr s)"
proof -
  obtain u where u: "heap_find (h_iface s) (\<lambda>i. if_index i = index \<and> if_up i) (ndL_first_iface s) = Some u"
    using heap_find_ifaces [OF assms(1)] by blast
  obtain w where w: "heap_find (h_iface s) (\<lambda>i. \<not> if_up i \<and> if_name i = nm) (ndL_first_iface s) = Some w"
    using heap_find_ifaces [OF assms(1)] by blast
  have fail: "open_ok refs s (Some (None, emit e s))" for e
    using assms by (auto simp: open_ok_def)
  have new: "open_ok refs s (iface_new i (emit e s))"
    if "if_name i = nm" "if_refcount i = 1" "if_proxy i = None" for i e
    by (rule open_ok_emit [of _ e], rule open_ok_new) (use assms that in simp_all)
  show ?thesis
    unfolding open_resolved_def u w
    using assms u w open_ok_share [OF assms(1)] fail new
    by (cases u; cases w) (simp_all add: Let_def split: option.splits)
qed

lemma nd_iface_open_ok:
  assumes "iface_inv refs s" "kernel_ok k" "\<And>nm. name = Some nm \<Longrightarrow> length nm < IF_NAMESIZE"
  shows "open_ok refs s (nd_iface_open k name index pr s)"
proof (cases name)
  case None
  then show ?thesis
    using assms(1,2) by (auto simp: nd_iface_open_def kernel_ok_def intro!: open_resolved_ok split: option.splits)
next
  case (Some nm)
  then show ?thesis
    using assms(1) assms(3) [OF Some]
    by (auto simp: nd_iface_open_def intro!: open_resolved_ok open_waiting_ok split: sum.splits)
qed

lemma nd_iface_openE:
  assumes "iface_inv refs s" "kernel_ok k" "\<And>nm. name = Some nm \<Longrightarrow> length nm < IF_NAMESIZE"
  obtains r s' where "nd_iface_open k name index pr s = Some (r, s')" "iface_step s s'"
    "iface_inv (case r of None \<Rightarrow> refs | Some p \<Rightarrow> refs(p := refs p + 1)) s'"
  using nd_iface_open_ok [OF assms(1,2), of name index pr] assms(3) unfolding open_ok_def by auto

lemma remove1_dom: "distinct l \<Longrightarrow> set l = dom h \<Longrightarrow> set (remove1 p l) = dom (h(p := None))"
  by auto

lemma nd_iface_close_last:
  assumes "iface_inv refs s" "refs p = 1" "h_iface s p = Some i"
    and "t = out s \<or> t = out s @ [DropMembership (if_index i) (mr_type_of (if_promiscuous i))]"
  defines "s' \<equiv> s\<lparr>out := t, ndL_first_iface := remove1 p (ndL_first_iface s), h_iface := (h_iface s)(p := None)\<rparr>"
  shows "iface_inv (refs(p := refs p - 1)) s' \<and> iface_step s s'"
proof
  have "iface_entry_ok (refs(p := refs p - 1)) q (h_iface s' q)" for q
    using iface_invD(4) [OF assms(1), of q] assms(2) by (cases "q = p") (simp_all add: iface_entry_ok_def s'_def cong: option.case_cong)
  moreover have "set (ndL_first_iface s') = dom (h_iface s')"
    using iface_invD(1,2) [OF assms(1)] by (simp add: s'_def)
  moreover have "\<forall>q\<in>dom (h_iface s'). q < heap_next s'"
    using iface_invD(5) [OF assms(1)] by (auto simp: s'_def split: if_splits)
  ultimately show "iface_inv (refs(p := refs p - 1)) s'"
    using iface_invD(1) [OF assms(1)] by (simp add: iface_inv_def s'_def)
  show "iface_step s s'" by (auto simp: iface_step_def s'_def split: option.splits if_splits)
qed

lemma nd_iface_close_ok:
  assumes "iface_inv refs s" "0 < refs p"
  shows "\<exists>s'. nd_iface_close p s = Some s' \<and> iface_inv (refs(p := refs p - 1)) s' \<and> iface_step s s'"
proof -
  obtain i where i: "h_iface s p = Some i" using iface_inv_live [OF assms] by blast
  have rc: "if_refcount i = int (refs p)" using iface_invD(6) [OF assms(1) i] by simp
  show ?thesis
  proof (cases "refs p = 1")
    case True
    with rc i have "\<exists>t. nd_iface_close p s =
        Some (s\<lparr>out := t, ndL_first_iface := remove1 p (ndL_first_iface s), h_iface := (h_iface s)(p := None)\<rparr>) \<and>
        (t = out s \<or> t = out s @ [DropMembership (if_index i) (mr_type_of (if_promiscuous i))])"
      by (auto simp: nd_iface_close_def Let_def emit_def intro: exI [of _ "out s"])
    then show ?thesis using nd_iface_close_last [OF assms(1) True i] by blast
  next
    case False
    let ?s = "s\<lparr>h_iface := (h_iface s)(p \<mapsto> i\<lparr>if_refcount := if_refcount i - 1\<rparr>)\<rparr>"
    have "iface_entry_ok (refs(p := refs p - 1)) q (h_iface ?s q)" for q
      using iface_invD(4) [OF assms(1), of q] i False assms(2)
      by (cases "q = p") (simp_all add: iface_entry_ok_def cong: option.case_cong)
    moreover have "dom (h_iface ?s) = dom (h_iface s)" using i by auto
    ultimately have "iface_inv (refs(p := refs p - 1)) ?s" using assms(1) by (simp add: iface_inv_def)
    moreover have "iface_step s ?s" using i by (auto simp: iface_step_def split: option.splits if_splits)
    moreover have "nd_iface_close p s = Some ?s"
      using i rc False assms(2) by (simp add: nd_iface_close_def Let_def)
    ultimately show ?thesis by blast
  qed
qed

lemma send_icmp6_out: "\<exists>t. ndL_send_icmp6 i f s = s\<lparr>out := t\<rparr>"
  by (cases "if_up i") (auto simp: ndL_send_icmp6_def emit_def intro: exI [of _ "out s"])

lemma send_na_out: "nd_iface_send_na iface dst ll tgt tgt_ll r s = Some s' \<Longrightarrow> \<exists>t. s' = s\<lparr>out := t\<rparr>"
  using send_icmp6_out by (auto simp: nd_iface_send_na_def bind_eq_Some_conv)

lemma send_ns_out: "nd_iface_send_ns iface tgt s = Some s' \<Longrightarrow> \<exists>t. s' = s\<lparr>out := t\<rparr>"
  using send_icmp6_out by (auto simp: nd_iface_send_ns_def bind_eq_Some_conv)

lemma send_ok:
  assumes "iface_inv refs s" "0 < refs p"
  shows "\<exists>t. nd_iface_send_ns (Some p) tgt s = Some (s\<lparr>out := t\<rparr>)"
    and "\<exists>t. nd_iface_send_na (Some p) dst dst_ll tgt tgt_ll r s = Some (s\<lparr>out := t\<rparr>)"
proof -
  obtain i where i: "h_iface s p = Some i" using iface_inv_live [OF assms] by blast
  then show "\<exists>t. nd_iface_send_ns (Some p) tgt s = Some (s\<lparr>out := t\<rparr>)"
    "\<exists>t. nd_iface_send_na (Some p) dst dst_ll tgt tgt_ll r s = Some (s\<lparr>out := t\<rparr>)"
    using send_icmp6_out [of i _ s] by (simp_all add: nd_iface_send_ns_def nd_iface_send_na_def)
qed

lemma iface_step_sameD:
  assumes "iface_step s s'"
  shows "iface_state.more s' = iface_state.more s" "nd_current_time s' = nd_current_time s"
    "ndL_routes s' = ndL_routes s" "ndL_addrs s' = ndL_addrs s" "nd_rt_dump_timeout s' = nd_rt_dump_timeout s"
    "ndL_io s' = ndL_io s" "nd_iface_no_restore_flags s' = nd_iface_no_restore_flags s" "heap_next s \<le> heap_next s'"
proof -
  have eq: "s' = s\<lparr>h_iface := h_iface s', ndL_first_iface := ndL_first_iface s', heap_next := heap_next s', out := out s'\<rparr>"
    using assms unfolding iface_step_def by (rule conjunct1)
  show "iface_state.more s' = iface_state.more s" by (subst eq) simp
  show "nd_current_time s' = nd_current_time s" by (subst eq) simp
  show "ndL_routes s' = ndL_routes s" by (subst eq) simp
  show "ndL_addrs s' = ndL_addrs s" by (subst eq) simp
  show "nd_rt_dump_timeout s' = nd_rt_dump_timeout s" by (subst eq) simp
  show "ndL_io s' = ndL_io s" by (subst eq) simp
  show "nd_iface_no_restore_flags s' = nd_iface_no_restore_flags s" by (subst eq) simp
  show "heap_next s \<le> heap_next s'" using assms by (simp add: iface_step_def)
qed

lemma iface_step_iface:
  assumes "iface_step s s'" "h_iface s' q = Some i'"
  shows "case h_iface s q of Some i \<Rightarrow> i' = i\<lparr>if_refcount := if_refcount i'\<rparr> | None \<Rightarrow> if_proxy i' = None"
  using assms by (simp add: iface_step_def)

subsection \<open>Cleaning up\<close>

lemma cleanup_one_eq:
  assumes "h_iface s p = Some i"
  shows "\<exists>t. cleanup_one p s =
     Some (s\<lparr>out := t, ndL_first_iface := remove1 p (ndL_first_iface s), h_iface := (h_iface s)(p := None)\<rparr>)"
  using assms by (auto simp: cleanup_one_def nd_iface_close_def Let_def emit_def intro: exI [of _ "out s"])

lemma foldM_cleanup:
  assumes "ndL_first_iface s = ps" "distinct ps" "set ps = dom (h_iface s)"
  shows "\<exists>t. foldM cleanup_one ps s = Some (s\<lparr>out := t, ndL_first_iface := [], h_iface := Map.empty\<rparr>)"
  using assms
proof (induction ps arbitrary: s)
  case Nil
  then have "h_iface s = Map.empty" by (simp add: dom_eq_empty_conv [symmetric])
  with Nil show ?case by (cases s) auto
next
  case (Cons p ps)
  then obtain i where "h_iface s p = Some i" by fastforce
  then obtain t where one: "cleanup_one p s =
     Some (s\<lparr>out := t, ndL_first_iface := remove1 p (ndL_first_iface s), h_iface := (h_iface s)(p := None)\<rparr>)"
    using cleanup_one_eq by blast
  let ?s = "s\<lparr>out := t, ndL_first_iface := remove1 p (ndL_first_iface s), h_iface := (h_iface s)(p := None)\<rparr>"
  have "set ps = dom (h_iface ?s)" "ndL_first_iface ?s = ps" "distinct ps" using Cons.prems by auto
  from Cons.IH [OF this(2,3,1)] obtain u where "foldM cleanup_one ps ?s = Some (?s\<lparr>out := u, ndL_first_iface := [], h_iface := Map.empty\<rparr>)"
    by blast
  then show ?case using one by (auto intro: exI [of _ u])
qed

lemma iface_cleanup_all:
  assumes "iface_inv refs s"
  shows "\<exists>t. nd_iface_cleanup s = Some (s\<lparr>out := t, ndL_first_iface := [], h_iface := Map.empty\<rparr>)"
proof -
  obtain t where t: "foldM cleanup_one (ndL_first_iface s) s = Some (s\<lparr>out := t, ndL_first_iface := [], h_iface := Map.empty\<rparr>)"
    using foldM_cleanup [OF refl iface_invD(1,2) [OF assms]] by blast
  show ?thesis
    by (rule exI [of _ "if ndL_io s then t @ [ClosePacketSocket] else t"]) (use t in \<open>cases s; simp add: nd_iface_cleanup_def emit_def\<close>)
qed

subsection \<open>What opening changes\<close>

text \<open>Opening touches the list of interfaces and joins at most one group.\<close>

definition open_frame :: "bool \<Rightarrow> 'a iface_state_scheme \<Rightarrow> 'a iface_state_scheme \<Rightarrow> bool" where
  "open_frame pr s s' \<longleftrightarrow>
     (out s' = out s \<or> (\<exists>i. out s' = out s @ [AddMembership i (mr_type_of pr)])) \<and>
     nd_current_time s' = nd_current_time s \<and> ndL_routes s' = ndL_routes s \<and> iface_state.more s' = iface_state.more s"

lemma open_frame_refl [simp]: "open_frame pr s s"
  by (simp add: open_frame_def)

lemma iface_ref_frame: "iface_ref p s = Some s' \<Longrightarrow> open_frame pr s s'"
  by (auto simp: iface_ref_def bind_eq_Some_conv open_frame_def)

lemma iface_new_frame: "iface_new i s = Some (r, s') \<Longrightarrow> open_frame pr s s'"
  by (auto simp: iface_new_def Let_def bind_eq_Some_conv open_frame_def)

lemma open_waiting_frame: "open_waiting nm pr s = Some (r, s') \<Longrightarrow> open_frame pr s s'"
  by (auto simp: open_waiting_def bind_eq_Some_conv split: option.splits intro: iface_ref_frame iface_new_frame)

lemma iface_new_emit: "iface_new i (emit (AddMembership n (mr_type_of pr)) s) = Some (r, s') \<Longrightarrow> open_frame pr s s'"
  by (auto simp: iface_new_def Let_def bind_eq_Some_conv open_frame_def emit_def)

lemma open_resolved_frame: "open_resolved k nm index pr s = Some (r, s') \<Longrightarrow> open_frame pr s s'"
  by (auto simp: open_resolved_def bind_eq_Some_conv Let_def split: option.splits if_splits
      intro: iface_ref_frame iface_new_emit) (simp add: open_frame_def emit_def)

lemma open_keeps:
  assumes "nd_iface_open k name index pr s = Some (r, s')"
  shows "out s' = out s \<or> (\<exists>i. out s' = out s @ [AddMembership i (mr_type_of pr)])"
    "nd_current_time s' = nd_current_time s" "ndL_routes s' = ndL_routes s" "iface_state.more s' = iface_state.more s"
proof -
  have "open_frame pr s s'"
    using assms unfolding nd_iface_open_def
    by (auto split: option.splits sum.splits if_splits intro: open_waiting_frame open_resolved_frame)
  then show "out s' = out s \<or> (\<exists>i. out s' = out s @ [AddMembership i (mr_type_of pr)])"
    "nd_current_time s' = nd_current_time s" "ndL_routes s' = ndL_routes s" "iface_state.more s' = iface_state.more s"
    by (simp_all add: open_frame_def)
qed

subsection \<open>Properties\<close>

text \<open>
  Interfaces are reference counted without leaks.  Opening never goes wrong; a failed open keeps all counts, a successful
  one raises the count of exactly the object returned, and closing that object again restores all counts.
\<close>

theorem open_close_balanced:
  assumes "iface_inv refs s" "kernel_ok k" "\<And>nm. name = Some nm \<Longrightarrow> length nm < IF_NAMESIZE"
  shows "case nd_iface_open k name index promiscuous s of
           None \<Rightarrow> False
         | Some (None, s') \<Rightarrow> iface_inv refs s'
         | Some (Some p, s') \<Rightarrow> iface_inv (refs(p := refs p + 1)) s' \<and>
                               (\<exists>s''. nd_iface_close p s' = Some s'' \<and> iface_inv refs s'')"
proof -
  obtain r s' where r: "nd_iface_open k name index promiscuous s = Some (r, s')"
    and inv: "iface_inv (case r of None \<Rightarrow> refs | Some p \<Rightarrow> refs(p := refs p + 1)) s'"
    using nd_iface_open_ok [OF assms, where index = index and pr = promiscuous] unfolding open_ok_def by blast
  show ?thesis
  proof (cases r)
    case None
    with r inv show ?thesis by simp
  next
    case (Some p)
    with inv have p: "iface_inv (refs(p := refs p + 1)) s'" by simp
    show ?thesis using nd_iface_close_ok [OF p, of p] p r Some by auto
  qed
qed

definition sample_kernel :: kernel where
  "sample_kernel =
    \<lparr>if_nametoindex = (\<lambda>nm. if nm = ''eth0'' then Inr 2 else if nm = ''eth1'' then Inr 3 else Inl ENODEV),
     if_indextoname = (\<lambda>i. if i = 2 then Some ''eth0'' else if i = 3 then Some ''eth1'' else None),
     siocgifhwaddr = (\<lambda>nm. Some (if nm = ''eth0'' then Nd_lladdr 2 0 0 0 0 1 else Nd_lladdr 2 0 0 0 0 2)),
     siocgifflags_up = (\<lambda>nm. Some True), add_membership = (\<lambda>i mr. True)\<rparr>"

definition sample_ifaces :: iface_state where
  "sample_ifaces =
    \<lparr>nd_current_time = 0, out = [], ndL_routes = [], ndL_addrs = [], nd_rt_dump_timeout = 0,
     h_iface = [0 \<mapsto> \<lparr>if_refcount = 1, if_name = ''eth0'', if_lladdr = Nd_lladdr 2 0 0 0 0 1, if_index = 2, if_up = True,
                      if_admin_up = True, if_proxy = None, if_promiscuous = False\<rparr>],
     ndL_first_iface = [0], ndL_io = True, nd_iface_no_restore_flags = False, heap_next = 1\<rparr>"

lemma sample_kernel_ok: "kernel_ok sample_kernel"
  by (simp add: kernel_ok_def sample_kernel_def IF_NAMESIZE_def)

lemma sample_ifaces_inv: "iface_inv ((\<lambda>_. 0)(0 := 1)) sample_ifaces"
  by (simp add: iface_inv_def sample_ifaces_def iface_entry_ok_def IF_NAMESIZE_def)

theorem open_close_balanced_witness:
  "\<exists>s'. nd_iface_open sample_kernel (Some ''eth0'') 0 False sample_ifaces = Some (Some 0, s') \<and>
        iface_inv ((\<lambda>_. 0)(0 := 2)) s' \<and> (\<exists>s''. nd_iface_close 0 s' = Some s'' \<and> iface_inv ((\<lambda>_. 0)(0 := 1)) s'')"
proof -
  have nm: "Some ''eth0'' = Some nm \<Longrightarrow> length nm < IF_NAMESIZE" for nm by (auto simp: IF_NAMESIZE_def)
  obtain s' where s': "nd_iface_open sample_kernel (Some ''eth0'') 0 False sample_ifaces = Some (Some 0, s')"
    by (simp add: nd_iface_open_def sample_kernel_def open_resolved_def sample_ifaces_def iface_ref_def)
  show ?thesis
    using open_close_balanced [OF sample_ifaces_inv sample_kernel_ok, of "Some ''eth0''" 0 False, OF nm] s'
    by (auto simp: numeral_2_eq_2)
qed

text \<open>
  Closing releases the interface exactly at the last reference.  With other references left only the count changes and nothing is
  sent to the kernel; at the last one the object is freed and unlinked, and the packet membership is given up
  exactly when the interface was bound and the daemon has not forked.
\<close>

theorem close_at_last_reference:
  assumes "iface_inv refs s" "h_iface s p = Some i"
  shows "nd_iface_close p s =
     Some (if refs p > 1 then s\<lparr>h_iface := (h_iface s)(p \<mapsto> i\<lparr>if_refcount := int (refs p) - 1\<rparr>)\<rparr>
           else s\<lparr>out := out s @ (if if_up i \<and> \<not> nd_iface_no_restore_flags s
                                 then [DropMembership (if_index i) (mr_type_of (if_promiscuous i))] else []),
                  ndL_first_iface := remove1 p (ndL_first_iface s), h_iface := (h_iface s)(p := None)\<rparr>)"
  using iface_invD(6) [OF assms] assms(2)
  by (auto simp: nd_iface_close_def emit_def Let_def)

theorem close_at_last_reference_witness:
  "\<exists>s'. nd_iface_close 0 sample_ifaces = Some s' \<and> h_iface s' = Map.empty \<and> ndL_first_iface s' = [] \<and>
        out s' = [DropMembership 2 PACKET_MR_ALLMULTI]"
proof -
  have i: "h_iface sample_ifaces 0 = Some (the (h_iface sample_ifaces 0))" by (simp add: sample_ifaces_def)
  show ?thesis
    using close_at_last_reference [OF sample_ifaces_inv i] by (simp add: sample_ifaces_def mr_type_of_def)
qed

text \<open>
  \<open>nd_iface_cleanup\<close> at exit returns and leaves no interface behind, whatever the reference counts were.
\<close>

theorem cleanup_releases_all:
  assumes "iface_inv refs s"
  shows "\<exists>s'. nd_iface_cleanup s = Some s' \<and> h_iface s' = Map.empty \<and> ndL_first_iface s' = []"
  using iface_cleanup_all [OF assms] by auto

theorem cleanup_releases_all_witness:
  "\<exists>s'. nd_iface_cleanup sample_ifaces = Some s' \<and> h_iface s' = Map.empty"
  using cleanup_releases_all [OF sample_ifaces_inv] by blast

end
