(* ===== verification/Session.thy ===== *)
theory Session
  imports Iface
begin

text \<open>
  The sessions of \<^verbatim>\<open>src/session.c\<close>: one \<open>nd_session\<close> per target and proxy, kept in two arrays of
  64 hash chains (by target and by rewritten target), and its state machine INCOMPLETE, VALID,
  STALE, INVALID.  Rules and proxies are here as data, since sessions point to them; the code
  that creates them is in theory \<open>Proxy\<close>.  Every operation takes the whole daemon state and
  returns it changed, or \<open>None\<close> where the C code would dereference a bad pointer.

  A chain is the list of the addresses linked in it (theory \<open>Linked_List\<close> relates the two), so
  prepending is cons and unlinking is \<open>remove1\<close>.  The queue of subscribers of a session belongs to
  it alone and is a list of values.
\<close>

subsection \<open>Data\<close>

datatype nd_state = ND_STATE_INCOMPLETE | ND_STATE_VALID | ND_STATE_STALE | ND_STATE_INVALID

datatype nd_mode = ND_MODE_UNKNOWN | ND_MODE_STATIC | ND_MODE_IFACE | ND_MODE_AUTO

record nd_sub =
  sub_addr :: nd_addr
  sub_lladdr :: nd_lladdr

record nd_session =
  s_rule :: ptr
  s_tgt :: nd_addr
  s_tgt_r :: nd_addr
  ons_count :: int
  ons_time :: int
  ins_time :: int
  state_time :: int
  s_state :: nd_state
  s_iface :: "ptr option"
  s_subs :: "nd_sub list"
  s_autowired :: bool

record nd_rule =
  r_proxy :: ptr
  r_ifname :: string
  r_target :: nd_lladdr
  r_addr :: nd_addr
  r_prefix :: nat
  r_rewrite_tgt :: nd_addr
  r_rewrite_pflen :: nat
  r_iface :: "ptr option"
  r_autowire :: bool
  r_table :: nat
  r_mode :: nd_mode

record nd_proxy =
  p_ifname :: string
  p_target :: nd_lladdr
  p_iface :: "ptr option"
  p_rules :: "ptr list"
  p_router :: bool
  p_promiscuous :: bool

definition ND_SESSION_MAX_SUBS :: nat where "ND_SESSION_MAX_SUBS = 32"
definition ND_SESSION_MAX :: int where "ND_SESSION_MAX = 4096"
definition NDPPD_SESSION_BUCKETS :: nat where "NDPPD_SESSION_BUCKETS = 64"

record session_state = iface_state +
  h_session :: "ptr \<rightharpoonup> nd_session"
  h_rule :: "ptr \<rightharpoonup> nd_rule"
  h_proxy :: "ptr \<rightharpoonup> nd_proxy"
  ndL_proxies :: "ptr list"
  ndL_sessions :: "ptr list list"
  ndL_sessions_r :: "ptr list list"
  ndL_session_count :: int
  ndL_hash_seed :: u32
  nd_conf_invalid_ttl :: int
  nd_conf_valid_ttl :: int
  nd_conf_stale_ttl :: int
  nd_conf_retrans_limit :: int
  nd_conf_retrans_time :: int
  nd_conf_keepalive :: bool

definition zero_addr :: nd_addr where "zero_addr = Nd_addr 0 0 0 0"

definition NDL_BUCKET :: "u32 \<Rightarrow> nd_addr \<Rightarrow> nat" where
  "NDL_BUCKET seed a = unat (nd_addr_hash seed a) mod NDPPD_SESSION_BUCKETS"

definition put_session :: "ptr \<Rightarrow> nd_session \<Rightarrow> 'a session_state_scheme \<Rightarrow> 'a session_state_scheme" where
  "put_session p x s = s\<lparr>h_session := (h_session s)(p \<mapsto> x)\<rparr>"

subsection \<open>Routes of a session\<close>

definition ndL_up :: "ptr \<Rightarrow> 'a session_state_scheme \<Rightarrow> 'a session_state_scheme option" where
  "ndL_up p s = do {
     x \<leftarrow> h_session s p;
     case s_iface x of
       None \<Rightarrow> Some s
     | Some ip \<Rightarrow> do {
         i \<leftarrow> h_iface s ip;
         if if_up i \<and> \<not> s_autowired x then do {
           r \<leftarrow> h_rule s (s_rule x);
           if r_autowire r then
             Some (put_session p (x\<lparr>s_autowired := True\<rparr>) (nd_rt_add_route (s_tgt x) 128 (if_index i) (r_table r) s))
           else Some s
         } else Some s
       }
   }"

definition ndL_down :: "ptr \<Rightarrow> 'a session_state_scheme \<Rightarrow> 'a session_state_scheme option" where
  "ndL_down p s = do {
     x \<leftarrow> h_session s p;
     if s_iface x \<noteq> None \<and> s_autowired x then do {
       r \<leftarrow> h_rule s (s_rule x);
       Some (put_session p (x\<lparr>s_autowired := False\<rparr>) (nd_rt_remove_route (s_tgt x) 128 (r_table r) s))
     } else Some s
   }"

subsection \<open>Answering\<close>

definition rule_target :: "nd_rule \<Rightarrow> nd_lladdr option" where
  "rule_target r = (if \<not> nd_lladdr_is_unspecified (r_target r) then Some (r_target r) else None)"

definition allnodes_ll :: nd_lladdr where "allnodes_ll = Nd_lladdr 0x33 0x33 0 0 0 1"
definition allnodes :: nd_addr where
  "allnodes = addr_of_bytes LittleEndian [0xff, 0x02, 0, 0, 0, 0, 0, 0, 0, 0, 0, 0, 0, 0, 0, 1]"

definition answer_ns ::
  "nd_session \<Rightarrow> nd_addr \<Rightarrow> nd_lladdr option \<Rightarrow> 'a session_state_scheme \<Rightarrow> 'a session_state_scheme option" where
  "answer_ns x src src_ll s = do {
     r \<leftarrow> h_rule s (s_rule x);
     px \<leftarrow> h_proxy s (r_proxy r);
     case src_ll of
       None \<Rightarrow> nd_iface_send_na (p_iface px) allnodes allnodes_ll (s_tgt x) (rule_target r) (p_router px) s
     | Some ll \<Rightarrow>
         if nd_addr_is_unspecified src
         then nd_iface_send_na (p_iface px) allnodes allnodes_ll (s_tgt x) (rule_target r) (p_router px) s
         else nd_iface_send_na (p_iface px) src ll (s_tgt x) (rule_target r) (p_router px) s
   }"

text \<open>Queueing the sender: \<open>None\<close> when the queue is full and the solicitation is dropped.\<close>

definition queue_sub :: "nd_addr \<Rightarrow> nd_lladdr \<Rightarrow> nd_session \<Rightarrow> nd_session option" where
  "queue_sub src ll x =
     (if list_ex (\<lambda>u. nd_addr_eq (sub_addr u) src \<and> nd_lladdr_eq (sub_lladdr u) ll) (s_subs x) then Some x
      else if length (s_subs x) \<ge> ND_SESSION_MAX_SUBS then None
      else Some (x\<lparr>s_subs := \<lparr>sub_addr = src, sub_lladdr = ll\<rparr> # s_subs x\<rparr>))"

definition start_probing :: "ptr \<Rightarrow> nd_session \<Rightarrow> 'a session_state_scheme \<Rightarrow> 'a session_state_scheme option" where
  "start_probing p x s = do {
     let x' = x\<lparr>s_state := ND_STATE_INCOMPLETE, ons_count := 1, ons_time := nd_current_time s\<rparr>;
     nd_iface_send_ns (s_iface x') (s_tgt_r x') (put_session p x' s)
   }"

text \<open>An INVALID session without an interface looks for its route again.\<close>

definition retry_route :: "kernel \<Rightarrow> ptr \<Rightarrow> 'a session_state_scheme \<Rightarrow> 'a session_state_scheme option" where
  "retry_route k p s = do {
     x \<leftarrow> h_session s p;
     if s_state x = ND_STATE_INVALID \<and> s_iface x = None then do {
       r \<leftarrow> h_rule s (s_rule x);
       if r_mode r = ND_MODE_AUTO then
         (case nd_rt_find_route (s_tgt x) (r_table r) s of
            None \<Rightarrow> Some s
          | Some route \<Rightarrow> do {
              px \<leftarrow> h_proxy s (r_proxy r);
              ip \<leftarrow> p_iface px;
              i \<leftarrow> h_iface s ip;
              if rt_oif route \<noteq> if_index i then do {
                (io, s1) \<leftarrow> nd_iface_open k None (rt_oif route) False s;
                case io of
                  None \<Rightarrow> Some s1
                | Some ip' \<Rightarrow>
                    start_probing p (x\<lparr>s_iface := Some ip', state_time := nd_current_time s1\<rparr>) s1
              } else Some s
            })
       else Some s
     } else Some s
   }"

definition probe_stale :: "ptr \<Rightarrow> 'a session_state_scheme \<Rightarrow> 'a session_state_scheme option" where
  "probe_stale p s = do {
     x \<leftarrow> h_session s p;
     if s_state x = ND_STATE_STALE \<and> s_iface x \<noteq> None \<and>
        nd_current_time s - ons_time x \<ge> nd_conf_retrans_time s then do {
       let x' = x\<lparr>ons_count := (if ons_count x = 0 then 1 else ons_count x), ons_time := nd_current_time s\<rparr>;
       nd_iface_send_ns (s_iface x') (s_tgt_r x') (put_session p x' s)
     } else Some s
   }"

definition nd_session_handle_ns ::
  "kernel \<Rightarrow> ptr \<Rightarrow> nd_addr \<Rightarrow> nd_lladdr option \<Rightarrow> 'a session_state_scheme \<Rightarrow> 'a session_state_scheme option" where
  "nd_session_handle_ns k p src src_ll s = do {
     x0 \<leftarrow> h_session s p;
     let x = x0\<lparr>ins_time := nd_current_time s\<rparr>;
     let s1 = put_session p x s;
     if s_state x = ND_STATE_VALID then answer_ns x src src_ll s1
     else case src_ll of
       None \<Rightarrow> Some s1
     | Some ll \<Rightarrow>
         (case queue_sub src ll x of
            None \<Rightarrow> Some s1
          | Some x' \<Rightarrow> do {
              s2 \<leftarrow> retry_route k p (put_session p x' s1);
              probe_stale p s2
            })
   }"

definition notify_sub :: "nd_session \<Rightarrow> nd_sub \<Rightarrow> 'a session_state_scheme \<Rightarrow> 'a session_state_scheme option" where
  "notify_sub x u s = do {
     r \<leftarrow> h_rule s (s_rule x);
     px \<leftarrow> h_proxy s (r_proxy r);
     nd_iface_send_na (p_iface px) (sub_addr u) (sub_lladdr u) (s_tgt x) (rule_target r) (p_router px) s
   }"

definition nd_session_handle_na :: "ptr \<Rightarrow> 'a session_state_scheme \<Rightarrow> 'a session_state_scheme option" where
  "nd_session_handle_na p s = do {
     x \<leftarrow> h_session s p;
     if s_state x = ND_STATE_VALID then Some (put_session p (x\<lparr>state_time := nd_current_time s\<rparr>) s)
     else do {
       require (h_rule s (s_rule x) \<noteq> None);
       s1 \<leftarrow> foldM (notify_sub x) (s_subs x) s;
       let s2 = put_session p (x\<lparr>s_subs := []\<rparr>) s1;
       s3 \<leftarrow> ndL_up p s2;
       y \<leftarrow> h_session s3 p;
       Some (put_session p (y\<lparr>s_state := ND_STATE_VALID, state_time := nd_current_time s3\<rparr>) s3)
     }
   }"

subsection \<open>Creating\<close>

definition link_session :: "ptr \<Rightarrow> nd_session \<Rightarrow> 'a session_state_scheme \<Rightarrow> 'a session_state_scheme" where
  "link_session p x s =
     (let i = NDL_BUCKET (ndL_hash_seed s) (s_tgt x); j = NDL_BUCKET (ndL_hash_seed s) (s_tgt_r x)
      in s\<lparr>h_session := (h_session s)(p \<mapsto> x),
           ndL_sessions := (ndL_sessions s)[i := p # ndL_sessions s ! i],
           ndL_sessions_r := (ndL_sessions_r s)[j := p # ndL_sessions_r s ! j],
           ndL_session_count := ndL_session_count s + 1,
           heap_next := Suc (heap_next s)\<rparr>)"

text \<open>The choice of the interface and of the first state, once the session is linked.\<close>

definition init_session ::
  "kernel \<Rightarrow> ptr \<Rightarrow> nd_session \<Rightarrow> nd_rule \<Rightarrow> 'a session_state_scheme \<Rightarrow> 'a session_state_scheme option" where
  "init_session k p x r s =
     (case r_mode r of
        ND_MODE_AUTO \<Rightarrow>
          (case nd_rt_find_route (s_tgt x) (r_table r) s of
             None \<Rightarrow> Some (put_session p (x\<lparr>s_state := ND_STATE_INVALID\<rparr>) s)
           | Some route \<Rightarrow> do {
               px \<leftarrow> h_proxy s (r_proxy r);
               ip \<leftarrow> p_iface px;
               i \<leftarrow> h_iface s ip;
               if rt_oif route = if_index i then Some (put_session p (x\<lparr>s_state := ND_STATE_INVALID\<rparr>) s)
               else do {
                 (io, s1) \<leftarrow> nd_iface_open k None (rt_oif route) False s;
                 case io of
                   None \<Rightarrow> Some (put_session p (x\<lparr>s_state := ND_STATE_INVALID\<rparr>) s1)
                 | Some ip' \<Rightarrow> start_probing p (x\<lparr>s_iface := Some ip'\<rparr>) s1
               }
             })
      | mode \<Rightarrow>
          (case r_iface r of
             None \<Rightarrow> if mode = ND_MODE_STATIC then Some (put_session p (x\<lparr>s_state := ND_STATE_VALID\<rparr>) s) else Some s
           | Some ip \<Rightarrow> do {
               i \<leftarrow> h_iface s ip;
               if mode = ND_MODE_IFACE \<and> if_up i \<and> nd_rt_is_local_addr (if_index i) (s_tgt_r x) s
               then Some (put_session p (x\<lparr>s_state := ND_STATE_VALID\<rparr>) s)
               else do {
                 s1 \<leftarrow> iface_ref ip s;
                 start_probing p (x\<lparr>s_iface := Some ip\<rparr>) s1
               }
             }))"

definition nd_session_create ::
  "kernel \<Rightarrow> ptr \<Rightarrow> nd_addr \<Rightarrow> 'a session_state_scheme \<Rightarrow> (ptr option \<times> 'a session_state_scheme) option" where
  "nd_session_create k rp tgt s =
     (if ndL_session_count s \<ge> ND_SESSION_MAX then Some (None, s)
      else do {
        r \<leftarrow> h_rule s rp;
        let p = heap_next s;
        let x = \<lparr>s_rule = rp, s_tgt = tgt,
                 s_tgt_r = nd_addr_combine host (r_rewrite_tgt r) tgt (r_rewrite_pflen r),
                 ons_count = 0, ons_time = 0, ins_time = 0, state_time = nd_current_time s,
                 s_state = ND_STATE_INCOMPLETE, s_iface = None, s_subs = [], s_autowired = False\<rparr>;
        s' \<leftarrow> init_session k p x r (link_session p x s);
        Some (Some p, s')
      })"

subsection \<open>The timers\<close>

definition update_incomplete :: "ptr \<Rightarrow> nd_session \<Rightarrow> 'a session_state_scheme \<Rightarrow> 'a session_state_scheme option" where
  "update_incomplete p x s = do {
     waiting \<leftarrow> (case s_iface x of None \<Rightarrow> Some False | Some ip \<Rightarrow> do { i \<leftarrow> h_iface s ip; Some (\<not> if_up i) });
     if waiting then
       (if nd_current_time s - state_time x < nd_conf_invalid_ttl s
        then Some (put_session p (x\<lparr>ons_time := nd_current_time s\<rparr>) s)
        else Some (put_session p (x\<lparr>s_state := ND_STATE_INVALID, state_time := nd_current_time s\<rparr>) s))
     else if nd_current_time s - ons_time x < nd_conf_retrans_time s then Some s
     else do {
       let x' = x\<lparr>ons_count := ons_count x + 1\<rparr>;
       if ons_count x' > nd_conf_retrans_limit s
       then Some (put_session p (x'\<lparr>s_state := ND_STATE_INVALID, state_time := nd_current_time s\<rparr>) s)
       else nd_iface_send_ns (s_iface x') (s_tgt_r x') (put_session p x' s)
     }
   }"

definition unlink_session :: "ptr \<Rightarrow> nd_session \<Rightarrow> 'a session_state_scheme \<Rightarrow> 'a session_state_scheme" where
  "unlink_session p x s =
     (let i = NDL_BUCKET (ndL_hash_seed s) (s_tgt x); j = NDL_BUCKET (ndL_hash_seed s) (s_tgt_r x)
      in s\<lparr>h_session := (h_session s)(p := None),
           ndL_sessions := (ndL_sessions s)[i := remove1 p (ndL_sessions s ! i)],
           ndL_sessions_r := (ndL_sessions_r s)[j := remove1 p (ndL_sessions_r s ! j)],
           ndL_session_count := ndL_session_count s - 1\<rparr>)"

definition update_invalid :: "ptr \<Rightarrow> nd_session \<Rightarrow> 'a session_state_scheme \<Rightarrow> 'a session_state_scheme option" where
  "update_invalid p x s =
     (if nd_current_time s - state_time x < nd_conf_invalid_ttl s then Some s
      else do {
        s1 \<leftarrow> ndL_down p s;
        s2 \<leftarrow> (case s_iface x of None \<Rightarrow> Some s1 | Some ip \<Rightarrow> nd_iface_close ip s1);
        Some (unlink_session p x s2)
      })"

definition update_valid :: "ptr \<Rightarrow> nd_session \<Rightarrow> 'a session_state_scheme \<Rightarrow> 'a session_state_scheme option" where
  "update_valid p x s =
     (if nd_current_time s - state_time x < nd_conf_valid_ttl s then Some s
      else case s_iface x of
        None \<Rightarrow> do {
          r \<leftarrow> h_rule s (s_rule x);
          still \<leftarrow> (if r_mode r = ND_MODE_STATIC then Some True
                   else case r_iface r of
                     None \<Rightarrow> Some False
                   | Some ip \<Rightarrow> do {
                       i \<leftarrow> h_iface s ip;
                       Some (if_up i \<and> nd_rt_is_local_addr (if_index i) (s_tgt_r x) s)
                     });
          if still then Some (put_session p (x\<lparr>state_time := nd_current_time s\<rparr>) s)
          else Some (put_session p (x\<lparr>s_state := ND_STATE_INVALID, state_time := nd_current_time s\<rparr>) s)
        }
      | Some ip \<Rightarrow> do {
          let x' = x\<lparr>s_state := ND_STATE_STALE, state_time := nd_current_time s, ons_time := nd_current_time s\<rparr>;
          if nd_conf_keepalive s \<or> nd_current_time s - ins_time x < nd_conf_valid_ttl s
          then nd_iface_send_ns (Some ip) (s_tgt_r x) (put_session p (x'\<lparr>ons_count := 1\<rparr>) s)
          else Some (put_session p (x'\<lparr>ons_count := 0\<rparr>) s)
        })"

text \<open>
  The pause before the next probe of a STALE session.  The division and the remainder are those
  of C, on a count that is never negative.
\<close>

definition stale_delay :: "int \<Rightarrow> int \<Rightarrow> int \<Rightarrow> int" where
  "stale_delay count limit rtime =
     (let shift = min (nat (count div 3)) 16
      in if count \<noteq> 0 \<and> limit > 0 \<and> count mod limit = 0 then rtime * 2 ^ shift else rtime)"

definition update_stale :: "ptr \<Rightarrow> nd_session \<Rightarrow> 'a session_state_scheme \<Rightarrow> 'a session_state_scheme option" where
  "update_stale p x s =
     (if nd_current_time s - state_time x \<ge> nd_conf_stale_ttl s
      then Some (put_session p (x\<lparr>s_state := ND_STATE_INVALID, state_time := nd_current_time s\<rparr>) s)
      else if \<not> nd_conf_keepalive s \<and> nd_current_time s - ins_time x > nd_conf_valid_ttl s then Some s
      else if nd_current_time s - ons_time x <
              stale_delay (ons_count x) (nd_conf_retrans_limit s) (nd_conf_retrans_time s) then Some s
      else do {
        let x' = x\<lparr>ons_count := ons_count x + 1, ons_time := nd_current_time s\<rparr>;
        nd_iface_send_ns (s_iface x') (s_tgt_r x') (put_session p x' s)
      })"

definition nd_session_update :: "ptr \<Rightarrow> 'a session_state_scheme \<Rightarrow> 'a session_state_scheme option" where
  "nd_session_update p s = do {
     x \<leftarrow> h_session s p;
     case s_state x of
       ND_STATE_INCOMPLETE \<Rightarrow> update_incomplete p x s
     | ND_STATE_INVALID \<Rightarrow> update_invalid p x s
     | ND_STATE_VALID \<Rightarrow> update_valid p x s
     | ND_STATE_STALE \<Rightarrow> update_stale p x s
   }"

subsection \<open>Searching and sweeping\<close>

definition nd_session_find :: "nd_addr \<Rightarrow> ptr \<Rightarrow> 'a session_state_scheme \<Rightarrow> ptr option option" where
  "nd_session_find tgt proxy s =
     heap_findM (h_session s)
       (\<lambda>x. do { r \<leftarrow> h_rule s (s_rule x); Some (r_proxy r = proxy \<and> nd_addr_eq (s_tgt x) tgt) })
       (ndL_sessions s ! NDL_BUCKET (ndL_hash_seed s) tgt)"

definition nd_session_find_r :: "nd_addr \<Rightarrow> ptr \<Rightarrow> 'a session_state_scheme \<Rightarrow> ptr option option" where
  "nd_session_find_r tgt iface s =
     heap_find (h_session s) (\<lambda>x. s_iface x = Some iface \<and> nd_addr_eq (s_tgt_r x) tgt)
       (ndL_sessions_r s ! NDL_BUCKET (ndL_hash_seed s) tgt)"

definition iface_changed_one :: "ptr \<Rightarrow> bool \<Rightarrow> ptr \<Rightarrow> 'a session_state_scheme \<Rightarrow> 'a session_state_scheme option" where
  "iface_changed_one iface up p s = do {
     x \<leftarrow> h_session s p;
     if s_iface x \<noteq> Some iface then Some s
     else if \<not> up then Some (put_session p (x\<lparr>s_autowired := False\<rparr>) s)
     else if s_state x = ND_STATE_VALID then ndL_up p s
     else Some s
   }"

definition nd_session_iface_changed :: "ptr \<Rightarrow> bool \<Rightarrow> 'a session_state_scheme \<Rightarrow> 'a session_state_scheme option" where
  "nd_session_iface_changed iface up s =
     foldM (\<lambda>i s. foldM (iface_changed_one iface up) (ndL_sessions s ! i) s) [0..<NDPPD_SESSION_BUCKETS] s"

definition nd_session_update_all :: "'a session_state_scheme \<Rightarrow> 'a session_state_scheme option" where
  "nd_session_update_all s =
     foldM (\<lambda>i s. foldM nd_session_update (ndL_sessions s ! i) s) [0..<NDPPD_SESSION_BUCKETS] s"

end
