(* ===== verification/Hash_Index.thy ===== *)
theory Hash_Index
  imports Nd_Prelude
begin

text \<open>
  Hash chains over a heap of objects: an array of \<open>n\<close> lists of addresses, where chain \<open>i\<close> holds
  exactly the live objects whose key hashes to \<open>i\<close>, once each.  The locale \<open>hash_index\<close> has the
  laws of insertion, deletion and search, for any hash function with values below \<open>n\<close>; the
  session table of \<^verbatim>\<open>src/session.c\<close> uses them twice, by target and by rewritten target.
\<close>

definition index_ok :: "('k \<Rightarrow> nat) \<Rightarrow> nat \<Rightarrow> ('x \<Rightarrow> 'k) \<Rightarrow> (ptr \<rightharpoonup> 'x) \<Rightarrow> ptr list list \<Rightarrow> bool" where
  "index_ok bkt n key h bs \<longleftrightarrow>
     length bs = n \<and>
     (\<forall>i<n. distinct (bs ! i) \<and> set (bs ! i) = {p. \<exists>x. h p = Some x \<and> bkt (key x) = i})"

lemma index_okD:
  assumes "index_ok bkt n key h bs"
  shows "length bs = n" "\<And>i. i < n \<Longrightarrow> distinct (bs ! i)"
    "\<And>i. i < n \<Longrightarrow> set (bs ! i) = {p. \<exists>x. h p = Some x \<and> bkt (key x) = i}"
  using assms by (simp_all add: index_ok_def)

locale hash_index =
  fixes bkt :: "'k \<Rightarrow> nat" and n :: nat
  assumes bkt_less: "bkt k < n"
begin

lemma index_empty: "index_ok bkt n key Map.empty (replicate n [])"
  by (simp add: index_ok_def)

lemma index_insert:
  assumes "index_ok bkt n key h bs" and "h p = None" and "key x = k"
  shows "index_ok bkt n key (h(p \<mapsto> x)) (bs[bkt k := p # bs ! bkt k])"
  unfolding index_ok_def
proof (intro conjI allI impI)
  note D = index_okD [OF assms(1)]
  show "length (bs[bkt k := p # bs ! bkt k]) = n" using D(1) by simp
  fix i
  assume i: "i < n"
  have notin: "p \<notin> set (bs ! i)" using D(3) [OF i] assms(2) by auto
  show "distinct (bs[bkt k := p # bs ! bkt k] ! i)"
    using D(1,2) i notin bkt_less [of k] by (cases "i = bkt k") simp_all
  show "set (bs[bkt k := p # bs ! bkt k] ! i) = {q. \<exists>y. (h(p \<mapsto> x)) q = Some y \<and> bkt (key y) = i}"
    using D(1) D(3) [OF i] i bkt_less [of k] assms(2,3) by (cases "i = bkt k") auto
qed

lemma index_delete:
  assumes "index_ok bkt n key h bs" and "h p = Some x" and "key x = k"
  shows "index_ok bkt n key (h(p := None)) (bs[bkt k := remove1 p (bs ! bkt k)])"
  unfolding index_ok_def
proof (intro conjI allI impI)
  note D = index_okD [OF assms(1)]
  show "length (bs[bkt k := remove1 p (bs ! bkt k)]) = n" using D(1) by simp
  fix i
  assume i: "i < n"
  show "distinct (bs[bkt k := remove1 p (bs ! bkt k)] ! i)"
    using D(1,2) i bkt_less [of k] by (cases "i = bkt k") (simp_all add: distinct_remove1)
  show "set (bs[bkt k := remove1 p (bs ! bkt k)] ! i) = {q. \<exists>y. (h(p := None)) q = Some y \<and> bkt (key y) = i}"
    using D(1) D(2) [OF i] D(3) [OF i] i bkt_less [of k] assms(2,3) by (cases "i = bkt k") auto
qed

lemma index_update:
  assumes "index_ok bkt n key h bs" and "h p = Some x" and "key y = key x"
  shows "index_ok bkt n key (h(p \<mapsto> y)) bs"
  using assms unfolding index_ok_def by (auto split: if_splits)

lemma index_member:
  assumes "index_ok bkt n key h bs" and "h p = Some x"
  shows "p \<in> set (bs ! bkt (key x))"
  using index_okD(3) [OF assms(1) bkt_less [of "key x"]] assms(2) by auto

lemma index_live: "index_ok bkt n key h bs \<Longrightarrow> i < n \<Longrightarrow> set (bs ! i) \<subseteq> dom h"
  using index_okD(3) by fastforce

text \<open>A search in the chain of \<open>k\<close> finds an object with key \<open>k\<close> exactly when there is one.\<close>

lemma index_search:
  assumes "index_ok bkt n key h bs"
  shows "\<exists>r. heap_find h (\<lambda>x. P x \<and> key x = k) (bs ! bkt k) = Some r \<and>
             (case r of None \<Rightarrow> \<forall>p x. h p = Some x \<longrightarrow> \<not> (P x \<and> key x = k)
              | Some p \<Rightarrow> \<exists>x. h p = Some x \<and> P x \<and> key x = k)"
proof -
  obtain r where r: "heap_find h (\<lambda>x. P x \<and> key x = k) (bs ! bkt k) = Some r"
    using heap_find_total [OF index_live [OF assms bkt_less]] by blast
  show ?thesis
  proof (cases r)
    case None
    have "\<not> (P x \<and> key x = k)" if "h p = Some x" for p x
      using heap_find_NoneD [of h _ "bs ! bkt k" p] r None index_member [OF assms that] that by fastforce
    then show ?thesis using r None by auto
  next
    case (Some p)
    then show ?thesis using r heap_find_SomeD [of h _ "bs ! bkt k" p] by auto
  qed
qed

end

end
