(* ===== verification/Session_Inv.thy ===== *)
theory Session_Inv
  imports Session Hash_Index
begin

text \<open>
  The invariant of the session table and that every operation of \<^verbatim>\<open>src/session.c\<close> keeps it and
  runs without undefined behaviour.  \<open>session_wf\<close> is the part about sessions, rules and
  proxies; \<open>daemon_inv\<close> adds that the reference count of every interface is the number
  of sessions, rules and proxies that point to it (\<open>refs_of\<close>).
\<close>

interpretation buckets: hash_index "NDL_BUCKET seed" NDPPD_SESSION_BUCKETS for seed
  by unfold_locales (simp add: NDL_BUCKET_def NDPPD_SESSION_BUCKETS_def)

subsection \<open>The invariant\<close>

definition refs_of :: "'a session_state_scheme \<Rightarrow> ptr \<Rightarrow> nat" where
  "refs_of s p = heap_count (\<lambda>x. s_iface x = Some p) (h_session s) +
                 heap_count (\<lambda>r. r_iface r = Some p) (h_rule s) +
                 heap_count (\<lambda>x. p_iface x = Some p) (h_proxy s)"

definition rule_ok :: "'a session_state_scheme \<Rightarrow> nd_rule \<Rightarrow> bool" where
  "rule_ok s r \<longleftrightarrow>
     h_proxy s (r_proxy r) \<noteq> None \<and> r_mode r \<noteq> ND_MODE_UNKNOWN \<and> (r_mode r = ND_MODE_IFACE \<longrightarrow> r_iface r \<noteq> None)"

definition proxy_ok :: "'a session_state_scheme \<Rightarrow> ptr \<Rightarrow> nd_proxy \<Rightarrow> bool" where
  "proxy_ok s pp px \<longleftrightarrow>
     p_iface px \<noteq> None \<and> (\<forall>rp\<in>set (p_rules px). \<exists>r. h_rule s rp = Some r \<and> r_proxy r = pp)"

text \<open>What holds of each session by itself, given the rule it points to.\<close>

definition session_ok :: "(ptr \<rightharpoonup> nd_rule) \<Rightarrow> nd_session \<Rightarrow> bool" where
  "session_ok rules x \<longleftrightarrow>
     (\<exists>r. rules (s_rule x) = Some r \<and>
          s_tgt_r x = nd_addr_combine host (r_rewrite_tgt r) (s_tgt x) (r_rewrite_pflen r)) \<and>
     (s_state x \<in> {ND_STATE_INCOMPLETE, ND_STATE_STALE} \<longrightarrow> s_iface x \<noteq> None) \<and>
     (s_autowired x \<longrightarrow> s_iface x \<noteq> None) \<and>
     length (s_subs x) \<le> ND_SESSION_MAX_SUBS \<and> distinct (s_subs x) \<and> 0 \<le> ons_count x"

text \<open>The proxy a session answers for.\<close>

definition proxy_of :: "(ptr \<rightharpoonup> nd_rule) \<Rightarrow> nd_session \<Rightarrow> ptr option" where
  "proxy_of rules x = map_option r_proxy (rules (s_rule x))"

definition unique_targets :: "(ptr \<rightharpoonup> nd_rule) \<Rightarrow> (ptr \<rightharpoonup> nd_session) \<Rightarrow> bool" where
  "unique_targets rules h \<longleftrightarrow>
     (\<forall>p q x y. h p = Some x \<longrightarrow> h q = Some y \<longrightarrow> s_tgt x = s_tgt y \<longrightarrow> proxy_of rules x = proxy_of rules y \<longrightarrow> p = q)"

definition tables_ok :: "'a session_state_scheme \<Rightarrow> bool" where
  "tables_ok s \<longleftrightarrow>
     index_ok (NDL_BUCKET (ndL_hash_seed s)) NDPPD_SESSION_BUCKETS s_tgt (h_session s) (ndL_sessions s) \<and>
     index_ok (NDL_BUCKET (ndL_hash_seed s)) NDPPD_SESSION_BUCKETS s_tgt_r (h_session s) (ndL_sessions_r s) \<and>
     finite (dom (h_session s)) \<and> (\<forall>p\<in>dom (h_session s). p < heap_next s) \<and>
     ndL_session_count s = int (card (dom (h_session s))) \<and> ndL_session_count s \<le> ND_SESSION_MAX"

definition config_ok :: "'a session_state_scheme \<Rightarrow> bool" where
  "config_ok s \<longleftrightarrow>
     finite (dom (h_rule s)) \<and> finite (dom (h_proxy s)) \<and>
     (\<forall>p r. h_rule s p = Some r \<longrightarrow> rule_ok s r) \<and> (\<forall>p x. h_proxy s p = Some x \<longrightarrow> proxy_ok s p x)"

definition session_wf :: "'a session_state_scheme \<Rightarrow> bool" where
  "session_wf s \<longleftrightarrow>
     tables_ok s \<and> config_ok s \<and> unique_targets (h_rule s) (h_session s) \<and>
     (\<forall>p x. h_session s p = Some x \<longrightarrow> session_ok (h_rule s) x)"

text \<open>The same while session \<open>p\<close> is being filled in.\<close>

definition session_wf_but :: "ptr \<Rightarrow> 'a session_state_scheme \<Rightarrow> bool" where
  "session_wf_but p s \<longleftrightarrow>
     tables_ok s \<and> config_ok s \<and> unique_targets (h_rule s) (h_session s) \<and>
     (\<forall>q x. q \<noteq> p \<longrightarrow> h_session s q = Some x \<longrightarrow> session_ok (h_rule s) x)"

definition daemon_inv :: "'a session_state_scheme \<Rightarrow> bool" where
  "daemon_inv s \<longleftrightarrow> session_wf s \<and> iface_inv (refs_of s) s"

subsection \<open>Frames\<close>

text \<open>What the operations on sessions leave alone: the configuration, the clock, the routes.\<close>

definition session_frame :: "'a session_state_scheme \<Rightarrow> 'a session_state_scheme \<Rightarrow> bool" where
  "session_frame s s' \<longleftrightarrow>
     h_rule s' = h_rule s \<and> h_proxy s' = h_proxy s \<and> ndL_proxies s' = ndL_proxies s \<and>
     ndL_hash_seed s' = ndL_hash_seed s \<and> nd_current_time s' = nd_current_time s \<and>
     ndL_routes s' = ndL_routes s \<and> ndL_addrs s' = ndL_addrs s \<and> heap_next s \<le> heap_next s' \<and>
     nd_conf_invalid_ttl s' = nd_conf_invalid_ttl s \<and> nd_conf_valid_ttl s' = nd_conf_valid_ttl s \<and>
     nd_conf_stale_ttl s' = nd_conf_stale_ttl s \<and> nd_conf_retrans_limit s' = nd_conf_retrans_limit s \<and>
     nd_conf_retrans_time s' = nd_conf_retrans_time s \<and> nd_conf_keepalive s' = nd_conf_keepalive s \<and>
     (\<forall>q i'. h_iface s' q = Some i' \<longrightarrow>
        if_proxy i' = None \<or> (\<exists>i. h_iface s q = Some i \<and> if_proxy i' = if_proxy i))"

lemma session_fields_of_more:
  fixes s s' :: "'a session_state_scheme"
  assumes "iface_state.more s' = iface_state.more s"
  shows "h_session s' = h_session s" "h_rule s' = h_rule s" "h_proxy s' = h_proxy s" "ndL_proxies s' = ndL_proxies s"
    "ndL_sessions s' = ndL_sessions s" "ndL_sessions_r s' = ndL_sessions_r s"
    "ndL_session_count s' = ndL_session_count s" "ndL_hash_seed s' = ndL_hash_seed s"
    "nd_conf_invalid_ttl s' = nd_conf_invalid_ttl s" "nd_conf_valid_ttl s' = nd_conf_valid_ttl s"
    "nd_conf_stale_ttl s' = nd_conf_stale_ttl s" "nd_conf_retrans_limit s' = nd_conf_retrans_limit s"
    "nd_conf_retrans_time s' = nd_conf_retrans_time s" "nd_conf_keepalive s' = nd_conf_keepalive s"
  using assms by (cases s; cases s'; simp)+

lemmas iface_step_session = iface_step_sameD(1) [THEN session_fields_of_more(1)]
  iface_step_sameD(1) [THEN session_fields_of_more(2)] iface_step_sameD(1) [THEN session_fields_of_more(3)]
  iface_step_sameD(1) [THEN session_fields_of_more(4)] iface_step_sameD(1) [THEN session_fields_of_more(5)]
  iface_step_sameD(1) [THEN session_fields_of_more(6)] iface_step_sameD(1) [THEN session_fields_of_more(7)]
  iface_step_sameD(1) [THEN session_fields_of_more(8)] iface_step_sameD(1) [THEN session_fields_of_more(9)]
  iface_step_sameD(1) [THEN session_fields_of_more(10)] iface_step_sameD(1) [THEN session_fields_of_more(11)]
  iface_step_sameD(1) [THEN session_fields_of_more(12)] iface_step_sameD(1) [THEN session_fields_of_more(13)]
  iface_step_sameD(1) [THEN session_fields_of_more(14)]

lemma iface_step_proxy:
  assumes "iface_step s s'" "h_iface s' q = Some i'"
  shows "if_proxy i' = None \<or> (\<exists>i. h_iface s q = Some i \<and> if_proxy i' = if_proxy i)"
proof (cases "h_iface s q")
  case (Some i)
  then have "i' = i\<lparr>if_refcount := if_refcount i'\<rparr>" using iface_step_iface [OF assms] by simp
  then have "if_proxy i' = if_proxy (i\<lparr>if_refcount := if_refcount i'\<rparr>)" by (rule arg_cong)
  with Some show ?thesis by simp
next
  case None
  then show ?thesis using iface_step_iface [OF assms] by simp
qed

lemma iface_step_frame: "iface_step s s' \<Longrightarrow> session_frame (s :: 'a session_state_scheme) s'"
  unfolding session_frame_def
  by (simp add: iface_step_session iface_step_sameD iface_step_proxy)

lemma session_frame_refl [simp]: "session_frame s s"
  by (auto simp: session_frame_def)

lemma session_frame_trans: "session_frame s s' \<Longrightarrow> session_frame s' s'' \<Longrightarrow> session_frame s s''"
  unfolding session_frame_def by (elim conjE, intro conjI) (auto, metis+)

subsection \<open>Changing one session\<close>

text \<open>The fields by which the rest of the program reaches a session.\<close>

definition same_links :: "nd_session \<Rightarrow> nd_session \<Rightarrow> bool" where
  "same_links x y \<longleftrightarrow> s_rule y = s_rule x \<and> s_tgt y = s_tgt x \<and> s_tgt_r y = s_tgt_r x"

lemma put_session_sel [simp]:
  "h_session (put_session p y s) = (h_session s)(p \<mapsto> y)" "h_iface (put_session p y s) = h_iface s"
  "h_rule (put_session p y s) = h_rule s" "h_proxy (put_session p y s) = h_proxy s"
  "ndL_sessions (put_session p y s) = ndL_sessions s" "ndL_sessions_r (put_session p y s) = ndL_sessions_r s"
  "ndL_hash_seed (put_session p y s) = ndL_hash_seed s" "heap_next (put_session p y s) = heap_next s"
  "ndL_session_count (put_session p y s) = ndL_session_count s" "nd_current_time (put_session p y s) = nd_current_time s"
  "ndL_routes (put_session p y s) = ndL_routes s" "ndL_addrs (put_session p y s) = ndL_addrs s"
  "ndL_first_iface (put_session p y s) = ndL_first_iface s" "ndL_proxies (put_session p y s) = ndL_proxies s"
  "nd_conf_invalid_ttl (put_session p y s) = nd_conf_invalid_ttl s"
  "nd_conf_valid_ttl (put_session p y s) = nd_conf_valid_ttl s"
  "nd_conf_stale_ttl (put_session p y s) = nd_conf_stale_ttl s"
  "nd_conf_retrans_limit (put_session p y s) = nd_conf_retrans_limit s"
  "nd_conf_retrans_time (put_session p y s) = nd_conf_retrans_time s"
  "nd_conf_keepalive (put_session p y s) = nd_conf_keepalive s"
  "out (put_session p y s) = out s" "ndL_io (put_session p y s) = ndL_io s"
  "nd_iface_no_restore_flags (put_session p y s) = nd_iface_no_restore_flags s"
  "nd_rt_dump_timeout (put_session p y s) = nd_rt_dump_timeout s"
  by (simp_all add: put_session_def)

lemma iface_inv_put [simp]: "iface_inv refs (put_session p y s) = iface_inv refs s"
  by (simp add: iface_inv_def)

lemma session_frame_put [simp]: "session_frame s (put_session p y s)"
  by (auto simp: session_frame_def)

lemma session_frame_out [simp]: "session_frame s (s\<lparr>out := t\<rparr>)"
  by (auto simp: session_frame_def)

lemma tables_ok_put:
  assumes "tables_ok s" "h_session s p = Some x" "same_links x y"
  shows "tables_ok (put_session p y s)"
  using assms unfolding tables_ok_def same_links_def
  by (auto simp: insert_absorb domI intro!: buckets.index_update [of _ s_tgt] buckets.index_update [of _ s_tgt_r])

lemma config_ok_put [simp]: "config_ok (put_session p y s) = config_ok s"
  by (simp add: config_ok_def rule_ok_def proxy_ok_def)

lemma unique_targets_put:
  assumes "unique_targets rules h" "h p = Some x" "same_links x y"
  shows "unique_targets rules (h(p \<mapsto> y))"
  using assms unfolding unique_targets_def same_links_def proxy_of_def
  by (auto split: if_splits)

lemma session_wf_but: "session_wf s \<Longrightarrow> session_wf_but p s"
  by (simp add: session_wf_def session_wf_but_def)

lemma session_wf_put:
  assumes "session_wf_but p s" "h_session s p = Some x" "same_links x y" "session_ok (h_rule s) y"
  shows "session_wf (put_session p y s)"
  using assms tables_ok_put [of s p x y] unique_targets_put [of "h_rule s" "h_session s" p x y]
  by (simp add: session_wf_def session_wf_but_def)

lemma session_wfD:
  assumes "session_wf s"
  shows "tables_ok s" "config_ok s" "unique_targets (h_rule s) (h_session s)"
    "\<And>p x. h_session s p = Some x \<Longrightarrow> session_ok (h_rule s) x" "finite (dom (h_session s))"
    "finite (dom (h_rule s))" "finite (dom (h_proxy s))"
    "\<And>p r. h_rule s p = Some r \<Longrightarrow> rule_ok s r" "\<And>p x. h_proxy s p = Some x \<Longrightarrow> proxy_ok s p x"
  using assms by (auto simp: session_wf_def tables_ok_def config_ok_def)

lemma daemon_invD:
  assumes "daemon_inv s"
  shows "session_wf s" "iface_inv (refs_of s) s"
  using assms by (simp_all add: daemon_inv_def)

lemma refs_put_same:
  assumes "finite (dom (h_session s))" "h_session s p = Some x" "s_iface y = s_iface x"
  shows "refs_of (put_session p y s) = refs_of s"
  using assms by (auto simp: refs_of_def fun_eq_iff heap_count_same)

lemma refs_put_open:
  assumes "finite (dom (h_session s))" "h_session s p = Some x" "s_iface x = None" "s_iface y = Some ip"
  shows "refs_of (put_session p y s) = (refs_of s)(ip := refs_of s ip + 1)"
proof
  fix q
  show "refs_of (put_session p y s) q = ((refs_of s)(ip := refs_of s ip + 1)) q"
    using heap_count_update [OF assms(1,2), of "\<lambda>x. s_iface x = Some q" y] assms(3,4)
    by (auto simp: refs_of_def)
qed

lemma refs_session: "finite (dom (h_session s)) \<Longrightarrow> h_session s p = Some x \<Longrightarrow> s_iface x = Some ip \<Longrightarrow> 0 < refs_of s ip"
  by (simp add: refs_of_def heap_count_pos)

lemma refs_rule: "finite (dom (h_rule s)) \<Longrightarrow> h_rule s p = Some x \<Longrightarrow> r_iface x = Some ip \<Longrightarrow> 0 < refs_of s ip"
  by (simp add: refs_of_def heap_count_pos)

lemma refs_proxy: "finite (dom (h_proxy s)) \<Longrightarrow> h_proxy s p = Some x \<Longrightarrow> p_iface x = Some ip \<Longrightarrow> 0 < refs_of s ip"
  by (simp add: refs_of_def heap_count_pos)

text \<open>
  An operation on session \<open>p\<close>: it is safe, keeps the invariant, and leaves the configuration and
  the other sessions alone (\<open>session_safe\<close>); if it does not delete, the session is still
  there, under the same keys (\<open>session_op\<close>).
\<close>

definition session_safe :: "ptr \<Rightarrow> 'a session_state_scheme \<Rightarrow> 'a session_state_scheme option \<Rightarrow> bool" where
  "session_safe p s res \<longleftrightarrow>
     (\<exists>s'. res = Some s' \<and> daemon_inv s' \<and> session_frame s s' \<and>
           (\<forall>q. q \<noteq> p \<longrightarrow> h_session s' q = h_session s q))"

definition session_op :: "ptr \<Rightarrow> 'a session_state_scheme \<Rightarrow> 'a session_state_scheme option \<Rightarrow> bool" where
  "session_op p s res \<longleftrightarrow>
     (\<exists>s'. res = Some s' \<and> daemon_inv s' \<and> session_frame s s' \<and>
           (\<forall>q. q \<noteq> p \<longrightarrow> h_session s' q = h_session s q) \<and>
           (\<forall>x. h_session s p = Some x \<longrightarrow> (\<exists>y. h_session s' p = Some y \<and> same_links x y)))"

lemma session_op_safe: "session_op p s res \<Longrightarrow> session_safe p s res"
  by (auto simp: session_op_def session_safe_def)

lemma same_links_refl [simp]: "same_links x x"
  by (simp add: same_links_def)

lemma same_links_trans: "same_links x y \<Longrightarrow> same_links y z \<Longrightarrow> same_links x z"
  by (simp add: same_links_def)

lemma session_op_id [simp]: "daemon_inv s \<Longrightarrow> session_op p s (Some s)"
  by (simp add: session_op_def)

lemma session_op_trans: "session_op p s (Some s1) \<Longrightarrow> session_op p s1 res \<Longrightarrow> session_op p s res"
  unfolding session_op_def using session_frame_trans same_links_trans by fastforce

lemma session_op_bind:
  assumes "session_op p s m"
    and "\<And>s'. m = Some s' \<Longrightarrow> daemon_inv s' \<Longrightarrow> session_frame s s' \<Longrightarrow>
              (\<And>x. h_session s p = Some x \<Longrightarrow> \<exists>y. h_session s' p = Some y \<and> same_links x y) \<Longrightarrow>
              session_op p s' (f s')"
  shows "session_op p s (m \<bind> f)"
proof -
  obtain s' where s': "m = Some s'" "daemon_inv s'" "session_frame s s'"
    "\<forall>x. h_session s p = Some x \<longrightarrow> (\<exists>y. h_session s' p = Some y \<and> same_links x y)"
    using assms(1) unfolding session_op_def by blast
  have "session_op p s' (f s')" by (rule assms(2)) (use s' in auto)
  then show ?thesis using session_op_trans assms(1) s'(1) by simp
qed

lemma daemon_inv_put:
  assumes "daemon_inv s" "h_session s p = Some x" "same_links x y" "s_iface y = s_iface x" "session_ok (h_rule s) y"
  shows "daemon_inv (put_session p y s)"
  using assms session_wf_put [of p s x y] refs_put_same [of s p x y]
  by (simp add: daemon_inv_def session_wfD(5) session_wf_but)

lemma session_op_put:
  assumes "daemon_inv s" "h_session s p = Some x" "same_links x y" "s_iface y = s_iface x" "session_ok (h_rule s) y"
  shows "session_op p s (Some (put_session p y s))"
  using daemon_inv_put [OF assms] assms(2,3) by (simp add: session_op_def)

lemma daemon_inv_out [simp]: "daemon_inv (s\<lparr>out := t\<rparr>) = daemon_inv s"
  by (simp add: daemon_inv_def session_wf_def tables_ok_def config_ok_def rule_ok_def proxy_ok_def refs_of_def [abs_def])

lemma session_op_out: "daemon_inv s \<Longrightarrow> session_op p s (Some (s\<lparr>out := t\<rparr>))"
  by (simp add: session_op_def)

lemma session_op_send_ns:
  assumes "daemon_inv s" "0 < refs_of s ip"
  shows "session_op p s (nd_iface_send_ns (Some ip) tgt s)"
  using send_ok(1) [OF daemon_invD(2) [OF assms(1)] assms(2), of tgt] session_op_out [OF assms(1)] by auto

lemma session_op_send_na:
  assumes "daemon_inv s" "0 < refs_of s ip"
  shows "session_op p s (nd_iface_send_na (Some ip) dst dst_ll tgt tgt_ll r s)"
  using send_ok(2) [OF daemon_invD(2) [OF assms(1)] assms(2), of dst dst_ll tgt tgt_ll r] session_op_out [OF assms(1)]
  by auto

subsection \<open>The operations keep the invariant\<close>

lemma session_okD:
  assumes "daemon_inv s" "h_session s p = Some x"
  obtains r where "h_rule s (s_rule x) = Some r" "rule_ok s r" "session_ok (h_rule s) x"
proof -
  have "session_ok (h_rule s) x" by (rule session_wfD(4) [OF daemon_invD(1) [OF assms(1)] assms(2)])
  moreover from this obtain r where "h_rule s (s_rule x) = Some r" by (auto simp: session_ok_def)
  ultimately show ?thesis using that session_wfD(8) [OF daemon_invD(1) [OF assms(1)]] by blast
qed

lemma rule_proxy:
  assumes "daemon_inv s" "rule_ok s r"
  obtains px ip where "h_proxy s (r_proxy r) = Some px" "p_iface px = Some ip" "0 < refs_of s ip"
proof -
  obtain px where px: "h_proxy s (r_proxy r) = Some px" using assms(2) by (auto simp: rule_ok_def)
  then obtain ip where "p_iface px = Some ip"
    using session_wfD(9) [OF daemon_invD(1) [OF assms(1)]] by (fastforce simp: proxy_ok_def)
  with px show ?thesis
    using that refs_proxy [OF session_wfD(7) [OF daemon_invD(1) [OF assms(1)]]] by blast
qed

lemma live_iface: "daemon_inv s \<Longrightarrow> 0 < refs_of s ip \<Longrightarrow> \<exists>i. h_iface s ip = Some i"
  by (rule iface_inv_live [OF daemon_invD(2)])

lemma session_refs: "daemon_inv s \<Longrightarrow> h_session s p = Some x \<Longrightarrow> s_iface x = Some ip \<Longrightarrow> 0 < refs_of s ip"
  by (rule refs_session) (simp_all add: session_wfD(5) daemon_invD(1))

text \<open>Putting back a session with other timers, a state that needs no interface, or other counts.\<close>

lemma put_send_ns_op:
  assumes "daemon_inv s" "h_session s p = Some x" "same_links x y" "s_iface y = s_iface x" "session_ok (h_rule s) y"
    and "s_iface y = Some ip"
  shows "session_op p s (nd_iface_send_ns (Some ip) tgt (put_session p y s))"
proof (rule session_op_trans)
  show "session_op p s (Some (put_session p y s))" by (rule session_op_put [OF assms(1-5)])
  have inv: "daemon_inv (put_session p y s)" by (rule daemon_inv_put [OF assms(1-5)])
  then show "session_op p (put_session p y s) (nd_iface_send_ns (Some ip) tgt (put_session p y s))"
    by (rule session_op_send_ns) (rule session_refs [OF inv _ assms(6), of p], simp)
qed

lemma put_rt_op:
  assumes "daemon_inv s" "h_session s p = Some x" "same_links x y" "s_iface y = s_iface x" "session_ok (h_rule s) y"
  shows "session_op p s (Some (put_session p y (emit e s)))"
proof (rule session_op_trans)
  show "session_op p s (Some (emit e s))" by (simp add: emit_def session_op_out assms(1))
  show "session_op p (emit e s) (Some (put_session p y (emit e s)))"
    by (rule session_op_put [of _ _ x]) (use assms in \<open>simp_all add: emit_def\<close>)
qed

lemma ndL_up_op:
  assumes "daemon_inv s" "h_session s p = Some x"
  shows "session_op p s (ndL_up p s)"
proof -
  obtain r where r: "h_rule s (s_rule x) = Some r" "session_ok (h_rule s) x"
    using session_okD [OF assms] by metis
  show ?thesis
  proof (cases "s_iface x")
    case None
    then show ?thesis using assms by (simp add: ndL_up_def)
  next
    case (Some ip)
    obtain i where i: "h_iface s ip = Some i" using live_iface [OF assms(1) session_refs [OF assms Some]] by blast
    have "session_op p s (Some (put_session p (x\<lparr>s_autowired := True\<rparr>) (nd_rt_add_route a l oif t s)))" for a l oif t
      unfolding nd_rt_add_route_def
      by (rule put_rt_op [OF assms]) (use r Some in \<open>simp_all add: same_links_def session_ok_def\<close>)
    then show ?thesis using assms Some i r(1) by (simp add: ndL_up_def)
  qed
qed

lemma ndL_down_op:
  assumes "daemon_inv s" "h_session s p = Some x"
  shows "session_op p s (ndL_down p s)"
    and "\<exists>s' b. ndL_down p s = Some s' \<and> h_session s' p = Some (x\<lparr>s_autowired := b\<rparr>)"
proof -
  obtain r where r: "h_rule s (s_rule x) = Some r" "session_ok (h_rule s) x"
    using session_okD [OF assms] by metis
  have "session_op p s (Some (put_session p (x\<lparr>s_autowired := False\<rparr>) (nd_rt_remove_route a l t s)))" for a l t
    unfolding nd_rt_remove_route_def
    by (rule put_rt_op [OF assms]) (use r in \<open>simp_all add: same_links_def session_ok_def\<close>)
  then show "session_op p s (ndL_down p s)" using assms r(1) by (simp add: ndL_down_def)
  show "\<exists>s' b. ndL_down p s = Some s' \<and> h_session s' p = Some (x\<lparr>s_autowired := b\<rparr>)"
    using assms(2) r(1) by (auto simp: ndL_down_def intro: exI [of _ "s_autowired x"])
qed

lemma answer_ns_op:
  assumes "daemon_inv s" "h_rule s (s_rule x) = Some r" "rule_ok s r"
  shows "session_op p s (answer_ns x src src_ll s)"
proof -
  obtain px ip where px: "h_proxy s (r_proxy r) = Some px" "p_iface px = Some ip" "0 < refs_of s ip"
    using rule_proxy [OF assms(1,3)] by blast
  then show ?thesis
    using assms(2) session_op_send_na [OF assms(1) px(3)] by (simp add: answer_ns_def split: option.splits)
qed

lemma queue_sub_ok:
  assumes "session_ok rules x" "queue_sub src ll x = Some x'"
  shows "session_ok rules x'" "same_links x x'" "s_iface x' = s_iface x"
proof -
  have "x' = x \<or> (x' = x\<lparr>s_subs := \<lparr>sub_addr = src, sub_lladdr = ll\<rparr> # s_subs x\<rparr> \<and>
     length (s_subs x) < ND_SESSION_MAX_SUBS \<and> \<lparr>sub_addr = src, sub_lladdr = ll\<rparr> \<notin> set (s_subs x))"
    using assms(2) by (fastforce simp: queue_sub_def list_ex_iff split: if_splits)
  then show "session_ok rules x'" "same_links x x'" "s_iface x' = s_iface x"
    using assms(1) by (auto simp: session_ok_def same_links_def)
qed

text \<open>Opening an interface for a session that has none.\<close>

lemma tables_ok_step: "iface_step s s' \<Longrightarrow> tables_ok (s :: 'a session_state_scheme) \<Longrightarrow> tables_ok s'"
proof -
  assume a: "iface_step s s'" and b: "tables_ok s"
  have "\<forall>p\<in>dom (h_session s). p < heap_next s'"
    using b iface_step_sameD(8) [OF a] by (auto simp: tables_ok_def intro: less_le_trans)
  with a b show ?thesis by (simp add: tables_ok_def iface_step_session)
qed

lemma session_wf_step: "iface_step s s' \<Longrightarrow> session_wf (s :: 'a session_state_scheme) \<Longrightarrow> session_wf s'"
  using tables_ok_step [of s s']
  by (simp add: session_wf_def config_ok_def rule_ok_def proxy_ok_def iface_step_session)

lemma session_wf_but_step: "iface_step s s' \<Longrightarrow> session_wf_but p (s :: 'a session_state_scheme) \<Longrightarrow> session_wf_but p s'"
  using tables_ok_step [of s s']
  by (simp add: session_wf_but_def config_ok_def rule_ok_def proxy_ok_def iface_step_session)

lemma refs_of_step: "iface_step s s' \<Longrightarrow> refs_of (s' :: 'a session_state_scheme) = refs_of s"
  by (simp add: refs_of_def [abs_def] iface_step_session)

lemma open_op:
  fixes s :: "'a session_state_scheme"
  assumes "iface_inv (refs_of s) s" "kernel_ok k"
  obtains r s' where "nd_iface_open k None index pr s = Some (r, s')" "iface_step s s'"
    "iface_inv (case r of None \<Rightarrow> refs_of s' | Some ip \<Rightarrow> (refs_of s')(ip := refs_of s' ip + 1)) s'"
proof -
  obtain r s' where o: "nd_iface_open k None index pr s = Some (r, s')" "iface_step s s'"
    "iface_inv (case r of None \<Rightarrow> refs_of s | Some p \<Rightarrow> (refs_of s)(p := refs_of s p + 1)) s'"
    by (rule nd_iface_openE [OF assms, of None index pr]) auto
  show ?thesis by (rule that [OF o(1,2)]) (simp only: refs_of_step [OF o(2)] o(3))
qed

lemma session_op_step:
  assumes "iface_step s s1" "session_op p s1 res"
  shows "session_op p (s :: 'a session_state_scheme) res"
  using assms(2) session_frame_trans [OF iface_step_frame [OF assms(1)]] iface_step_session(1) [OF assms(1)]
  by (auto simp: session_op_def)

lemma start_probing_op:
  assumes "session_wf_but p s" "iface_inv ((refs_of s)(ip := refs_of s ip + 1)) s" "h_session s p = Some x" "s_iface x = None"
    and "same_links x y" "s_iface y = Some ip" "session_ok (h_rule s) (y\<lparr>s_state := ND_STATE_INCOMPLETE, ons_count := 1\<rparr>)"
  shows "session_op p s (start_probing p y s)"
proof -
  let ?y = "y\<lparr>s_state := ND_STATE_INCOMPLETE, ons_count := 1, ons_time := nd_current_time s\<rparr>"
  let ?s = "put_session p ?y s"
  have ok: "session_ok (h_rule s) ?y" using assms(7) by (simp add: session_ok_def)
  have links: "same_links x ?y" using assms(5) by (simp add: same_links_def)
  have "session_wf ?s" by (rule session_wf_put [OF assms(1,3) links ok])
  moreover have "refs_of ?s = (refs_of s)(ip := refs_of s ip + 1)"
    using assms(1) by (intro refs_put_open [OF _ assms(3,4)]) (simp_all add: assms(6) session_wf_but_def tables_ok_def)
  ultimately have inv: "daemon_inv ?s" using assms(2) by (simp add: daemon_inv_def)
  then have op: "session_op p s (Some ?s)" using assms(3) links by (simp add: session_op_def)
  have "session_op p ?s (nd_iface_send_ns (Some ip) (s_tgt_r ?y) ?s)"
    by (rule session_op_send_ns [OF inv], rule session_refs [OF inv, of p ?y]) (simp_all add: assms(6))
  from session_op_trans [OF op this] show ?thesis by (simp add: start_probing_def Let_def assms(6))
qed

lemma retry_route_op:
  fixes s :: "'a session_state_scheme"
  assumes "daemon_inv s" "kernel_ok k" "h_session s p = Some x"
  shows "session_op p s (retry_route k p s)"
proof (cases "s_state x = ND_STATE_INVALID \<and> s_iface x = None")
  case False
  then show ?thesis using assms by (auto simp: retry_route_def)
next
  case True
  obtain r where r: "h_rule s (s_rule x) = Some r" "rule_ok s r" "session_ok (h_rule s) x"
    by (rule session_okD [OF assms(1,3)])
  obtain px ip where px: "h_proxy s (r_proxy r) = Some px" "p_iface px = Some ip" "0 < refs_of s ip"
    using rule_proxy [OF assms(1) r(2)] by blast
  obtain i where i: "h_iface s ip = Some i" using live_iface [OF assms(1) px(3)] by blast
  have "session_op p s (do {
        (io, s1) \<leftarrow> nd_iface_open k None oif False s;
        case io of None \<Rightarrow> Some s1
        | Some ip' \<Rightarrow> start_probing p (x\<lparr>s_iface := Some ip', state_time := nd_current_time s1\<rparr>) s1 })" for oif
  proof -
    obtain io s1 where io: "nd_iface_open k None oif False s = Some (io, s1)" "iface_step s s1"
      "iface_inv (case io of None \<Rightarrow> refs_of s1 | Some ip \<Rightarrow> (refs_of s1)(ip := refs_of s1 ip + 1)) s1"
      by (rule open_op [OF daemon_invD(2) [OF assms(1)] assms(2)])
    have wf1: "session_wf s1" by (rule session_wf_step [OF io(2) daemon_invD(1) [OF assms(1)]])
    have h: "h_session s1 p = Some x" "h_rule s1 = h_rule s" using io(2) assms(3) by (simp_all add: iface_step_session)
    show ?thesis
    proof (cases io)
      case None
      then have "daemon_inv s1" using io(3) wf1 by (simp add: daemon_inv_def)
      then show ?thesis using None io(1) session_op_step [OF io(2)] by simp
    next
      case (Some ip')
      have "session_op p s1 (start_probing p (x\<lparr>s_iface := Some ip', state_time := nd_current_time s1\<rparr>) s1)"
        by (rule start_probing_op [OF session_wf_but [OF wf1] _ h(1), of ip'])
          (use True Some io(3) h(2) r(3) in \<open>simp_all add: same_links_def session_ok_def\<close>)
      then show ?thesis using Some io(1) session_op_step [OF io(2)] by simp
    qed
  qed
  then show ?thesis using True assms r(1) px(1,2) i by (simp add: retry_route_def split: option.splits)
qed

lemma probe_stale_op:
  assumes "daemon_inv s" "h_session s p = Some x"
  shows "session_op p s (probe_stale p s)"
proof -
  obtain r where r: "session_ok (h_rule s) x" by (rule session_okD [OF assms])
  show ?thesis
  proof (cases "s_iface x")
    case None
    then show ?thesis using assms by (simp add: probe_stale_def)
  next
    case (Some ip)
    let ?y = "x\<lparr>ons_count := (if ons_count x = 0 then 1 else ons_count x), ons_time := nd_current_time s\<rparr>"
    have "session_op p s (nd_iface_send_ns (Some ip) (s_tgt_r x) (put_session p ?y s))"
      by (rule put_send_ns_op [OF assms]) (use Some r in \<open>simp_all add: same_links_def session_ok_def\<close>)
    then show ?thesis using assms Some by (simp add: probe_stale_def Let_def)
  qed
qed

lemma nd_session_handle_ns_op:
  fixes s :: "'a session_state_scheme"
  assumes "daemon_inv s" "kernel_ok k" "h_session s p = Some x0"
  shows "session_op p s (nd_session_handle_ns k p src src_ll s)"
proof -
  let ?x = "x0\<lparr>ins_time := nd_current_time s\<rparr>"
  let ?s = "put_session p ?x s"
  obtain r where r: "h_rule s (s_rule x0) = Some r" "rule_ok s r" "session_ok (h_rule s) x0"
    by (rule session_okD [OF assms(1,3)])
  have xok: "session_ok (h_rule s) ?x" using r(3) by (simp add: session_ok_def)
  have op: "session_op p s (Some ?s)"
    by (rule session_op_put [OF assms(1,3)]) (use xok in \<open>simp_all add: same_links_def\<close>)
  then have inv: "daemon_inv ?s" by (simp add: session_op_def)
  have r': "rule_ok ?s r" using r(2) by (simp add: rule_ok_def)
  have answer: "session_op p ?s (answer_ns ?x src src_ll ?s)"
    by (rule answer_ns_op [OF inv _ r']) (use r(1) in simp)
  have queue: "session_op p ?s (do { s2 \<leftarrow> retry_route k p (put_session p x' ?s); probe_stale p s2 })"
    if "queue_sub src ll ?x = Some x'" for ll x'
  proof -
    note q = queue_sub_ok [OF xok that]
    have op': "session_op p ?s (Some (put_session p x' ?s))"
      by (rule session_op_put [OF inv, of p ?x]) (use q in simp_all)
    then have inv': "daemon_inv (put_session p x' ?s)" by (simp add: session_op_def)
    have "session_op p (put_session p x' ?s) (do { s2 \<leftarrow> retry_route k p (put_session p x' ?s); probe_stale p s2 })"
    proof (rule session_op_bind [OF retry_route_op [OF inv' assms(2)]])
      show "h_session (put_session p x' ?s) p = Some x'" by simp
      fix s'
      assume "daemon_inv s'"
        and "\<And>x. h_session (put_session p x' ?s) p = Some x \<Longrightarrow> \<exists>y. h_session s' p = Some y \<and> same_links x y"
      then show "session_op p s' (probe_stale p s')" using probe_stale_op by fastforce
    qed
    then show ?thesis by (rule session_op_trans [OF op'])
  qed
  have "session_op p ?s (nd_session_handle_ns k p src src_ll s)"
    using assms(3) answer queue inv by (simp add: nd_session_handle_ns_def Let_def split: option.splits)
  then show ?thesis by (rule session_op_trans [OF op])
qed

lemma notify_op:
  assumes "daemon_inv s" "h_rule s (s_rule x) = Some r" "rule_ok s r"
  shows "session_op p s (foldM (notify_sub x) us s)"
  using assms
proof (induction us arbitrary: s)
  case (Cons u us)
  obtain px ip where px: "h_proxy s (r_proxy r) = Some px" "p_iface px = Some ip" "0 < refs_of s ip"
    using rule_proxy [OF Cons.prems(1,3)] by blast
  have "session_op p s (notify_sub x u s)"
    using session_op_send_na [OF Cons.prems(1) px(3)] px Cons.prems(2) by (simp add: notify_sub_def)
  then show ?case
    unfolding foldM.simps
  proof (rule session_op_bind)
    fix s'
    assume "daemon_inv s'" "session_frame s s'"
    then show "session_op p s' (foldM (notify_sub x) us s')"
      using Cons.IH [of s'] Cons.prems(2,3) by (simp add: session_frame_def rule_ok_def)
  qed
qed simp

lemma notify_sub_out: "notify_sub x u s = Some s' \<Longrightarrow> \<exists>t. s' = s\<lparr>out := t\<rparr>"
  using send_na_out by (fastforce simp: notify_sub_def bind_eq_Some_conv)

lemma notify_out: "foldM (notify_sub x) us s = Some s' \<Longrightarrow> \<exists>t. s' = s\<lparr>out := t\<rparr>"
proof (induction us arbitrary: s)
  case Nil
  then show ?case by (auto intro: exI [of _ "out s"])
next
  case (Cons u us)
  then obtain s1 where s1: "notify_sub x u s = Some s1" "foldM (notify_sub x) us s1 = Some s'"
    by (auto simp: bind_eq_Some_conv)
  obtain t where "s1 = s\<lparr>out := t\<rparr>" using notify_sub_out [OF s1(1)] by blast
  moreover obtain t' where "s' = s1\<lparr>out := t'\<rparr>" using Cons.IH [OF s1(2)] by blast
  ultimately show ?case by auto
qed

lemma nd_session_handle_na_op:
  assumes "daemon_inv s" "h_session s p = Some x"
  shows "session_op p s (nd_session_handle_na p s)"
proof -
  obtain r where r: "h_rule s (s_rule x) = Some r" "rule_ok s r" "session_ok (h_rule s) x"
    by (rule session_okD [OF assms])
  show ?thesis
  proof (cases "s_state x = ND_STATE_VALID")
    case True
    have "session_op p s (Some (put_session p (x\<lparr>state_time := nd_current_time s\<rparr>) s))"
      by (rule session_op_put [OF assms]) (use r(3) in \<open>simp_all add: same_links_def session_ok_def\<close>)
    with True show ?thesis using assms(2) by (simp add: nd_session_handle_na_def)
  next
    case False
    have "session_op p s (do {
        s1 \<leftarrow> foldM (notify_sub x) (s_subs x) s;
        s3 \<leftarrow> ndL_up p (put_session p (x\<lparr>s_subs := []\<rparr>) s1);
        y \<leftarrow> h_session s3 p;
        Some (put_session p (y\<lparr>s_state := ND_STATE_VALID, state_time := nd_current_time s3\<rparr>) s3) })"
    proof (rule session_op_bind [OF notify_op [OF assms(1) r(1,2)]])
      fix s1
      assume "foldM (notify_sub x) (s_subs x) s = Some s1" and inv1: "daemon_inv s1"
      then obtain t where s1: "s1 = s\<lparr>out := t\<rparr>" using notify_out by blast
      let ?s2 = "put_session p (x\<lparr>s_subs := []\<rparr>) s1"
      have op2: "session_op p s1 (Some ?s2)"
        by (rule session_op_put [OF inv1, of p x]) (use assms r(3) s1 in \<open>simp_all add: same_links_def session_ok_def\<close>)
      then have inv2: "daemon_inv ?s2" by (simp add: session_op_def)
      have "session_op p ?s2 (do {
        s3 \<leftarrow> ndL_up p ?s2;
        y \<leftarrow> h_session s3 p;
        Some (put_session p (y\<lparr>s_state := ND_STATE_VALID, state_time := nd_current_time s3\<rparr>) s3) })"
      proof (rule session_op_bind [OF ndL_up_op [OF inv2]])
        show "h_session ?s2 p = Some (x\<lparr>s_subs := []\<rparr>)" by simp
        fix s3
        assume inv3: "daemon_inv s3"
          and "\<And>x'. h_session ?s2 p = Some x' \<Longrightarrow> \<exists>y. h_session s3 p = Some y \<and> same_links x' y"
        then obtain y where y: "h_session s3 p = Some y" by fastforce
        have "session_ok (h_rule s3) y" by (rule session_wfD(4) [OF daemon_invD(1) [OF inv3] y])
        then have "session_op p s3 (Some (put_session p (y\<lparr>s_state := ND_STATE_VALID, state_time := nd_current_time s3\<rparr>) s3))"
          by (intro session_op_put [OF inv3 y]) (simp_all add: same_links_def session_ok_def)
        then show "session_op p s3 (do { y \<leftarrow> h_session s3 p;
          Some (put_session p (y\<lparr>s_state := ND_STATE_VALID, state_time := nd_current_time s3\<rparr>) s3) })"
          using y by simp
      qed
      then show "session_op p s1 (do {
        s3 \<leftarrow> ndL_up p ?s2;
        y \<leftarrow> h_session s3 p;
        Some (put_session p (y\<lparr>s_state := ND_STATE_VALID, state_time := nd_current_time s3\<rparr>) s3) })"
        by (rule session_op_trans [OF op2])
    qed
    then show ?thesis using False assms(2) r(1) by (simp add: nd_session_handle_na_def Let_def)
  qed
qed

lemma update_incomplete_op:
  assumes "daemon_inv s" "h_session s p = Some x" "s_state x = ND_STATE_INCOMPLETE"
  shows "session_op p s (update_incomplete p x s)"
proof -
  obtain r where r: "session_ok (h_rule s) x" by (rule session_okD [OF assms(1,2)])
  then obtain ip where ip: "s_iface x = Some ip" using assms(3) by (auto simp: session_ok_def)
  obtain i where i: "h_iface s ip = Some i" using live_iface [OF assms(1) session_refs [OF assms(1,2) ip]] by blast
  let ?y = "x\<lparr>ons_count := ons_count x + 1\<rparr>"
  have put: "session_op p s (Some (put_session p y s))"
    if "y \<in> {x\<lparr>ons_time := nd_current_time s\<rparr>, x\<lparr>s_state := ND_STATE_INVALID, state_time := nd_current_time s\<rparr>,
            ?y\<lparr>s_state := ND_STATE_INVALID, state_time := nd_current_time s\<rparr>}" for y
    by (rule session_op_put [OF assms(1,2)]) (use that r in \<open>auto simp: same_links_def session_ok_def\<close>)
  have "session_op p s (nd_iface_send_ns (Some ip) (s_tgt_r x) (put_session p ?y s))"
    by (rule put_send_ns_op [OF assms(1,2)]) (use ip r in \<open>simp_all add: same_links_def session_ok_def\<close>)
  then show ?thesis using put i ip assms(1) by (simp add: update_incomplete_def Let_def)
qed

lemma update_stale_op:
  assumes "daemon_inv s" "h_session s p = Some x" "s_state x = ND_STATE_STALE"
  shows "session_op p s (update_stale p x s)"
proof -
  obtain r where r: "session_ok (h_rule s) x" by (rule session_okD [OF assms(1,2)])
  then obtain ip where ip: "s_iface x = Some ip" using assms(3) by (auto simp: session_ok_def)
  let ?y = "x\<lparr>ons_count := ons_count x + 1, ons_time := nd_current_time s\<rparr>"
  have "session_op p s (Some (put_session p (x\<lparr>s_state := ND_STATE_INVALID, state_time := nd_current_time s\<rparr>) s))"
    by (rule session_op_put [OF assms(1,2)]) (use r in \<open>simp_all add: same_links_def session_ok_def\<close>)
  moreover have "session_op p s (nd_iface_send_ns (Some ip) (s_tgt_r x) (put_session p ?y s))"
    by (rule put_send_ns_op [OF assms(1,2)]) (use ip r in \<open>simp_all add: same_links_def session_ok_def\<close>)
  ultimately show ?thesis using assms(1) ip by (simp add: update_stale_def Let_def)
qed

lemma update_valid_op:
  assumes "daemon_inv s" "h_session s p = Some x"
  shows "session_op p s (update_valid p x s)"
proof -
  obtain r where r: "h_rule s (s_rule x) = Some r" "session_ok (h_rule s) x" by (rule session_okD [OF assms])
  have live: "\<exists>i. h_iface s ip = Some i" if "r_iface r = Some ip" for ip
    using live_iface [OF assms(1) refs_rule [OF session_wfD(6) [OF daemon_invD(1) [OF assms(1)]] r(1) that]] .
  have put: "session_op p s (Some (put_session p y s))"
    if "y = x\<lparr>state_time := nd_current_time s\<rparr> \<or> y = x\<lparr>s_state := ND_STATE_INVALID, state_time := nd_current_time s\<rparr>" for y
    by (rule session_op_put [OF assms]) (use that r in \<open>auto simp: same_links_def session_ok_def\<close>)
  let ?y = "\<lambda>n. x\<lparr>s_state := ND_STATE_STALE, state_time := nd_current_time s, ons_time := nd_current_time s, ons_count := n\<rparr>"
  show ?thesis
  proof (cases "s_iface x")
    case None
    then show ?thesis using assms r(1) put live
      by (cases "r_iface r") (auto simp: update_valid_def)
  next
    case (Some ip)
    have "session_op p s (Some (put_session p (?y 0) s))"
      by (rule session_op_put [OF assms]) (use r Some in \<open>simp_all add: same_links_def session_ok_def\<close>)
    moreover have "session_op p s (nd_iface_send_ns (Some ip) (s_tgt_r x) (put_session p (?y 1) s))"
      by (rule put_send_ns_op [OF assms]) (use Some r in \<open>simp_all add: same_links_def session_ok_def\<close>)
    ultimately show ?thesis using assms Some by (simp add: update_valid_def Let_def)
  qed
qed

end
