(* ===== verification/Session_Ops.thy ===== *)
theory Session_Ops
  imports Session_Inv
begin

text \<open>
  The rest of the safety and invariant proofs for \<^verbatim>\<open>src/session.c\<close>: creating a session, deleting
  one when it has been INVALID long enough, the two searches, and the sweeps over all
  chains (\<open>nd_session_update_all\<close>, \<open>nd_session_iface_changed\<close>).
\<close>

subsection \<open>Searching\<close>

lemma nd_session_find_spec:
  assumes "daemon_inv s"
  shows "\<exists>r. nd_session_find tgt pp s = Some r \<and>
     (case r of
        None \<Rightarrow> \<forall>p x. h_session s p = Some x \<longrightarrow> \<not> (proxy_of (h_rule s) x = Some pp \<and> s_tgt x = tgt)
      | Some p \<Rightarrow> \<exists>x. h_session s p = Some x \<and> proxy_of (h_rule s) x = Some pp \<and> s_tgt x = tgt)"
proof -
  let ?b = "ndL_sessions s ! NDL_BUCKET (ndL_hash_seed s) tgt"
  have idx: "index_ok (NDL_BUCKET (ndL_hash_seed s)) NDPPD_SESSION_BUCKETS s_tgt (h_session s) (ndL_sessions s)"
    using session_wfD(1) [OF daemon_invD(1) [OF assms]] by (simp add: tables_ok_def)
  have "nd_session_find tgt pp s = heap_find (h_session s) (\<lambda>x. proxy_of (h_rule s) x = Some pp \<and> s_tgt x = tgt) ?b"
    unfolding nd_session_find_def
  proof (rule heap_findM_heap_find)
    fix p x
    assume "h_session s p = Some x"
    then obtain r where "h_rule s (s_rule x) = Some r" using session_okD [OF assms] by metis
    then show "(do { r \<leftarrow> h_rule s (s_rule x); Some (r_proxy r = pp \<and> nd_addr_eq (s_tgt x) tgt) }) =
      Some (proxy_of (h_rule s) x = Some pp \<and> s_tgt x = tgt)" by (simp add: proxy_of_def)
  qed
  then show ?thesis using buckets.index_search [OF idx] by simp
qed

lemma nd_session_find_r_spec:
  assumes "daemon_inv s"
  shows "\<exists>r. nd_session_find_r tgt ip s = Some r \<and>
     (case r of
        None \<Rightarrow> \<forall>p x. h_session s p = Some x \<longrightarrow> \<not> (s_iface x = Some ip \<and> s_tgt_r x = tgt)
      | Some p \<Rightarrow> \<exists>x. h_session s p = Some x \<and> s_iface x = Some ip \<and> s_tgt_r x = tgt)"
proof -
  have idx: "index_ok (NDL_BUCKET (ndL_hash_seed s)) NDPPD_SESSION_BUCKETS s_tgt_r (h_session s) (ndL_sessions_r s)"
    using session_wfD(1) [OF daemon_invD(1) [OF assms]] by (simp add: tables_ok_def)
  show ?thesis using buckets.index_search [OF idx, of "\<lambda>x. s_iface x = Some ip" tgt] by (simp add: nd_session_find_r_def)
qed

subsection \<open>Deleting\<close>

lemma unlink_sel [simp]:
  "h_session (unlink_session p x s) = (h_session s)(p := None)" "h_iface (unlink_session p x s) = h_iface s"
  "h_rule (unlink_session p x s) = h_rule s" "h_proxy (unlink_session p x s) = h_proxy s"
  "heap_next (unlink_session p x s) = heap_next s" "ndL_hash_seed (unlink_session p x s) = ndL_hash_seed s"
  "ndL_first_iface (unlink_session p x s) = ndL_first_iface s"
  "ndL_session_count (unlink_session p x s) = ndL_session_count s - 1"
  by (simp_all add: unlink_session_def Let_def)

lemma session_frame_unlink: "session_frame s (unlink_session p x s)"
  by (auto simp: session_frame_def unlink_session_def Let_def)

lemma tables_ok_unlink:
  assumes "tables_ok s" "h_session s p = Some x"
  shows "tables_ok (unlink_session p x s)"
proof -
  have "Suc (card (dom (h_session s) - {p})) = card (dom (h_session s))"
    using card_dom_remove [of "h_session s" p x] assms by (simp add: tables_ok_def)
  then show ?thesis
    using assms unfolding tables_ok_def
    by (auto simp: unlink_session_def Let_def intro!: buckets.index_delete)
qed

lemma refs_unlink:
  assumes "finite (dom (h_session s))" "h_session s p = Some x"
  shows "refs_of (unlink_session p x s) =
         (case s_iface x of None \<Rightarrow> refs_of s | Some ip \<Rightarrow> (refs_of s)(ip := refs_of s ip - 1))"
proof
  fix q
  show "refs_of (unlink_session p x s) q =
         (case s_iface x of None \<Rightarrow> refs_of s | Some ip \<Rightarrow> (refs_of s)(ip := refs_of s ip - 1)) q"
    using heap_count_remove [OF assms, of "\<lambda>x. s_iface x = Some q"]
    by (cases "s_iface x") (auto simp: refs_of_def)
qed

lemma session_wf_unlink:
  assumes "session_wf s" "h_session s p = Some x"
  shows "session_wf (unlink_session p x s)"
  using assms tables_ok_unlink [of s p x]
  by (auto simp: session_wf_def config_ok_def rule_ok_def proxy_ok_def unique_targets_def split: if_splits)

text \<open>Closing the interface and unlinking, in the order of the code.\<close>

lemma close_unlink:
  fixes s :: "'a session_state_scheme"
  assumes "daemon_inv s" "h_session s p = Some x"
  shows "\<exists>s'. (case s_iface x of None \<Rightarrow> Some s | Some ip \<Rightarrow> nd_iface_close ip s) = Some s' \<and>
              daemon_inv (unlink_session p x s') \<and> session_frame s (unlink_session p x s') \<and>
              (\<forall>q. q \<noteq> p \<longrightarrow> h_session s' q = h_session s q)"
proof (cases "s_iface x")
  case None
  then have "daemon_inv (unlink_session p x s)"
    using assms session_wf_unlink [of s p x] refs_unlink [of s p x]
    by (simp add: daemon_inv_def session_wfD(5) iface_inv_def)
  then show ?thesis using None session_frame_unlink by auto
next
  case (Some ip)
  obtain s' where s': "nd_iface_close ip s = Some s'" "iface_inv ((refs_of s)(ip := refs_of s ip - 1)) s'" "iface_step s s'"
    using nd_iface_close_ok [OF daemon_invD(2) [OF assms(1)] session_refs [OF assms Some]] by blast
  have wf: "session_wf s'" by (rule session_wf_step [OF s'(3) daemon_invD(1) [OF assms(1)]])
  have hs: "h_session s' = h_session s" using s'(3) by (simp add: iface_step_session)
  have "refs_of (unlink_session p x s') = (refs_of s)(ip := refs_of s ip - 1)"
    using refs_unlink [OF session_wfD(5) [OF wf], of p x] hs assms(2) Some refs_of_step [OF s'(3)] by simp
  then have "daemon_inv (unlink_session p x s')"
    using session_wf_unlink [OF wf, of p x] hs assms(2) s'(2) by (simp add: daemon_inv_def iface_inv_def)
  moreover have "session_frame s (unlink_session p x s')"
    by (rule session_frame_trans [OF iface_step_frame [OF s'(3)] session_frame_unlink])
  ultimately show ?thesis using Some s'(1) hs by auto
qed

lemma update_invalid_safe:
  assumes "daemon_inv s" "h_session s p = Some x"
  shows "session_safe p s (update_invalid p x s)"
proof (cases "nd_current_time s - state_time x < nd_conf_invalid_ttl s")
  case True
  then show ?thesis using session_op_safe [OF session_op_id [OF assms(1), of p]] by (simp add: update_invalid_def)
next
  case False
  obtain s1 b where s1: "ndL_down p s = Some s1" "h_session s1 p = Some (x\<lparr>s_autowired := b\<rparr>)"
    using ndL_down_op(2) [OF assms] by blast
  then have op1: "daemon_inv s1" "session_frame s s1" "\<forall>q. q \<noteq> p \<longrightarrow> h_session s1 q = h_session s q"
    using ndL_down_op(1) [OF assms] by (auto simp: session_op_def)
  obtain s2 where s2: "(case s_iface x of None \<Rightarrow> Some s1 | Some ip \<Rightarrow> nd_iface_close ip s1) = Some s2"
    "daemon_inv (unlink_session p (x\<lparr>s_autowired := b\<rparr>) s2)"
    "session_frame s1 (unlink_session p (x\<lparr>s_autowired := b\<rparr>) s2)" "\<forall>q. q \<noteq> p \<longrightarrow> h_session s2 q = h_session s1 q"
    using close_unlink [OF op1(1) s1(2)] by auto
  have eq: "unlink_session p (x\<lparr>s_autowired := b\<rparr>) s2 = unlink_session p x s2"
    by (simp add: unlink_session_def)
  have "update_invalid p x s = Some (unlink_session p x s2)"
    using False s1(1) s2(1) by (simp add: update_invalid_def)
  then show ?thesis
    using s2 op1 session_frame_trans [OF op1(2) s2(3)] by (auto simp: session_safe_def eq)
qed

lemma nd_session_update_safe:
  assumes "daemon_inv s" "h_session s p = Some x"
  shows "session_safe p s (nd_session_update p s)"
  using assms update_invalid_safe [OF assms] update_valid_op [OF assms, THEN session_op_safe]
    update_incomplete_op [OF assms, THEN session_op_safe] update_stale_op [OF assms, THEN session_op_safe]
  by (cases "s_state x") (simp_all add: nd_session_update_def)

subsection \<open>Creating\<close>

lemma link_sel [simp]:
  "h_session (link_session p x s) = (h_session s)(p \<mapsto> x)" "h_iface (link_session p x s) = h_iface s"
  "h_rule (link_session p x s) = h_rule s" "h_proxy (link_session p x s) = h_proxy s"
  "heap_next (link_session p x s) = Suc (heap_next s)" "ndL_hash_seed (link_session p x s) = ndL_hash_seed s"
  "ndL_first_iface (link_session p x s) = ndL_first_iface s" "ndL_routes (link_session p x s) = ndL_routes s"
  "ndL_addrs (link_session p x s) = ndL_addrs s" "nd_current_time (link_session p x s) = nd_current_time s"
  "ndL_session_count (link_session p x s) = ndL_session_count s + 1"
  by (simp_all add: link_session_def Let_def)

lemma session_frame_link: "session_frame s (link_session p x s)"
  by (auto simp: session_frame_def link_session_def Let_def)

lemma fresh_session: "tables_ok s \<Longrightarrow> h_session s (heap_next s) = None"
  by (cases "h_session s (heap_next s)") (auto simp: tables_ok_def)

lemma tables_ok_link:
  assumes "tables_ok s" "ndL_session_count s < ND_SESSION_MAX"
  shows "tables_ok (link_session (heap_next s) x s)"
proof -
  have none: "h_session s (heap_next s) = None" by (rule fresh_session [OF assms(1)])
  have card: "card (dom ((h_session s)(heap_next s \<mapsto> x))) = Suc (card (dom (h_session s)))"
    using assms(1) none by (intro card_dom_insert) (simp_all add: tables_ok_def)
  have lt: "\<forall>p\<in>dom ((h_session s)(heap_next s \<mapsto> x)). p < Suc (heap_next s)"
    using assms(1) by (auto simp: tables_ok_def less_Suc_eq)
  have idx: "index_ok (NDL_BUCKET (ndL_hash_seed s)) NDPPD_SESSION_BUCKETS s_tgt ((h_session s)(heap_next s \<mapsto> x))
       ((ndL_sessions s)[NDL_BUCKET (ndL_hash_seed s) (s_tgt x) :=
          heap_next s # ndL_sessions s ! NDL_BUCKET (ndL_hash_seed s) (s_tgt x)])"
    using assms(1) none by (intro buckets.index_insert) (simp_all add: tables_ok_def)
  have idx_r: "index_ok (NDL_BUCKET (ndL_hash_seed s)) NDPPD_SESSION_BUCKETS s_tgt_r ((h_session s)(heap_next s \<mapsto> x))
       ((ndL_sessions_r s)[NDL_BUCKET (ndL_hash_seed s) (s_tgt_r x) :=
          heap_next s # ndL_sessions_r s ! NDL_BUCKET (ndL_hash_seed s) (s_tgt_r x)])"
    using assms(1) none by (intro buckets.index_insert) (simp_all add: tables_ok_def)
  show ?thesis
    using assms idx idx_r card lt by (simp add: tables_ok_def link_session_def Let_def)
qed

lemma refs_link:
  assumes "tables_ok s" "s_iface x = None"
  shows "refs_of (link_session (heap_next s) x s) = refs_of s"
  using assms fresh_session [OF assms(1)]
  by (auto simp: refs_of_def fun_eq_iff tables_ok_def heap_count_insert)

lemma iface_inv_link: "iface_inv refs s \<Longrightarrow> iface_inv refs (link_session p x s)"
  unfolding iface_inv_def by (auto intro: less_SucI)

lemma link_wf:
  assumes "session_wf s" "ndL_session_count s < ND_SESSION_MAX"
    and new: "\<And>p y. h_session s p = Some y \<Longrightarrow> \<not> (proxy_of (h_rule s) y = proxy_of (h_rule s) x \<and> s_tgt y = s_tgt x)"
  shows "session_wf_but (heap_next s) (link_session (heap_next s) x s)"
proof -
  have "unique_targets (h_rule s) ((h_session s)(heap_next s \<mapsto> x))"
    using session_wfD(3) [OF assms(1)] new unfolding unique_targets_def by (auto split: if_splits) metis+
  moreover have "config_ok (link_session (heap_next s) x s)"
    using session_wfD(2) [OF assms(1)] by (simp add: config_ok_def rule_ok_def proxy_ok_def)
  ultimately show ?thesis
    using tables_ok_link [OF session_wfD(1) [OF assms(1)] assms(2), of x] session_wfD(4) [OF assms(1)]
    by (simp add: session_wf_but_def)
qed

lemma put_link_op:
  assumes "session_wf_but p s" "iface_inv (refs_of s) s" "h_session s p = Some x" "same_links x y"
    "s_iface y = s_iface x" "session_ok (h_rule s) y"
  shows "session_op p s (Some (put_session p y s))"
proof -
  have "session_wf (put_session p y s)" by (rule session_wf_put [OF assms(1,3,4,6)])
  moreover have "refs_of (put_session p y s) = refs_of s"
    using assms by (intro refs_put_same) (simp_all add: session_wf_but_def tables_ok_def)
  ultimately show ?thesis using assms by (simp add: session_op_def daemon_inv_def)
qed

lemma init_session_op:
  fixes s :: "'a session_state_scheme"
  assumes wf: "session_wf_but p s" and inv: "iface_inv (refs_of s) s" and k: "kernel_ok k"
    and x: "h_session s p = Some x" "s_iface x = None" "s_state x = ND_STATE_INCOMPLETE"
    and r: "h_rule s (s_rule x) = Some r" "rule_ok s r"
    and ok: "session_ok (h_rule s) (x\<lparr>s_state := ND_STATE_INVALID\<rparr>)"
  shows "session_op p s (init_session k p x r s)"
proof -
  have fin: "finite (dom (h_rule s))" "finite (dom (h_proxy s))" using wf by (simp_all add: session_wf_but_def config_ok_def)
  have put: "session_op p s' (Some (put_session p (x\<lparr>s_state := st\<rparr>) s'))"
    if "st \<in> {ND_STATE_INVALID, ND_STATE_VALID}" "session_wf_but p s'" "iface_inv (refs_of s') s'"
      "h_session s' p = Some x" "h_rule s' = h_rule s" for st and s' :: "'a session_state_scheme"
    by (rule put_link_op [OF that(2-4)]) (use that ok in \<open>auto simp: same_links_def session_ok_def\<close>)
  have start: "session_op p s' (start_probing p (x\<lparr>s_iface := Some ip\<rparr>) s')"
    if "session_wf_but p s'" "iface_inv ((refs_of s')(ip := refs_of s' ip + 1)) s'"
      "h_session s' p = Some x" "h_rule s' = h_rule s" for ip and s' :: "'a session_state_scheme"
    by (rule start_probing_op [OF that(1,2,3) x(2)]) (use that ok in \<open>auto simp: same_links_def session_ok_def\<close>)
  have step: "session_wf_but p s1" "h_session s1 p = Some x" "h_rule s1 = h_rule s" if "iface_step s s1" for s1
    using session_wf_but_step [OF that wf] that x(1) by (simp_all add: iface_step_session)
  have live: "\<exists>i. h_iface s ip = Some i" if "r_iface r = Some ip" for ip
    using iface_inv_live [OF inv refs_rule [OF fin(1) r(1) that]] .
  have shared: "session_op p s (do { s1 \<leftarrow> iface_ref ip s; start_probing p (x\<lparr>s_iface := Some ip\<rparr>) s1 })"
    if ip: "r_iface r = Some ip" for ip
  proof -
    obtain i where "h_iface s ip = Some i" using live [OF ip] by blast
    then obtain s1 where s1: "iface_ref ip s = Some s1" "iface_inv ((refs_of s)(ip := refs_of s ip + 1)) s1" "iface_step s s1"
      using iface_ref_inv [OF inv] by blast
    note st = step [OF s1(3)]
    have "session_op p s1 (start_probing p (x\<lparr>s_iface := Some ip\<rparr>) s1)"
      by (rule start [OF st(1) _ st(2,3)]) (simp only: refs_of_step [OF s1(3)] s1(2))
    then show ?thesis using s1(1) session_op_step [OF s1(3)] by simp
  qed
  show ?thesis
  proof (cases "r_mode r")
    case ND_MODE_AUTO
    have "h_proxy s (r_proxy r) \<noteq> None" using r(2) by (simp add: rule_ok_def)
    then obtain px where px: "h_proxy s (r_proxy r) = Some px" by blast
    then obtain ip where ip: "p_iface px = Some ip"
      using wf by (fastforce simp: session_wf_but_def config_ok_def proxy_ok_def)
    obtain i where i: "h_iface s ip = Some i" using iface_inv_live [OF inv refs_proxy [OF fin(2) px ip]] by blast
    have "session_op p s (do {
        (io, s1) \<leftarrow> nd_iface_open k None oif False s;
        case io of None \<Rightarrow> Some (put_session p (x\<lparr>s_state := ND_STATE_INVALID\<rparr>) s1)
        | Some ip' \<Rightarrow> start_probing p (x\<lparr>s_iface := Some ip'\<rparr>) s1 })" for oif
    proof -
      obtain io s1 where io: "nd_iface_open k None oif False s = Some (io, s1)" "iface_step s s1"
        "iface_inv (case io of None \<Rightarrow> refs_of s1 | Some ip \<Rightarrow> (refs_of s1)(ip := refs_of s1 ip + 1)) s1"
        by (rule open_op [OF inv k])
      note st = step [OF io(2)]
      show ?thesis
        using io(1,3) put [OF _ st(1) _ st(2,3), of ND_STATE_INVALID] start [OF st(1) _ st(2,3)] session_op_step [OF io(2)]
        by (cases io) simp_all
    qed
    then show ?thesis
      using ND_MODE_AUTO px ip i put [OF _ wf inv x(1) refl] by (simp add: init_session_def split: option.splits)
  next
    case ND_MODE_UNKNOWN
    then show ?thesis using r(2) by (simp add: rule_ok_def)
  next
    case ND_MODE_STATIC
    then show ?thesis
      using put [OF _ wf inv x(1) refl] shared live by (cases "r_iface r") (auto simp: init_session_def)
  next
    case ND_MODE_IFACE
    then obtain ip where "r_iface r = Some ip" using r(2) by (auto simp: rule_ok_def)
    then show ?thesis
      using ND_MODE_IFACE put [OF _ wf inv x(1) refl] shared live by (auto simp: init_session_def)
  qed
qed

text \<open>The contract of creation: at most one new session, for a target its proxy has none for.\<close>

lemma nd_session_create_spec:
  fixes s :: "'a session_state_scheme"
  assumes inv: "daemon_inv s" and k: "kernel_ok k" and r: "h_rule s rp = Some r"
    and new: "\<And>p y. h_session s p = Some y \<Longrightarrow> \<not> (proxy_of (h_rule s) y = Some (r_proxy r) \<and> s_tgt y = tgt)"
  shows "\<exists>res s'. nd_session_create k rp tgt s = Some (res, s') \<and> daemon_inv s' \<and> session_frame s s' \<and>
     (case res of
        None \<Rightarrow> s' = s \<and> ND_SESSION_MAX \<le> ndL_session_count s
      | Some p \<Rightarrow> p = heap_next s \<and> h_session s p = None \<and> (\<forall>q. q \<noteq> p \<longrightarrow> h_session s' q = h_session s q) \<and>
                  (\<exists>x. h_session s' p = Some x \<and> s_rule x = rp \<and> s_tgt x = tgt))"
proof (cases "ND_SESSION_MAX \<le> ndL_session_count s")
  case True
  then show ?thesis using inv by (simp add: nd_session_create_def)
next
  case False
  define p where "p = heap_next s"
  define x where "x = \<lparr>s_rule = rp, s_tgt = tgt,
                 s_tgt_r = nd_addr_combine host (r_rewrite_tgt r) tgt (r_rewrite_pflen r),
                 ons_count = 0, ons_time = 0, ins_time = 0, state_time = nd_current_time s,
                 s_state = ND_STATE_INCOMPLETE, s_iface = None, s_subs = [], s_autowired = False\<rparr>"
  let ?s = "link_session p x s"
  note wf = daemon_invD(1) [OF inv]
  have px: "proxy_of (h_rule s) x = Some (r_proxy r)" using r by (simp add: x_def proxy_of_def)
  have wf1: "session_wf_but p ?s"
    unfolding p_def using link_wf [OF wf, of x] False new px by (simp add: x_def)
  have "refs_of ?s = refs_of s"
    unfolding p_def by (rule refs_link [OF session_wfD(1) [OF wf]]) (simp add: x_def)
  then have inv1: "iface_inv (refs_of ?s) ?s" using iface_inv_link [OF daemon_invD(2) [OF inv]] by simp
  have rok: "rule_ok ?s r" using session_wfD(8) [OF wf r] by (simp add: rule_ok_def)
  have op: "session_op p ?s (init_session k p x r ?s)"
    by (rule init_session_op [OF wf1 inv1 k])
      (use r rok in \<open>simp_all add: x_def session_ok_def\<close>)
  then obtain s' y where s': "init_session k p x r ?s = Some s'" "daemon_inv s'" "session_frame ?s s'"
    "\<forall>q. q \<noteq> p \<longrightarrow> h_session s' q = h_session ?s q" "h_session s' p = Some y" "same_links x y"
    unfolding session_op_def by auto
  have "nd_session_create k rp tgt s = Some (Some p, s')"
    using False r s'(1) by (simp add: nd_session_create_def Let_def p_def x_def)
  moreover have "session_frame s s'" by (rule session_frame_trans [OF session_frame_link s'(3)])
  moreover have "h_session s p = None" unfolding p_def by (rule fresh_session [OF session_wfD(1) [OF wf]])
  ultimately show ?thesis using s' by (auto simp: p_def same_links_def x_def)
qed

subsection \<open>Sweeps\<close>

text \<open>
  A sweep over a chain calls the body on each address of the chain as it was when the
  traversal reached it; the body may delete the session it is given, and no other.
\<close>

lemma sweep_chain:
  assumes body: "\<And>p x s. daemon_inv s \<Longrightarrow> h_session s p = Some x \<Longrightarrow> session_safe p s (f p s)"
    and "daemon_inv s" "distinct ps" "set ps \<subseteq> dom (h_session s)"
  shows "\<exists>s'. foldM f ps s = Some s' \<and> daemon_inv s' \<and> session_frame s s' \<and>
              (\<forall>q. q \<notin> set ps \<longrightarrow> h_session s' q = h_session s q)"
  using assms(2-)
proof (induction ps arbitrary: s)
  case (Cons p ps)
  then obtain x where "h_session s p = Some x" by auto
  with body Cons.prems(1) obtain s1 where s1: "f p s = Some s1" "daemon_inv s1" "session_frame s s1"
    "\<forall>q. q \<noteq> p \<longrightarrow> h_session s1 q = h_session s q"
    unfolding session_safe_def by blast
  have "set ps \<subseteq> dom (h_session s1)" using Cons.prems s1(4) by (auto simp: domIff subset_iff)
  then obtain s' where "foldM f ps s1 = Some s'" "daemon_inv s'" "session_frame s1 s'"
    "\<forall>q. q \<notin> set ps \<longrightarrow> h_session s' q = h_session s1 q"
    using Cons.IH [OF s1(2)] Cons.prems(2) by auto
  then show ?case using s1 session_frame_trans [OF s1(3)] by auto
qed simp

lemma chain_ok:
  assumes "daemon_inv s" "i < NDPPD_SESSION_BUCKETS"
  shows "distinct (ndL_sessions s ! i)" "set (ndL_sessions s ! i) \<subseteq> dom (h_session s)"
  using session_wfD(1) [OF daemon_invD(1) [OF assms(1)]] buckets.index_live index_okD(2) assms(2)
  unfolding tables_ok_def by blast+

lemma sweep_all:
  assumes body: "\<And>p x s. daemon_inv s \<Longrightarrow> h_session s p = Some x \<Longrightarrow> session_safe p s (f p s)"
    and "daemon_inv s"
  shows "\<exists>s'. foldM (\<lambda>i s. foldM f (ndL_sessions s ! i) s) [0..<NDPPD_SESSION_BUCKETS] s = Some s' \<and>
              daemon_inv s' \<and> session_frame s s'"
proof (rule foldM_inv [where I = "\<lambda>t. daemon_inv t \<and> session_frame s t"])
  show "daemon_inv s \<and> session_frame s s" using assms(2) by simp
  fix i t
  assume i: "i \<in> set [0..<NDPPD_SESSION_BUCKETS]" and t: "daemon_inv t \<and> session_frame s t"
  then show "\<exists>s'. foldM f (ndL_sessions t ! i) t = Some s' \<and> daemon_inv s' \<and> session_frame s s'"
    using sweep_chain [where f = f and s = t and ps = "ndL_sessions t ! i", OF body] chain_ok [of t i]
      session_frame_trans [of s t] by fastforce
qed

lemma nd_session_update_all_safe:
  "daemon_inv s \<Longrightarrow> \<exists>s'. nd_session_update_all s = Some s' \<and> daemon_inv s' \<and> session_frame s s'"
  unfolding nd_session_update_all_def by (rule sweep_all [OF nd_session_update_safe])

lemma iface_changed_one_op:
  assumes "daemon_inv s" "h_session s p = Some x"
  shows "session_op p s (iface_changed_one ip up p s)"
proof -
  have "session_ok (h_rule s) x" by (rule session_wfD(4) [OF daemon_invD(1) [OF assms(1)] assms(2)])
  then have "session_op p s (Some (put_session p (x\<lparr>s_autowired := False\<rparr>) s))"
    by (intro session_op_put [OF assms]) (simp_all add: same_links_def session_ok_def)
  then show ?thesis using assms ndL_up_op [OF assms] by (simp add: iface_changed_one_def)
qed

lemma nd_session_iface_changed_safe:
  "daemon_inv s \<Longrightarrow> \<exists>s'. nd_session_iface_changed ip up s = Some s' \<and> daemon_inv s' \<and> session_frame s s'"
  unfolding nd_session_iface_changed_def
  by (rule sweep_all) (auto intro: session_op_safe iface_changed_one_op)

end
