(* ===== verification/Proxy.thy ===== *)
theory Proxy
  imports Session_Ops
begin

text \<open>
  \<^verbatim>\<open>src/proxy.c\<close> and \<^verbatim>\<open>src/rule.c\<close>: creating proxies and rules while the configuration is read,
  opening their interfaces at startup, and dispatching an incoming solicitation to a session.
  The lemmas follow the state from an empty configuration (\<open>config_wf\<close>, kept by the creating
  operations) through \<open>nd_proxy_startup\<close>, which establishes \<open>running_inv\<close> when it succeeds, to
  \<open>nd_proxy_handle_ns\<close>, which keeps it.
\<close>

subsection \<open>Creating\<close>

definition nd_proxy_create :: "string \<Rightarrow> 'a session_state_scheme \<Rightarrow> (ptr option \<times> 'a session_state_scheme) option" where
  "nd_proxy_create ifname s = do {
     found \<leftarrow> heap_find (h_proxy s) (\<lambda>px. p_ifname px = ifname) (ndL_proxies s);
     case found of
       Some _ \<Rightarrow> Some (None, s)
     | None \<Rightarrow> do {
         require (length ifname < IF_NAMESIZE);
         let p = heap_next s;
         let px = \<lparr>p_ifname = ifname, p_target = zero_lladdr, p_iface = None, p_rules = [],
                   p_router = False, p_promiscuous = False\<rparr>;
         Some (Some p, s\<lparr>h_proxy := (h_proxy s)(p \<mapsto> px), ndL_proxies := p # ndL_proxies s, heap_next := Suc p\<rparr>)
       }
   }"

definition nd_rule_create :: "ptr \<Rightarrow> 'a session_state_scheme \<Rightarrow> (ptr \<times> 'a session_state_scheme) option" where
  "nd_rule_create pp s = do {
     px \<leftarrow> h_proxy s pp;
     let p = heap_next s;
     let r = \<lparr>r_proxy = pp, r_ifname = [], r_target = p_target px, r_addr = zero_addr, r_prefix = 0,
              r_rewrite_tgt = zero_addr, r_rewrite_pflen = 0, r_iface = None, r_autowire = False,
              r_table = 0, r_mode = ND_MODE_UNKNOWN\<rparr>;
     Some (p, s\<lparr>h_rule := (h_rule s)(p \<mapsto> r), h_proxy := (h_proxy s)(pp \<mapsto> px\<lparr>p_rules := p # p_rules px\<rparr>),
                heap_next := Suc p\<rparr>)
   }"

subsection \<open>Startup\<close>

definition startup_rule :: "kernel \<Rightarrow> ptr \<Rightarrow> 'a session_state_scheme \<Rightarrow> (bool \<times> 'a session_state_scheme) option" where
  "startup_rule k rp s = do {
     r \<leftarrow> h_rule s rp;
     if r_ifname r \<noteq> [] then do {
       (io, s1) \<leftarrow> nd_iface_open k (Some (r_ifname r)) 0 False s;
       Some (io \<noteq> None, s1\<lparr>h_rule := (h_rule s1)(rp \<mapsto> r\<lparr>r_iface := io\<rparr>)\<rparr>)
     } else Some (True, s)
   }"

definition startup_proxy :: "kernel \<Rightarrow> ptr \<Rightarrow> 'a session_state_scheme \<Rightarrow> (bool \<times> 'a session_state_scheme) option" where
  "startup_proxy k pp s = do {
     px \<leftarrow> h_proxy s pp;
     if p_rules px = [] then Some (False, s)
     else do {
       (io, s1) \<leftarrow> nd_iface_open k (Some (p_ifname px)) 0 (p_promiscuous px) s;
       let s2 = s1\<lparr>h_proxy := (h_proxy s1)(pp \<mapsto> px\<lparr>p_iface := io\<rparr>)\<rparr>;
       case io of
         None \<Rightarrow> Some (False, s2)
       | Some ip \<Rightarrow> do {
           i \<leftarrow> h_iface s2 ip;
           all_loop (startup_rule k) (p_rules px) (s2\<lparr>h_iface := (h_iface s2)(ip \<mapsto> i\<lparr>if_proxy := Some pp\<rparr>)\<rparr>)
         }
     }
   }"

definition nd_proxy_startup :: "kernel \<Rightarrow> 'a session_state_scheme \<Rightarrow> (bool \<times> 'a session_state_scheme) option" where
  "nd_proxy_startup k s =
     (if ndL_proxies s = [] then Some (False, s) else all_loop (startup_proxy k) (ndL_proxies s) s)"

subsection \<open>Solicitations\<close>

definition nd_proxy_handle_ns ::
  "kernel \<Rightarrow> ptr \<Rightarrow> nd_addr \<Rightarrow> nd_addr \<Rightarrow> nd_addr \<Rightarrow> nd_lladdr option \<Rightarrow>
   'a session_state_scheme \<Rightarrow> 'a session_state_scheme option" where
  "nd_proxy_handle_ns k pp src dst tgt src_ll s = do {
     found \<leftarrow> nd_session_find tgt pp s;
     case found of
       Some p \<Rightarrow> nd_session_handle_ns k p src src_ll s
     | None \<Rightarrow> do {
         px \<leftarrow> h_proxy s pp;
         rule \<leftarrow> heap_find (h_rule s) (\<lambda>r. nd_addr_match host (r_addr r) tgt (r_prefix r)) (p_rules px);
         case rule of
           None \<Rightarrow> Some s
         | Some rp \<Rightarrow> do {
             (new, s1) \<leftarrow> nd_session_create k rp tgt s;
             case new of
               None \<Rightarrow> Some s1
             | Some p \<Rightarrow> nd_session_handle_ns k p src src_ll s1
           }
       }
   }"

lemma nd_proxy_handle_ns_safe:
  fixes s :: "'a session_state_scheme"
  assumes inv: "daemon_inv s" and k: "kernel_ok k" and px: "h_proxy s pp = Some px"
  shows "\<exists>s'. nd_proxy_handle_ns k pp src dst tgt src_ll s = Some s' \<and> daemon_inv s' \<and> session_frame s s'"
proof -
  obtain found where found: "nd_session_find tgt pp s = Some found"
    "case found of
        None \<Rightarrow> \<forall>p x. h_session s p = Some x \<longrightarrow> \<not> (proxy_of (h_rule s) x = Some pp \<and> s_tgt x = tgt)
      | Some p \<Rightarrow> \<exists>x. h_session s p = Some x \<and> proxy_of (h_rule s) x = Some pp \<and> s_tgt x = tgt"
    using nd_session_find_spec [OF inv] by blast
  show ?thesis
  proof (cases found)
    case (Some p)
    with found obtain x where "h_session s p = Some x" by auto
    from nd_session_handle_ns_op [OF inv k this, of src src_ll] Some found(1) show ?thesis
      by (auto simp: nd_proxy_handle_ns_def session_op_def)
  next
    case None
    have rules: "\<forall>rp\<in>set (p_rules px). \<exists>r. h_rule s rp = Some r \<and> r_proxy r = pp"
      using session_wfD(9) [OF daemon_invD(1) [OF inv] px] by (simp add: proxy_ok_def)
    then obtain rule where rule: "heap_find (h_rule s) (\<lambda>r. nd_addr_match host (r_addr r) tgt (r_prefix r)) (p_rules px) = Some rule"
      using heap_find_total [of "p_rules px" "h_rule s"] by blast
    show ?thesis
    proof (cases rule)
      case None
      then show ?thesis using \<open>found = None\<close> found(1) px rule inv by (simp add: nd_proxy_handle_ns_def)
    next
      case (Some rp)
      obtain r where r: "h_rule s rp = Some r" "r_proxy r = pp"
        using heap_find_SomeD [OF rule [unfolded Some]] rules by auto
      have "\<not> (proxy_of (h_rule s) y = Some (r_proxy r) \<and> s_tgt y = tgt)" if "h_session s p = Some y" for p y
        using that found(2) None r(2) by auto
      from nd_session_create_spec [OF inv k r(1) this]
      obtain new s1 where s1: "nd_session_create k rp tgt s = Some (new, s1)" "daemon_inv s1" "session_frame s s1"
        "\<forall>p. new = Some p \<longrightarrow> (\<exists>x. h_session s1 p = Some x)"
        by (fastforce split: option.splits)
      have eq: "nd_proxy_handle_ns k pp src dst tgt src_ll s =
                (case new of None \<Rightarrow> Some s1 | Some p \<Rightarrow> nd_session_handle_ns k p src src_ll s1)"
        using \<open>found = None\<close> found(1) px rule Some s1(1) by (simp add: nd_proxy_handle_ns_def)
      show ?thesis
      proof (cases new)
        case None
        then show ?thesis using eq s1 by simp
      next
        case (Some p)
        then obtain x where "h_session s1 p = Some x" using s1(4) by auto
        from nd_session_handle_ns_op [OF s1(2) k this, of src src_ll] show ?thesis
          using eq Some session_frame_trans [OF s1(3)] by (auto simp: session_op_def)
      qed
    qed
  qed
qed

subsection \<open>From the configuration to the running daemon\<close>

text \<open>The configuration as the parser leaves it, and while the interfaces are being opened.\<close>

definition config_wf :: "'a session_state_scheme \<Rightarrow> bool" where
  "config_wf s \<longleftrightarrow>
     finite (dom (h_rule s)) \<and> distinct (ndL_proxies s) \<and> set (ndL_proxies s) = dom (h_proxy s) \<and>
     (\<forall>pp px. h_proxy s pp = Some px \<longrightarrow>
        pp < heap_next s \<and> length (p_ifname px) < IF_NAMESIZE \<and> distinct (p_rules px) \<and>
        (\<forall>rp\<in>set (p_rules px). \<exists>r. h_rule s rp = Some r \<and> r_proxy r = pp)) \<and>
     (\<forall>rp r. h_rule s rp = Some r \<longrightarrow>
        rp < heap_next s \<and> length (r_ifname r) < IF_NAMESIZE \<and>
        (\<exists>px. h_proxy s (r_proxy r) = Some px \<and> rp \<in> set (p_rules px)))"

definition no_sessions :: "'a session_state_scheme \<Rightarrow> bool" where
  "no_sessions s \<longleftrightarrow>
     h_session s = Map.empty \<and> ndL_session_count s = 0 \<and>
     ndL_sessions s = replicate NDPPD_SESSION_BUCKETS [] \<and> ndL_sessions_r s = replicate NDPPD_SESSION_BUCKETS []"

text \<open>What \<open>ndL_parse_rule\<close> demands of every rule.\<close>

definition modes_ok :: "'a session_state_scheme \<Rightarrow> bool" where
  "modes_ok s \<longleftrightarrow>
     (\<forall>rp r. h_rule s rp = Some r \<longrightarrow> r_mode r \<noteq> ND_MODE_UNKNOWN \<and> (r_mode r = ND_MODE_IFACE \<longrightarrow> r_ifname r \<noteq> []))"

text \<open>The proxy an interface points back to is live.\<close>

definition iface_proxies_ok :: "'a session_state_scheme \<Rightarrow> bool" where
  "iface_proxies_ok s \<longleftrightarrow>
     (\<forall>ip i pp. h_iface s ip = Some i \<longrightarrow> if_proxy i = Some pp \<longrightarrow> pp \<in> dom (h_proxy s))"

definition config_inv :: "'a session_state_scheme \<Rightarrow> bool" where
  "config_inv s \<longleftrightarrow> config_wf s \<and> no_sessions s \<and> iface_inv (refs_of s) s \<and> iface_proxies_ok s"

text \<open>The invariant of the running daemon.\<close>

definition running_inv :: "'a session_state_scheme \<Rightarrow> bool" where
  "running_inv s \<longleftrightarrow> daemon_inv s \<and> iface_proxies_ok s"

definition rule_pending :: "'a session_state_scheme \<Rightarrow> ptr \<Rightarrow> bool" where
  "rule_pending s rp \<longleftrightarrow> (\<forall>r. h_rule s rp = Some r \<longrightarrow> r_iface r = None)"

definition rule_started :: "'a session_state_scheme \<Rightarrow> ptr \<Rightarrow> bool" where
  "rule_started s rp \<longleftrightarrow> (\<forall>r. h_rule s rp = Some r \<longrightarrow> r_ifname r \<noteq> [] \<longrightarrow> r_iface r \<noteq> None)"

definition proxy_pending :: "'a session_state_scheme \<Rightarrow> ptr \<Rightarrow> bool" where
  "proxy_pending s pp \<longleftrightarrow> (\<forall>px. h_proxy s pp = Some px \<longrightarrow> p_iface px = None \<and> (\<forall>rp\<in>set (p_rules px). rule_pending s rp))"

definition proxy_started :: "'a session_state_scheme \<Rightarrow> ptr \<Rightarrow> bool" where
  "proxy_started s pp \<longleftrightarrow>
     (\<forall>px. h_proxy s pp = Some px \<longrightarrow> p_iface px \<noteq> None \<and> (\<forall>rp\<in>set (p_rules px). rule_started s rp))"

text \<open>Startup changes nothing of a rule or a proxy but the interface it points to.\<close>

definition startup_frame :: "ptr set \<Rightarrow> ptr set \<Rightarrow> 'a session_state_scheme \<Rightarrow> 'a session_state_scheme \<Rightarrow> bool" where
  "startup_frame P R s s' \<longleftrightarrow>
     ndL_proxies s' = ndL_proxies s \<and> dom (h_proxy s') = dom (h_proxy s) \<and> dom (h_rule s') = dom (h_rule s) \<and>
     heap_next s \<le> heap_next s' \<and>
     (\<forall>pp px. h_proxy s pp = Some px \<longrightarrow>
        (\<exists>io. h_proxy s' pp = Some (px\<lparr>p_iface := io\<rparr>) \<and> (pp \<notin> P \<longrightarrow> io = p_iface px))) \<and>
     (\<forall>rp r. h_rule s rp = Some r \<longrightarrow>
        (\<exists>io. h_rule s' rp = Some (r\<lparr>r_iface := io\<rparr>) \<and> (rp \<notin> R \<longrightarrow> io = r_iface r)))"

lemma startup_frameD:
  assumes "startup_frame P R s s'"
  shows "\<And>pp px. h_proxy s' pp = Some px \<Longrightarrow> \<exists>px0 io. h_proxy s pp = Some px0 \<and> px = px0\<lparr>p_iface := io\<rparr> \<and> (pp \<notin> P \<longrightarrow> px = px0)"
    and "\<And>rp r. h_rule s' rp = Some r \<Longrightarrow> \<exists>r0 io. h_rule s rp = Some r0 \<and> r = r0\<lparr>r_iface := io\<rparr> \<and> (rp \<notin> R \<longrightarrow> r = r0)"
proof -
  fix pp px
  assume a: "h_proxy s' pp = Some px"
  then obtain px0 where "h_proxy s pp = Some px0" using assms by (force simp: startup_frame_def)
  moreover from this obtain io where "h_proxy s' pp = Some (px0\<lparr>p_iface := io\<rparr>)" "pp \<notin> P \<longrightarrow> io = p_iface px0"
    using assms unfolding startup_frame_def by blast
  ultimately show "\<exists>px0 io. h_proxy s pp = Some px0 \<and> px = px0\<lparr>p_iface := io\<rparr> \<and> (pp \<notin> P \<longrightarrow> px = px0)"
    using a by auto
next
  fix rp r
  assume a: "h_rule s' rp = Some r"
  then obtain r0 where "h_rule s rp = Some r0" using assms by (force simp: startup_frame_def)
  moreover from this obtain io where "h_rule s' rp = Some (r0\<lparr>r_iface := io\<rparr>)" "rp \<notin> R \<longrightarrow> io = r_iface r0"
    using assms unfolding startup_frame_def by blast
  ultimately show "\<exists>r0 io. h_rule s rp = Some r0 \<and> r = r0\<lparr>r_iface := io\<rparr> \<and> (rp \<notin> R \<longrightarrow> r = r0)"
    using a by auto
qed

lemma startup_frame_refl [simp]: "startup_frame P R s s"
proof -
  have "\<exists>io. Some px = Some (px\<lparr>p_iface := io\<rparr>) \<and> (pp \<notin> P \<longrightarrow> io = p_iface px)" for px :: nd_proxy and pp
    by (rule exI [of _ "p_iface px"]) simp
  moreover have "\<exists>io. Some r = Some (r\<lparr>r_iface := io\<rparr>) \<and> (rp \<notin> R \<longrightarrow> io = r_iface r)" for r :: nd_rule and rp
    by (rule exI [of _ "r_iface r"]) simp
  ultimately show ?thesis by (simp add: startup_frame_def)
qed

lemma startup_frame_trans:
  assumes "startup_frame P R s s'" "startup_frame P' R' s' s''" "P \<subseteq> Q" "P' \<subseteq> Q" "R \<subseteq> S" "R' \<subseteq> S"
  shows "startup_frame Q S s s''"
  unfolding startup_frame_def
proof (intro conjI allI impI)
  fix pp px
  assume "h_proxy s pp = Some px"
  with assms(1) obtain io where io: "h_proxy s' pp = Some (px\<lparr>p_iface := io\<rparr>)" "pp \<notin> P \<longrightarrow> io = p_iface px"
    unfolding startup_frame_def by blast
  with assms(2) obtain io' where "h_proxy s'' pp = Some (px\<lparr>p_iface := io, p_iface := io'\<rparr>)" "pp \<notin> P' \<longrightarrow> io' = p_iface (px\<lparr>p_iface := io\<rparr>)"
    unfolding startup_frame_def by blast
  with io assms(3,4) show "\<exists>io. h_proxy s'' pp = Some (px\<lparr>p_iface := io\<rparr>) \<and> (pp \<notin> Q \<longrightarrow> io = p_iface px)"
    by (intro exI [of _ io']) auto
next
  fix rp r
  assume "h_rule s rp = Some r"
  with assms(1) obtain io where io: "h_rule s' rp = Some (r\<lparr>r_iface := io\<rparr>)" "rp \<notin> R \<longrightarrow> io = r_iface r"
    unfolding startup_frame_def by blast
  with assms(2) obtain io' where "h_rule s'' rp = Some (r\<lparr>r_iface := io, r_iface := io'\<rparr>)" "rp \<notin> R' \<longrightarrow> io' = r_iface (r\<lparr>r_iface := io\<rparr>)"
    unfolding startup_frame_def by blast
  with io assms(5,6) show "\<exists>io. h_rule s'' rp = Some (r\<lparr>r_iface := io\<rparr>) \<and> (rp \<notin> S \<longrightarrow> io = r_iface r)"
    by (intro exI [of _ io']) auto
qed (use assms(1,2) in \<open>simp_all add: startup_frame_def\<close>)

lemma config_wf_frame:
  assumes "config_wf s" "startup_frame P R s s'"
  shows "config_wf s'"
  unfolding config_wf_def
proof (intro conjI allI impI)
  show "finite (dom (h_rule s'))" "distinct (ndL_proxies s')" "set (ndL_proxies s') = dom (h_proxy s')"
    using assms by (simp_all add: config_wf_def startup_frame_def)
next
  fix pp px
  assume "h_proxy s' pp = Some px"
  then obtain px0 io where px0: "h_proxy s pp = Some px0" "px = px0\<lparr>p_iface := io\<rparr>" using startup_frameD(1) [OF assms(2)] by blast
  have le: "heap_next s \<le> heap_next s'" using assms(2) by (simp add: startup_frame_def)
  have wf: "pp < heap_next s" "length (p_ifname px0) < IF_NAMESIZE" "distinct (p_rules px0)"
    "\<forall>rp\<in>set (p_rules px0). \<exists>r. h_rule s rp = Some r \<and> r_proxy r = pp"
    using assms(1) px0(1) unfolding config_wf_def by blast+
  show "pp < heap_next s'" "length (p_ifname px) < IF_NAMESIZE" "distinct (p_rules px)" using wf px0(2) le by simp_all
  show "\<forall>rp\<in>set (p_rules px). \<exists>r. h_rule s' rp = Some r \<and> r_proxy r = pp"
  proof
    fix rp
    assume "rp \<in> set (p_rules px)"
    then obtain r where "h_rule s rp = Some r" "r_proxy r = pp" using wf(4) px0(2) by auto
    moreover from this obtain io where "h_rule s' rp = Some (r\<lparr>r_iface := io\<rparr>)"
      using assms(2) unfolding startup_frame_def by blast
    ultimately show "\<exists>r. h_rule s' rp = Some r \<and> r_proxy r = pp" by simp
  qed
next
  fix rp r
  assume "h_rule s' rp = Some r"
  then obtain r0 io where r0: "h_rule s rp = Some r0" "r = r0\<lparr>r_iface := io\<rparr>" using startup_frameD(2) [OF assms(2)] by blast
  have le: "heap_next s \<le> heap_next s'" using assms(2) by (simp add: startup_frame_def)
  have "rp < heap_next s \<and> length (r_ifname r0) < IF_NAMESIZE \<and> (\<exists>px. h_proxy s (r_proxy r0) = Some px \<and> rp \<in> set (p_rules px))"
    using assms(1) r0(1) unfolding config_wf_def by blast
  then obtain px where px: "rp < heap_next s" "length (r_ifname r0) < IF_NAMESIZE" "h_proxy s (r_proxy r0) = Some px" "rp \<in> set (p_rules px)"
    by blast
  then obtain io' where "h_proxy s' (r_proxy r0) = Some (px\<lparr>p_iface := io'\<rparr>)"
    using assms(2) unfolding startup_frame_def by blast
  with px r0(2) le show "rp < heap_next s'" "length (r_ifname r) < IF_NAMESIZE"
    "\<exists>px. h_proxy s' (r_proxy r) = Some px \<and> rp \<in> set (p_rules px)" by auto
qed

lemma modes_ok_frame:
  assumes "modes_ok s" "startup_frame P R s s'"
  shows "modes_ok s'"
  unfolding modes_ok_def
proof (intro allI impI)
  fix rp r
  assume "h_rule s' rp = Some r"
  then obtain r0 io where "h_rule s rp = Some r0" "r = r0\<lparr>r_iface := io\<rparr>" using startup_frameD(2) [OF assms(2)] by blast
  with assms(1) show "r_mode r \<noteq> ND_MODE_UNKNOWN \<and> (r_mode r = ND_MODE_IFACE \<longrightarrow> r_ifname r \<noteq> [])"
    unfolding modes_ok_def by auto
qed

lemma finite_proxies: "config_wf s \<Longrightarrow> finite (dom (h_proxy s))"
  by (metis config_wf_def finite_set)

lemma refs_rule_open:
  assumes "finite (dom (h_rule s))" "h_rule s rp = Some r" "r_iface r = None"
  shows "refs_of (s\<lparr>h_rule := (h_rule s)(rp \<mapsto> r\<lparr>r_iface := io\<rparr>)\<rparr>) =
         (case io of None \<Rightarrow> refs_of s | Some ip \<Rightarrow> (refs_of s)(ip := refs_of s ip + 1))"
proof
  fix q
  show "refs_of (s\<lparr>h_rule := (h_rule s)(rp \<mapsto> r\<lparr>r_iface := io\<rparr>)\<rparr>) q =
         (case io of None \<Rightarrow> refs_of s | Some ip \<Rightarrow> (refs_of s)(ip := refs_of s ip + 1)) q"
    using heap_count_update [OF assms(1,2), of "\<lambda>r. r_iface r = Some q" "r\<lparr>r_iface := io\<rparr>"] assms(3)
    by (cases io) (auto simp: refs_of_def)
qed

lemma refs_proxy_open:
  assumes "finite (dom (h_proxy s))" "h_proxy s pp = Some px" "p_iface px = None"
  shows "refs_of (s\<lparr>h_proxy := (h_proxy s)(pp \<mapsto> px\<lparr>p_iface := io\<rparr>)\<rparr>) =
         (case io of None \<Rightarrow> refs_of s | Some ip \<Rightarrow> (refs_of s)(ip := refs_of s ip + 1))"
proof
  fix q
  show "refs_of (s\<lparr>h_proxy := (h_proxy s)(pp \<mapsto> px\<lparr>p_iface := io\<rparr>)\<rparr>) q =
         (case io of None \<Rightarrow> refs_of s | Some ip \<Rightarrow> (refs_of s)(ip := refs_of s ip + 1)) q"
    using heap_count_update [OF assms(1,2), of "\<lambda>x. p_iface x = Some q" "px\<lparr>p_iface := io\<rparr>"] assms(3)
    by (cases io) (auto simp: refs_of_def)
qed

lemma startup_frame_step: "iface_step s s' \<Longrightarrow> startup_frame {} {} (s :: 'a session_state_scheme) s'"
  using startup_frame_refl [of "{}" "{}" s] iface_step_sameD(8) [of s s']
  by (simp add: startup_frame_def iface_step_session)

lemma startup_frame_rule:
  assumes "h_rule s rp = Some r"
  shows "startup_frame {} {rp} s (s\<lparr>h_rule := (h_rule s)(rp \<mapsto> r\<lparr>r_iface := io\<rparr>)\<rparr>)"
proof -
  have id: "\<exists>io. r = r\<lparr>r_iface := io\<rparr> \<and> io = r_iface r" for r :: nd_rule by simp
  have id': "\<exists>io. px = px\<lparr>p_iface := io\<rparr> \<and> io = p_iface px" for px :: nd_proxy by simp
  show ?thesis using assms id id' by (auto simp: startup_frame_def)
qed

lemma startup_frame_proxy:
  assumes "h_proxy s pp = Some px"
  shows "startup_frame {pp} {} s (s\<lparr>h_proxy := (h_proxy s)(pp \<mapsto> px\<lparr>p_iface := io\<rparr>)\<rparr>)"
proof -
  have id: "\<exists>io. r = r\<lparr>r_iface := io\<rparr> \<and> io = r_iface r" for r :: nd_rule by simp
  have id': "\<exists>io. px = px\<lparr>p_iface := io\<rparr> \<and> io = p_iface px" for px :: nd_proxy by simp
  show ?thesis using assms id id' by (auto simp: startup_frame_def)
qed

lemma no_sessions_step: "iface_step s s' \<Longrightarrow> no_sessions (s :: 'a session_state_scheme) \<Longrightarrow> no_sessions s'"
  by (simp add: no_sessions_def iface_step_session)

lemma iface_proxies_frame:
  assumes "iface_proxies_ok s" "session_frame s s'"
  shows "iface_proxies_ok s'"
  unfolding iface_proxies_ok_def
proof (intro allI impI)
  fix ip i pp
  assume "h_iface s' ip = Some i" "if_proxy i = Some pp"
  then obtain j where "h_iface s ip = Some j" "if_proxy j = Some pp"
    using assms(2) unfolding session_frame_def by (metis option.distinct(1))
  then have "pp \<in> dom (h_proxy s)" using assms(1) unfolding iface_proxies_ok_def by blast
  then show "pp \<in> dom (h_proxy s')" using assms(2) by (simp add: session_frame_def)
qed

lemma startup_rule_ok:
  fixes s :: "'a session_state_scheme"
  assumes inv: "config_inv s" and k: "kernel_ok k" and r: "h_rule s rp = Some r" "r_iface r = None"
  shows "\<exists>b s'. startup_rule k rp s = Some (b, s') \<and> config_inv s' \<and> startup_frame {} {rp} s s' \<and>
                (b \<longrightarrow> rule_started s' rp)"
proof (cases "r_ifname r = []")
  case True
  then show ?thesis using r inv by (auto simp: startup_rule_def rule_started_def)
next
  case False
  have wf: "config_wf s" "no_sessions s" "iface_inv (refs_of s) s" and prox: "iface_proxies_ok s"
    using inv by (simp_all add: config_inv_def)
  have name: "length (r_ifname r) < IF_NAMESIZE" using wf(1) r(1) unfolding config_wf_def by blast
  obtain io s1 where io: "nd_iface_open k (Some (r_ifname r)) 0 False s = Some (io, s1)" "iface_step s s1"
    "iface_inv (case io of None \<Rightarrow> refs_of s | Some p \<Rightarrow> (refs_of s)(p := refs_of s p + 1)) s1"
    by (rule nd_iface_openE [OF wf(3) k, of "Some (r_ifname r)" 0 False]) (use name in auto)
  let ?s = "s1\<lparr>h_rule := (h_rule s1)(rp \<mapsto> r\<lparr>r_iface := io\<rparr>)\<rparr>"
  have r1: "h_rule s1 rp = Some r" "finite (dom (h_rule s1))"
    using r(1) io(2) wf(1) by (simp_all add: iface_step_session config_wf_def)
  have fr: "startup_frame {} {rp} s ?s"
    by (rule startup_frame_trans [OF startup_frame_step [OF io(2)] startup_frame_rule [OF r1(1)]]) simp_all
  have "iface_inv (refs_of ?s) ?s"
    using io(3) refs_rule_open [OF r1(2,1) r(2), of io] refs_of_step [OF io(2)]
    by (simp add: iface_inv_def split: option.splits)
  moreover have "iface_proxies_ok ?s"
    using iface_proxies_frame [OF prox iface_step_frame [OF io(2)]] by (simp add: iface_proxies_ok_def)
  ultimately have "config_inv ?s"
    using config_wf_frame [OF wf(1) fr] no_sessions_step [OF io(2) wf(2)] by (simp add: config_inv_def no_sessions_def)
  moreover have "startup_rule k rp s = Some (io \<noteq> None, ?s)" using r(1) False io(1) by (simp add: startup_rule_def)
  ultimately show ?thesis using fr by (auto simp: rule_started_def)
qed

lemma rule_started_frame: "rule_started s rp \<Longrightarrow> startup_frame P R s s' \<Longrightarrow> rp \<notin> R \<Longrightarrow> rule_started s' rp"
  unfolding rule_started_def using startup_frameD(2) by metis

lemma rule_pending_frame: "rule_pending s rp \<Longrightarrow> startup_frame P R s s' \<Longrightarrow> rp \<notin> R \<Longrightarrow> rule_pending s' rp"
  unfolding rule_pending_def using startup_frameD(2) by metis

lemma startup_rules_ok:
  fixes s :: "'a session_state_scheme"
  assumes "config_inv s" "kernel_ok k" "distinct rps" "set rps \<subseteq> dom (h_rule s)" "\<forall>rp\<in>set rps. rule_pending s rp"
  shows "\<exists>b s'. all_loop (startup_rule k) rps s = Some (b, s') \<and> config_inv s' \<and> startup_frame {} (set rps) s s' \<and>
                (b \<longrightarrow> (\<forall>rp\<in>set rps. rule_started s' rp))"
  using assms
proof (induction rps arbitrary: s)
  case (Cons rp rps)
  then obtain r where r: "h_rule s rp = Some r" "r_iface r = None" by (auto simp: rule_pending_def)
  obtain b s1 where s1: "startup_rule k rp s = Some (b, s1)" "config_inv s1" "startup_frame {} {rp} s s1"
    "b \<longrightarrow> rule_started s1 rp" using startup_rule_ok [OF Cons.prems(1,2) r] by blast
  show ?case
  proof (cases b)
    case False
    have "startup_frame {} (set (rp # rps)) s s1"
      by (rule startup_frame_trans [OF s1(3) startup_frame_refl [of "{}" "{}"]]) simp_all
    then show ?thesis using False s1 by auto
  next
    case True
    have "set rps \<subseteq> dom (h_rule s1)" using Cons.prems(4) s1(3) by (auto simp: startup_frame_def)
    moreover have "\<forall>q\<in>set rps. rule_pending s1 q"
      using Cons.prems(3,5) rule_pending_frame [OF _ s1(3)] by auto
    ultimately obtain b' s' where s': "all_loop (startup_rule k) rps s1 = Some (b', s')" "config_inv s'"
      "startup_frame {} (set rps) s1 s'" "b' \<longrightarrow> (\<forall>q\<in>set rps. rule_started s' q)"
      using Cons.IH [OF s1(2) Cons.prems(2)] Cons.prems(3) by auto
    have "rule_started s' rp" using rule_started_frame [OF _ s'(3)] s1(4) True Cons.prems(3) by auto
    moreover have "startup_frame {} (set (rp # rps)) s s'"
      by (rule startup_frame_trans [OF s1(3) s'(3)]) auto
    ultimately show ?thesis using True s1(1) s' by auto
  qed
qed auto

lemma iface_set_proxy:
  assumes "iface_inv refs s" "h_iface s ip = Some i"
  shows "iface_inv refs (s\<lparr>h_iface := (h_iface s)(ip \<mapsto> i\<lparr>if_proxy := pp\<rparr>)\<rparr>)"
proof -
  let ?s = "s\<lparr>h_iface := (h_iface s)(ip \<mapsto> i\<lparr>if_proxy := pp\<rparr>)\<rparr>"
  have "iface_entry_ok refs q (h_iface ?s q)" for q
    using iface_invD(4) [OF assms(1), of q] assms(2) by (cases "q = ip") (simp_all add: iface_entry_ok_def)
  moreover have "dom (h_iface ?s) = dom (h_iface s)" using assms(2) by auto
  ultimately show ?thesis using assms(1) by (simp add: iface_inv_def)
qed

lemma startup_proxy_ok:
  fixes s :: "'a session_state_scheme"
  assumes inv: "config_inv s" and k: "kernel_ok k" and px: "h_proxy s pp = Some px" and pend: "proxy_pending s pp"
  shows "\<exists>b s'. startup_proxy k pp s = Some (b, s') \<and> config_inv s' \<and> startup_frame {pp} (set (p_rules px)) s s' \<and>
                (b \<longrightarrow> proxy_started s' pp)"
proof (cases "p_rules px = []")
  case True
  then show ?thesis using px inv by (auto simp: startup_proxy_def)
next
  case False
  have wf: "config_wf s" "no_sessions s" "iface_inv (refs_of s) s" and prox: "iface_proxies_ok s"
    using inv by (simp_all add: config_inv_def)
  have name: "length (p_ifname px) < IF_NAMESIZE" "distinct (p_rules px)" "set (p_rules px) \<subseteq> dom (h_rule s)"
    using wf(1) px unfolding config_wf_def by blast+
  have none: "p_iface px = None" "\<forall>rp\<in>set (p_rules px). rule_pending s rp" using pend px by (auto simp: proxy_pending_def)
  obtain io s1 where io: "nd_iface_open k (Some (p_ifname px)) 0 (p_promiscuous px) s = Some (io, s1)" "iface_step s s1"
    "iface_inv (case io of None \<Rightarrow> refs_of s | Some p \<Rightarrow> (refs_of s)(p := refs_of s p + 1)) s1"
    by (rule nd_iface_openE [OF wf(3) k, of "Some (p_ifname px)" 0 "p_promiscuous px"]) (use name in auto)
  let ?s = "s1\<lparr>h_proxy := (h_proxy s1)(pp \<mapsto> px\<lparr>p_iface := io\<rparr>)\<rparr>"
  have px1: "h_proxy s1 pp = Some px" "finite (dom (h_proxy s1))"
    using px io(2) finite_proxies [OF wf(1)] by (simp_all add: iface_step_session)
  have fr: "startup_frame {pp} {} s ?s"
    by (rule startup_frame_trans [OF startup_frame_step [OF io(2)] startup_frame_proxy [OF px1(1)]]) simp_all
  have ifi: "iface_inv (refs_of ?s) ?s"
    using io(3) refs_proxy_open [OF px1(2,1) none(1), of io] refs_of_step [OF io(2)]
    by (simp add: iface_inv_def split: option.splits)
  moreover have prox1: "iface_proxies_ok ?s"
    using iface_proxies_frame [OF prox iface_step_frame [OF io(2)]] px1(1) by (auto simp: iface_proxies_ok_def)
  ultimately have inv1: "config_inv ?s"
    using config_wf_frame [OF wf(1) fr] no_sessions_step [OF io(2) wf(2)] by (simp add: config_inv_def no_sessions_def)
  show ?thesis
  proof (cases io)
    case None
    have "startup_frame {pp} (set (p_rules px)) s ?s"
      by (rule startup_frame_trans [OF fr startup_frame_refl [of "{}" "{}"]]) simp_all
    then show ?thesis using None px False io(1) inv1 by (auto simp: startup_proxy_def)
  next
    case (Some ip)
    have "0 < refs_of ?s ip"
      using refs_proxy [of ?s pp "px\<lparr>p_iface := io\<rparr>" ip] px1(2) Some by simp
    then obtain i where i: "h_iface ?s ip = Some i" using iface_inv_live [OF ifi] by blast
    let ?t = "?s\<lparr>h_iface := (h_iface ?s)(ip \<mapsto> i\<lparr>if_proxy := Some pp\<rparr>)\<rparr>"
    have frt: "startup_frame {} {} ?s ?t" using startup_frame_refl [of "{}" "{}" ?s] by (simp add: startup_frame_def)
    have frt': "startup_frame {pp} {} s ?t" by (rule startup_frame_trans [OF fr frt]) simp_all
    have refs: "refs_of ?t = refs_of ?s" by (simp add: refs_of_def [abs_def])
    have "iface_inv (refs_of ?t) ?t" unfolding refs by (rule iface_set_proxy [OF ifi i])
    moreover have "iface_proxies_ok ?t" using prox1 by (auto simp: iface_proxies_ok_def split: if_splits)
    ultimately have invt: "config_inv ?t"
      using config_wf_frame [OF wf(1) frt'] inv1 by (simp add: config_inv_def no_sessions_def)
    have "set (p_rules px) \<subseteq> dom (h_rule ?t)" using name(3) frt' by (simp add: startup_frame_def)
    moreover have "\<forall>rp\<in>set (p_rules px). rule_pending ?t rp" using none(2) rule_pending_frame [OF _ frt'] by auto
    ultimately obtain b s' where s': "all_loop (startup_rule k) (p_rules px) ?t = Some (b, s')" "config_inv s'"
      "startup_frame {} (set (p_rules px)) ?t s'" "b \<longrightarrow> (\<forall>rp\<in>set (p_rules px). rule_started s' rp)"
      using startup_rules_ok [OF invt k name(2)] by blast
    have "h_proxy s' pp = Some (px\<lparr>p_iface := io\<rparr>)"
      using s'(3) unfolding startup_frame_def by fastforce
    then have "b \<longrightarrow> proxy_started s' pp" using s'(4) Some by (simp add: proxy_started_def)
    moreover have "startup_frame {pp} (set (p_rules px)) s s'" by (rule startup_frame_trans [OF frt' s'(3)]) simp_all
    moreover have "startup_proxy k pp s = Some (b, s')" using px False io(1) Some i s'(1) by (simp add: startup_proxy_def)
    ultimately show ?thesis using s'(2) by blast
  qed
qed

text \<open>A rule belongs to the list of one proxy only, so starting one proxy leaves the rest pending.\<close>

lemma proxy_rules_disjoint:
  assumes "config_wf s" "h_proxy s pp = Some px" "h_proxy s qq = Some qx" "pp \<noteq> qq"
  shows "set (p_rules px) \<inter> set (p_rules qx) = {}"
proof -
  have "r_proxy r = pp" if "rp \<in> set (p_rules px)" "h_rule s rp = Some r" for rp r
    using assms(1,2) that unfolding config_wf_def by fastforce
  moreover have "\<exists>r. h_rule s rp = Some r \<and> r_proxy r = qq" if "rp \<in> set (p_rules qx)" for rp
    using assms(1,3) that unfolding config_wf_def by blast
  ultimately show ?thesis using assms(4) by fastforce
qed

lemma proxy_other_frame:
  assumes "config_wf s" "startup_frame {pp} (set (p_rules px)) s s'" "h_proxy s pp = Some px" "qq \<noteq> pp"
  shows "proxy_pending s qq \<Longrightarrow> proxy_pending s' qq" "proxy_started s qq \<Longrightarrow> proxy_started s' qq"
proof -
  have same: "h_proxy s qq = Some qx" if "h_proxy s' qq = Some qx" for qx
    using startup_frameD(1) [OF assms(2) that] assms(4) by auto
  have notin: "rp \<notin> set (p_rules px)" if "h_proxy s qq = Some qx" "rp \<in> set (p_rules qx)" for qx rp
    using proxy_rules_disjoint [OF assms(1,3) that(1)] assms(4) that(2) by auto
  show "proxy_pending s' qq" if "proxy_pending s qq"
    using that same notin rule_pending_frame [OF _ assms(2)] unfolding proxy_pending_def by blast
  show "proxy_started s' qq" if "proxy_started s qq"
    using that same notin rule_started_frame [OF _ assms(2)] unfolding proxy_started_def by blast
qed

lemma startup_proxies_ok:
  fixes s :: "'a session_state_scheme"
  assumes "config_inv s" "modes_ok s" "kernel_ok k" "distinct pps" "set pps \<subseteq> dom (h_proxy s)"
    "\<forall>pp\<in>set pps. proxy_pending s pp" "\<forall>pp\<in>dom (h_proxy s) - set pps. proxy_started s pp"
  shows "\<exists>b s'. all_loop (startup_proxy k) pps s = Some (b, s') \<and> config_inv s' \<and> modes_ok s' \<and>
                (b \<longrightarrow> (\<forall>pp\<in>dom (h_proxy s'). proxy_started s' pp))"
  using assms
proof (induction pps arbitrary: s)
  case Nil
  then show ?case by auto
next
  case (Cons pp pps)
  then obtain px where px: "h_proxy s pp = Some px" by auto
  obtain b s1 where s1: "startup_proxy k pp s = Some (b, s1)" "config_inv s1" "startup_frame {pp} (set (p_rules px)) s s1"
    "b \<longrightarrow> proxy_started s1 pp"
    using startup_proxy_ok [OF Cons.prems(1,3) px] Cons.prems(6) by auto
  have wf: "config_wf s" using Cons.prems(1) by (simp add: config_inv_def)
  have modes: "modes_ok s1" by (rule modes_ok_frame [OF Cons.prems(2) s1(3)])
  have dom: "dom (h_proxy s1) = dom (h_proxy s)" using s1(3) by (simp add: startup_frame_def)
  show ?case
  proof (cases b)
    case False
    then show ?thesis using s1 modes by auto
  next
    case True
    have "\<forall>q\<in>set pps. proxy_pending s1 q"
      using Cons.prems(4,6) proxy_other_frame(1) [OF wf s1(3) px] by (metis distinct.simps(2) list.set_intros(2))
    moreover have "\<forall>q\<in>dom (h_proxy s1) - set pps. proxy_started s1 q"
    proof
      fix q
      assume q: "q \<in> dom (h_proxy s1) - set pps"
      show "proxy_started s1 q"
      proof (cases "q = pp")
        case False
        then have "proxy_started s q" using q dom Cons.prems(7) by auto
        then show ?thesis by (rule proxy_other_frame(2) [OF wf s1(3) px False])
      qed (use s1(4) True in simp)
    qed
    ultimately show ?thesis
      using Cons.IH [OF s1(2) modes Cons.prems(3)] Cons.prems(4,5) dom True s1(1) by auto
  qed
qed

lemma started_running_inv:
  assumes "config_inv s" "modes_ok s" "\<forall>pp\<in>dom (h_proxy s). proxy_started s pp"
  shows "running_inv s"
proof -
  have wf: "config_wf s" "no_sessions s" "iface_inv (refs_of s) s" and prox: "iface_proxies_ok s"
    using assms(1) by (simp_all add: config_inv_def)
  have "rule_ok s r" if r: "h_rule s rp = Some r" for rp r
  proof -
    obtain px where px: "h_proxy s (r_proxy r) = Some px" "rp \<in> set (p_rules px)"
      using wf(1) r unfolding config_wf_def by blast
    then have "rule_started s rp" using assms(3) by (auto simp: proxy_started_def)
    then show ?thesis using r px(1) assms(2) by (auto simp: rule_ok_def rule_started_def modes_ok_def)
  qed
  moreover have "proxy_ok s pp px" if px: "h_proxy s pp = Some px" for pp px
  proof -
    have "p_iface px \<noteq> None" using assms(3) px by (auto simp: proxy_started_def)
    moreover have "\<forall>rp\<in>set (p_rules px). \<exists>r. h_rule s rp = Some r \<and> r_proxy r = pp"
      using wf(1) px unfolding config_wf_def by blast
    ultimately show ?thesis by (simp add: proxy_ok_def)
  qed
  moreover have "finite (dom (h_rule s))" using wf(1) by (simp add: config_wf_def)
  ultimately have "config_ok s" using finite_proxies [OF wf(1)] by (simp add: config_ok_def)
  moreover have "tables_ok s"
    using wf(2) buckets.index_empty [of "ndL_hash_seed s" s_tgt] buckets.index_empty [of "ndL_hash_seed s" s_tgt_r]
    by (simp add: tables_ok_def no_sessions_def ND_SESSION_MAX_def)
  ultimately show ?thesis
    using wf(2,3) prox by (simp add: running_inv_def daemon_inv_def session_wf_def unique_targets_def no_sessions_def)
qed

text \<open>The whole of startup: safe, and on success the daemon starts in its invariant.\<close>

lemma nd_proxy_startup_ok:
  assumes "config_inv s" "modes_ok s" "kernel_ok k" "\<forall>pp\<in>dom (h_proxy s). proxy_pending s pp"
  shows "\<exists>b s'. nd_proxy_startup k s = Some (b, s') \<and> (b \<longrightarrow> running_inv s' \<and> ndL_proxies s \<noteq> [])"
proof (cases "ndL_proxies s = []")
  case True
  then show ?thesis by (auto simp: nd_proxy_startup_def)
next
  case False
  have "distinct (ndL_proxies s)" "set (ndL_proxies s) = dom (h_proxy s)"
    using assms(1) by (simp_all add: config_inv_def config_wf_def)
  then obtain b s' where "all_loop (startup_proxy k) (ndL_proxies s) s = Some (b, s')" "config_inv s'" "modes_ok s'"
    "b \<longrightarrow> (\<forall>pp\<in>dom (h_proxy s'). proxy_started s' pp)"
    using startup_proxies_ok [OF assms(1-3), of "ndL_proxies s"] assms(4) by auto
  then show ?thesis using False started_running_inv by (auto simp: nd_proxy_startup_def)
qed

subsection \<open>The creating operations build a well-formed configuration\<close>

lemma config_invD:
  assumes "config_inv s"
  shows "config_wf s" "no_sessions s" "iface_inv (refs_of s) s" "iface_proxies_ok s"
  using assms by (simp_all add: config_inv_def)

lemma fresh_config:
  assumes "config_wf s"
  shows "h_proxy s (heap_next s) = None" "h_rule s (heap_next s) = None"
  using assms unfolding config_wf_def by (metis less_irrefl not_None_eq)+

lemma iface_inv_next: "iface_inv refs s \<Longrightarrow> heap_next s \<le> n \<Longrightarrow> iface_inv refs (s\<lparr>heap_next := n\<rparr>)"
  by (auto simp: iface_inv_def intro: less_le_trans)

definition all_pending :: "'a session_state_scheme \<Rightarrow> bool" where
  "all_pending s \<longleftrightarrow> (\<forall>pp px. h_proxy s pp = Some px \<longrightarrow> p_iface px = None) \<and> (\<forall>rp r. h_rule s rp = Some r \<longrightarrow> r_iface r = None)"

definition distinct_names :: "'a session_state_scheme \<Rightarrow> bool" where
  "distinct_names s \<longleftrightarrow>
     (\<forall>pp qq px qx. h_proxy s pp = Some px \<longrightarrow> h_proxy s qq = Some qx \<longrightarrow> p_ifname px = p_ifname qx \<longrightarrow> pp = qq)"

lemma refs_no_ifaces:
  "all_pending s \<Longrightarrow> no_sessions s \<Longrightarrow> refs_of s = (\<lambda>_. 0)"
proof -
  assume pend: "all_pending s" and "no_sessions s"
  then have "h_session s = Map.empty" by (simp add: no_sessions_def)
  moreover have "heap_count (\<lambda>r. r_iface r = Some q) (h_rule s) = 0" "heap_count (\<lambda>x. p_iface x = Some q) (h_proxy s) = 0" for q
  proof -
    have "{p. \<exists>x. h_rule s p = Some x \<and> r_iface x = Some q} = {}" using pend by (auto simp: all_pending_def)
    then show "heap_count (\<lambda>r. r_iface r = Some q) (h_rule s) = 0" by (simp only: heap_count_def card.empty)
    have "{p. \<exists>x. h_proxy s p = Some x \<and> p_iface x = Some q} = {}" using pend by (auto simp: all_pending_def)
    then show "heap_count (\<lambda>x. p_iface x = Some q) (h_proxy s) = 0" by (simp only: heap_count_def card.empty)
  qed
  ultimately show ?thesis by (simp add: refs_of_def [abs_def])
qed

lemma config_heaps_changed:
  assumes "config_inv s" "all_pending s" "config_wf s'" "all_pending s'" "no_sessions s'"
    and "h_iface s' = h_iface s" "ndL_first_iface s' = ndL_first_iface s" "heap_next s \<le> heap_next s'"
    and "dom (h_proxy s) \<subseteq> dom (h_proxy s')"
  shows "config_inv s'"
proof -
  have "iface_inv (refs_of s') s'"
    using config_invD(3) [OF assms(1)] assms refs_no_ifaces [OF assms(2) config_invD(2) [OF assms(1)]]
      refs_no_ifaces [OF assms(4,5)]
    by (auto simp: iface_inv_def intro: less_le_trans)
  moreover have "iface_proxies_ok s'"
    using config_invD(4) [OF assms(1)] assms(6,9) unfolding iface_proxies_ok_def by (metis subsetD)
  ultimately show ?thesis using assms(3,5) by (simp add: config_inv_def)
qed

lemma nd_proxy_create_new:
  assumes "config_inv s" "all_pending s" "length nm < IF_NAMESIZE"
  defines "p \<equiv> heap_next s"
  defines "px \<equiv> \<lparr>p_ifname = nm, p_target = zero_lladdr, p_iface = None, p_rules = [], p_router = False, p_promiscuous = False\<rparr>"
  defines "s' \<equiv> s\<lparr>h_proxy := (h_proxy s)(p \<mapsto> px), ndL_proxies := p # ndL_proxies s, heap_next := Suc p\<rparr>"
  shows "config_inv s'" "all_pending s'"
proof -
  note wf = config_invD(1) [OF assms(1)]
  have fresh: "h_proxy s p = None" unfolding p_def by (rule fresh_config(1) [OF wf])
  show pend: "all_pending s'" using assms(2) by (auto simp: all_pending_def s'_def px_def)
  have "config_wf s'"
    unfolding config_wf_def
  proof (intro conjI allI impI)
    show "finite (dom (h_rule s'))" "set (ndL_proxies s') = dom (h_proxy s')"
      using wf by (auto simp: config_wf_def s'_def)
    show "distinct (ndL_proxies s')" using wf fresh by (auto simp: config_wf_def s'_def)
  next
    fix q x
    assume q: "h_proxy s' q = Some x"
    show "q < heap_next s'" "length (p_ifname x) < IF_NAMESIZE" "distinct (p_rules x)"
      "\<forall>rp\<in>set (p_rules x). \<exists>r. h_rule s' rp = Some r \<and> r_proxy r = q"
      using q wf assms(3) unfolding config_wf_def s'_def p_def px_def by (auto split: if_splits intro: less_SucI)
  next
    fix rp r
    assume r: "h_rule s' rp = Some r"
    then have "rp < heap_next s \<and> length (r_ifname r) < IF_NAMESIZE \<and> (\<exists>px. h_proxy s (r_proxy r) = Some px \<and> rp \<in> set (p_rules px))"
      using wf unfolding config_wf_def s'_def by auto
    then show "rp < heap_next s'" "length (r_ifname r) < IF_NAMESIZE" "\<exists>px. h_proxy s' (r_proxy r) = Some px \<and> rp \<in> set (p_rules px)"
      using fresh by (auto simp: s'_def p_def)
  qed
  moreover have "no_sessions s'" using config_invD(2) [OF assms(1)] by (simp add: no_sessions_def s'_def)
  moreover have "h_iface s' = h_iface s" "ndL_first_iface s' = ndL_first_iface s" "heap_next s \<le> heap_next s'"
    "dom (h_proxy s) \<subseteq> dom (h_proxy s')" by (auto simp: s'_def p_def)
  ultimately show "config_inv s'" using config_heaps_changed [OF assms(1,2) _ pend] by blast
qed

lemma nd_proxy_create_ok:
  assumes "config_inv s" "all_pending s" "distinct_names s" "length nm < IF_NAMESIZE"
  shows "\<exists>r s'. nd_proxy_create nm s = Some (r, s') \<and> config_inv s' \<and> all_pending s' \<and> distinct_names s' \<and>
     (case r of None \<Rightarrow> s' = s \<and> (\<exists>pp px. h_proxy s pp = Some px \<and> p_ifname px = nm)
      | Some pp \<Rightarrow> h_proxy s pp = None \<and> (\<exists>px. h_proxy s' pp = Some px \<and> p_ifname px = nm \<and> p_rules px = []))"
proof -
  note wf = config_invD(1) [OF assms(1)]
  obtain found where found: "heap_find (h_proxy s) (\<lambda>px. p_ifname px = nm) (ndL_proxies s) = Some found"
    using heap_find_total [of "ndL_proxies s" "h_proxy s"] wf by (fastforce simp: config_wf_def)
  show ?thesis
  proof (cases found)
    case (Some pp)
    then obtain px where "h_proxy s pp = Some px" "p_ifname px = nm" using heap_find_SomeD found by fastforce
    then show ?thesis using Some found assms by (auto simp: nd_proxy_create_def)
  next
    case None
    have "p_ifname px \<noteq> nm" if "h_proxy s pp = Some px" for pp px
    proof -
      have "pp \<in> set (ndL_proxies s)" using wf that by (auto simp: config_wf_def)
      from heap_find_NoneD [OF found [unfolded None] this] that show ?thesis by auto
    qed
    then show ?thesis
      using None found assms nd_proxy_create_new [OF assms(1,2,4)] fresh_config(1) [OF wf]
      by (auto simp: nd_proxy_create_def Let_def distinct_names_def)
  qed
qed

lemma nd_rule_create_ok:
  assumes "config_inv s" "all_pending s" "distinct_names s" "h_proxy s pp = Some px"
  shows "\<exists>rp s' r. nd_rule_create pp s = Some (rp, s') \<and> config_inv s' \<and> all_pending s' \<and> distinct_names s' \<and>
     h_rule s rp = None \<and> h_rule s' = (h_rule s)(rp \<mapsto> r) \<and> r_proxy r = pp \<and> r_target r = p_target px \<and>
     h_proxy s' = (h_proxy s)(pp \<mapsto> px\<lparr>p_rules := rp # p_rules px\<rparr>)"
proof -
  note wf = config_invD(1) [OF assms(1)]
  define rp where "rp = heap_next s"
  define r where "r = \<lparr>r_proxy = pp, r_ifname = [], r_target = p_target px, r_addr = zero_addr, r_prefix = 0,
              r_rewrite_tgt = zero_addr, r_rewrite_pflen = 0, r_iface = None, r_autowire = False,
              r_table = 0, r_mode = ND_MODE_UNKNOWN\<rparr>"
  let ?s = "s\<lparr>h_rule := (h_rule s)(rp \<mapsto> r), h_proxy := (h_proxy s)(pp \<mapsto> px\<lparr>p_rules := rp # p_rules px\<rparr>),
                heap_next := Suc rp\<rparr>"
  have fresh: "h_rule s rp = None" unfolding rp_def by (rule fresh_config(2) [OF wf])
  have pend: "all_pending ?s" using assms(2,4) by (auto simp: all_pending_def r_def)
  have notin: "rp \<notin> set (p_rules qx)" if "h_proxy s qq = Some qx" for qq qx
    using wf that fresh unfolding config_wf_def by (metis option.distinct(1))
  have wf': "config_wf ?s"
    unfolding config_wf_def
  proof (intro conjI allI impI)
    show "finite (dom (h_rule ?s))" "distinct (ndL_proxies ?s)" "set (ndL_proxies ?s) = dom (h_proxy ?s)"
      using wf assms(4) by (auto simp: config_wf_def)
  next
    fix qq qx
    assume q: "h_proxy ?s qq = Some qx"
    have "qq < heap_next s \<and> length (p_ifname y) < IF_NAMESIZE \<and> distinct (p_rules y) \<and>
      (\<forall>rp\<in>set (p_rules y). \<exists>r. h_rule s rp = Some r \<and> r_proxy r = qq)" if "h_proxy s qq = Some y" for y
      using wf that unfolding config_wf_def by blast
    then show "qq < heap_next ?s" "length (p_ifname qx) < IF_NAMESIZE" "distinct (p_rules qx)"
      "\<forall>rp\<in>set (p_rules qx). \<exists>r. h_rule ?s rp = Some r \<and> r_proxy r = qq"
      using q assms(4) notin by (auto simp: rp_def r_def split: if_splits intro: less_SucI)
  next
    fix q x
    assume q: "h_rule ?s q = Some x"
    have "q < heap_next s \<and> length (r_ifname x) < IF_NAMESIZE \<and>
      (\<exists>px. h_proxy s (r_proxy x) = Some px \<and> q \<in> set (p_rules px))" if "h_rule s q = Some x"
      using wf that unfolding config_wf_def by blast
    then show "q < heap_next ?s" "length (r_ifname x) < IF_NAMESIZE"
      "\<exists>px. h_proxy ?s (r_proxy x) = Some px \<and> q \<in> set (p_rules px)"
      using q assms(4) by (auto simp: rp_def r_def IF_NAMESIZE_def split: if_splits intro: less_SucI)
  qed
  have "no_sessions ?s" using config_invD(2) [OF assms(1)] by (simp add: no_sessions_def)
  then have "config_inv ?s"
    by (rule config_heaps_changed [OF assms(1,2) wf' pend]) (auto simp: rp_def)
  moreover have "distinct_names ?s"
    using assms(3,4) unfolding distinct_names_def by (auto split: if_splits)
  moreover have "nd_rule_create pp s = Some (rp, ?s)"
    using assms(4) by (simp add: nd_rule_create_def Let_def rp_def r_def)
  ultimately show ?thesis using pend fresh by (auto simp: r_def)
qed

end
