(* ===== verification/Rebind.thy ===== *)
theory Rebind
  imports Proxy
begin

text \<open>
  \<open>nd_iface_rebind_all\<close> of \<^verbatim>\<open>src/iface.c\<close> (Linux): reconciling every interface object with what the
  kernel says.  Beside safety, the lemmas show that a pass converges: afterwards every
  interface the kernel answers for is bound to the current index and link-layer address, or
  waiting if it is absent, and a second pass under the same answers does nothing.
\<close>

definition update_iface :: "ptr \<Rightarrow> (nd_iface \<Rightarrow> nd_iface) \<Rightarrow> 'a session_state_scheme \<Rightarrow> 'a session_state_scheme option" where
  "update_iface ip g s = do {
     i \<leftarrow> h_iface s ip;
     Some (s\<lparr>h_iface := (h_iface s)(ip \<mapsto> g i)\<rparr>)
   }"

text \<open>The interface is absent from the kernel.\<close>

definition rebind_absent :: "ptr \<Rightarrow> nd_iface \<Rightarrow> 'a session_state_scheme \<Rightarrow> 'a session_state_scheme option" where
  "rebind_absent ip i s =
     (if if_up i then do {
        s1 \<leftarrow> update_iface ip (\<lambda>i. i\<lparr>if_up := False, if_admin_up := False\<rparr>) s;
        nd_session_iface_changed ip False s1
      } else Some s)"

text \<open>The interface has index \<open>cur\<close>; \<open>i\<close> already has the fresh link-layer address.\<close>

definition rebind_present ::
  "kernel \<Rightarrow> ptr \<Rightarrow> nd_iface \<Rightarrow> nat \<Rightarrow> 'a session_state_scheme \<Rightarrow> 'a session_state_scheme option" where
  "rebind_present k ip i cur s =
     (let admin_up = (siocgifflags_up k (if_name i) = Some True); mr = mr_type_of (if_promiscuous i) in
      if cur = if_index i \<and> if_up i then do {
        s1 \<leftarrow> (if admin_up \<noteq> if_admin_up i then nd_session_iface_changed ip admin_up s else Some s);
        update_iface ip (\<lambda>i. i\<lparr>if_admin_up := admin_up\<rparr>) s1
      } else do {
        let s1 = emit (AddMembership cur mr) s;
        if \<not> add_membership k cur mr then Some s1
        else do {
          let s2 = (if if_index i \<noteq> 0 \<and> if_index i \<noteq> cur then emit (DropMembership (if_index i) mr) s1 else s1);
          s3 \<leftarrow> (if if_up i then nd_session_iface_changed ip False s2 else Some s2);
          s4 \<leftarrow> update_iface ip (\<lambda>i. i\<lparr>if_index := cur, if_up := True\<rparr>) s3;
          s5 \<leftarrow> (if admin_up then nd_session_iface_changed ip True s4 else Some s4);
          update_iface ip (\<lambda>i. i\<lparr>if_admin_up := admin_up\<rparr>) s5
        }
      })"

definition rebind_one :: "kernel \<Rightarrow> ptr \<Rightarrow> 'a session_state_scheme \<Rightarrow> 'a session_state_scheme option" where
  "rebind_one k ip s = do {
     i \<leftarrow> h_iface s ip;
     case if_nametoindex k (if_name i) of
       Inl EOTHER \<Rightarrow> Some s
     | Inl ENODEV \<Rightarrow> rebind_absent ip i s
     | Inr cur \<Rightarrow> do {
         require (length (if_name i) < IF_NAMESIZE);
         let i' = (case siocgifhwaddr k (if_name i) of
                     Some l \<Rightarrow> if \<not> nd_lladdr_eq (if_lladdr i) l then i\<lparr>if_lladdr := l\<rparr> else i
                   | None \<Rightarrow> i);
         s1 \<leftarrow> update_iface ip (\<lambda>_. i') s;
         rebind_present k ip i' cur s1
       }
   }"

definition nd_iface_rebind_all :: "kernel \<Rightarrow> 'a session_state_scheme \<Rightarrow> 'a session_state_scheme option" where
  "nd_iface_rebind_all k s = (if \<not> ndL_io s then Some s else foldM (rebind_one k) (ndL_first_iface s) s)"

subsection \<open>The effect of an interface change on the sessions\<close>

text \<open>
  What \<open>nd_session_iface_changed\<close> does to one session: it forgets the routes of an interface that
  went away, and marks the ones it adds again when it comes back.
\<close>

definition wired :: "'a session_state_scheme \<Rightarrow> ptr \<Rightarrow> bool \<Rightarrow> nd_session \<Rightarrow> nd_session" where
  "wired s ip up x =
     (if s_iface x \<noteq> Some ip then x
      else if \<not> up then x\<lparr>s_autowired := False\<rparr>
      else if s_state x = ND_STATE_VALID \<and> (\<exists>i. h_iface s ip = Some i \<and> if_up i) \<and>
              (\<exists>r. h_rule s (s_rule x) = Some r \<and> r_autowire r)
      then x\<lparr>s_autowired := True\<rparr> else x)"

text \<open>Everything but the sessions' contents and the trace stays as it was.\<close>

definition only_sessions :: "'a session_state_scheme \<Rightarrow> 'a session_state_scheme \<Rightarrow> bool" where
  "only_sessions s s' \<longleftrightarrow>
     h_iface s' = h_iface s \<and> ndL_first_iface s' = ndL_first_iface s \<and> ndL_io s' = ndL_io s \<and>
     h_rule s' = h_rule s \<and> ndL_sessions s' = ndL_sessions s"

lemma only_sessions_refl [simp]: "only_sessions s s"
  by (simp add: only_sessions_def)

lemma only_sessions_trans: "only_sessions s s' \<Longrightarrow> only_sessions s' s'' \<Longrightarrow> only_sessions s s''"
  by (simp add: only_sessions_def)

lemma wired_cong: "only_sessions s s' \<Longrightarrow> wired s' ip up = wired s ip up"
  by (auto simp: wired_def fun_eq_iff only_sessions_def)

lemma wired_twice: "wired s ip up (wired s ip up x) = wired s ip up x"
  by (auto simp: wired_def)

lemma ndL_up_effect:
  assumes "ndL_up p s = Some s'" "h_session s p = Some x" "s_iface x = Some ip" "s_state x = ND_STATE_VALID"
  shows "h_session s' = (h_session s)(p \<mapsto> wired s ip True x) \<and> only_sessions s s'"
proof -
  obtain i where i: "h_iface s ip = Some i" using assms by (auto simp: ndL_up_def bind_eq_Some_conv)
  have eq: "(h_session s)(p \<mapsto> x) = h_session s" using assms(2) by auto
  show ?thesis
  proof (cases "if_up i \<and> \<not> s_autowired x")
    case False
    then have "x\<lparr>s_autowired := True\<rparr> = x" if "if_up i" using that by simp
    then show ?thesis using False assms i eq by (auto simp: ndL_up_def wired_def)
  next
    case True
    then obtain r where "h_rule s (s_rule x) = Some r" using assms i by (auto simp: ndL_up_def bind_eq_Some_conv)
    then show ?thesis
      using True assms i eq
      by (auto simp: ndL_up_def wired_def nd_rt_add_route_def emit_def only_sessions_def put_session_def split: if_splits)
  qed
qed

lemma iface_changed_one_effect:
  assumes "iface_changed_one ip up p s = Some s'"
  shows "h_session s' = (h_session s)(p := map_option (wired s ip up) (h_session s p)) \<and> only_sessions s s'"
proof -
  obtain x where x: "h_session s p = Some x" using assms by (auto simp: iface_changed_one_def bind_eq_Some_conv)
  have eq: "(h_session s)(p \<mapsto> x) = h_session s" using x by auto
  consider "s_iface x \<noteq> Some ip" | "s_iface x = Some ip" "\<not> up" | "s_iface x = Some ip" "up" "s_state x = ND_STATE_VALID"
    | "s_iface x = Some ip" "up" "s_state x \<noteq> ND_STATE_VALID" by blast
  then show ?thesis
  proof cases
    case 3
    then have "ndL_up p s = Some s'" using assms x by (simp add: iface_changed_one_def)
    from ndL_up_effect [OF this x 3(1,3)] 3(2) show ?thesis using x by simp
  qed (use assms x eq in \<open>auto simp: iface_changed_one_def wired_def only_sessions_def\<close>)
qed

lemma changed_chain_effect:
  assumes "foldM (iface_changed_one ip up) ps s = Some s'"
  shows "only_sessions s s' \<and>
         h_session s' = (\<lambda>q. if q \<in> set ps then map_option (wired s ip up) (h_session s q) else h_session s q)"
  using assms
proof (induction ps arbitrary: s)
  case (Cons p ps)
  then obtain s1 where s1: "iface_changed_one ip up p s = Some s1" "foldM (iface_changed_one ip up) ps s1 = Some s'"
    by (auto simp: bind_eq_Some_conv)
  note e1 = iface_changed_one_effect [OF s1(1)] and e2 = Cons.IH [OF s1(2)]
  have w: "wired s1 ip up = wired s ip up" using e1 wired_cong by blast
  have "h_session s' q = (if q \<in> set (p # ps) then map_option (wired s ip up) (h_session s q) else h_session s q)" for q
    using e1 e2 w by (cases "q = p") (simp_all add: option.map_comp o_def wired_twice)
  then show ?case using e1 e2 only_sessions_trans by blast
qed (simp add: fun_eq_iff)

lemma changed_buckets_effect:
  assumes "foldM (\<lambda>i s. foldM (iface_changed_one ip up) (ndL_sessions s ! i) s) is s = Some s'"
  shows "only_sessions s s' \<and>
         h_session s' = (\<lambda>q. if \<exists>i\<in>set is. q \<in> set (ndL_sessions s ! i) then map_option (wired s ip up) (h_session s q)
                             else h_session s q)"
  using assms
proof (induction "is" arbitrary: s)
  case (Cons i "is")
  then obtain s1 where s1: "foldM (iface_changed_one ip up) (ndL_sessions s ! i) s = Some s1"
    "foldM (\<lambda>i s. foldM (iface_changed_one ip up) (ndL_sessions s ! i) s) is s1 = Some s'"
    by (auto simp: bind_eq_Some_conv)
  note e1 = changed_chain_effect [OF s1(1)] and e2 = Cons.IH [OF s1(2)]
  have w: "wired s1 ip up = wired s ip up" "ndL_sessions s1 = ndL_sessions s"
    using e1 wired_cong by (auto simp: only_sessions_def)
  have "h_session s' q = (if \<exists>j\<in>set (i # is). q \<in> set (ndL_sessions s ! j) then map_option (wired s ip up) (h_session s q)
                          else h_session s q)" for q
    using e1 e2 w by (auto simp: option.map_comp o_def wired_twice)
  then show ?case using e1 e2 only_sessions_trans by blast
qed (simp add: fun_eq_iff)

text \<open>Every live session is in some chain, so the sweep reaches all of them.\<close>

lemma iface_changed_effect:
  assumes inv: "daemon_inv s" and run: "nd_session_iface_changed ip up s = Some s'"
  shows "only_sessions s s'" and "h_session s' q = map_option (wired s ip up) (h_session s q)"
proof -
  note e = changed_buckets_effect [OF run [unfolded nd_session_iface_changed_def]]
  show "only_sessions s s'" using e by blast
  show "h_session s' q = map_option (wired s ip up) (h_session s q)"
  proof (cases "h_session s q")
    case None
    then show ?thesis using e by simp
  next
    case (Some x)
    let ?i = "NDL_BUCKET (ndL_hash_seed s) (s_tgt x)"
    have idx: "index_ok (NDL_BUCKET (ndL_hash_seed s)) NDPPD_SESSION_BUCKETS s_tgt (h_session s) (ndL_sessions s)"
      using session_wfD(1) [OF daemon_invD(1) [OF inv]] by (simp add: tables_ok_def)
    have "q \<in> set (ndL_sessions s ! ?i)" by (rule buckets.index_member [OF idx Some])
    moreover have "?i < NDPPD_SESSION_BUCKETS" by (rule buckets.bkt_less)
    ultimately have "\<exists>i\<in>set [0..<NDPPD_SESSION_BUCKETS]. q \<in> set (ndL_sessions s ! i)"
      by (intro bexI [of _ ?i]) simp_all
    then show ?thesis using e by simp
  qed
qed

subsection \<open>Safety\<close>

definition same_refs :: "nd_iface \<Rightarrow> nd_iface \<Rightarrow> bool" where
  "same_refs i j \<longleftrightarrow> if_refcount j = if_refcount i \<and> if_name j = if_name i \<and> if_proxy j = if_proxy i"

lemma daemon_inv_update_iface:
  assumes "daemon_inv s" "h_iface s ip = Some i" "same_refs i j"
  shows "daemon_inv (s\<lparr>h_iface := (h_iface s)(ip \<mapsto> j)\<rparr>)"
    and "session_frame s (s\<lparr>h_iface := (h_iface s)(ip \<mapsto> j)\<rparr>)"
proof -
  let ?s = "s\<lparr>h_iface := (h_iface s)(ip \<mapsto> j)\<rparr>"
  note inv = daemon_invD(2) [OF assms(1)]
  have "iface_entry_ok (refs_of s) q (h_iface ?s q)" for q
    using iface_invD(4) [OF inv, of q] assms(2,3) by (cases "q = ip") (simp_all add: iface_entry_ok_def same_refs_def)
  moreover have "dom (h_iface ?s) = dom (h_iface s)" using assms(2) by auto
  ultimately have "iface_inv (refs_of s) ?s" using inv by (simp add: iface_inv_def)
  moreover have "refs_of ?s = refs_of s" by (simp add: refs_of_def [abs_def])
  moreover have "session_wf ?s" using daemon_invD(1) [OF assms(1)]
    by (simp add: session_wf_def tables_ok_def config_ok_def rule_ok_def proxy_ok_def)
  ultimately show "daemon_inv ?s" by (simp add: daemon_inv_def)
  show "session_frame s ?s" using assms(2,3) by (auto simp: session_frame_def same_refs_def)
qed

text \<open>A safe step of the pass that leaves the interfaces as the second argument says.\<close>

definition rebind_step :: "'a session_state_scheme \<Rightarrow> (ptr \<rightharpoonup> nd_iface) \<Rightarrow> 'a session_state_scheme \<Rightarrow> bool" where
  "rebind_step s h s' \<longleftrightarrow>
     daemon_inv s' \<and> session_frame s s' \<and> ndL_first_iface s' = ndL_first_iface s \<and> ndL_io s' = ndL_io s \<and> h_iface s' = h"

lemma rebind_step_trans: "rebind_step s h s1 \<Longrightarrow> rebind_step s1 h' s2 \<Longrightarrow> rebind_step s h' s2"
  using session_frame_trans by (auto simp: rebind_step_def)

lemma rebind_step_refl: "daemon_inv s \<Longrightarrow> rebind_step s (h_iface s) s"
  by (simp add: rebind_step_def)

lemma rebind_step_emit: "daemon_inv s \<Longrightarrow> rebind_step s (h_iface s) (emit e s)"
  by (simp add: rebind_step_def emit_def)

lemma rebind_step_update:
  assumes "daemon_inv s" "h_iface s ip = Some i" "same_refs i (g i)"
  shows "\<exists>s'. update_iface ip g s = Some s' \<and> rebind_step s ((h_iface s)(ip \<mapsto> g i)) s'"
  using daemon_inv_update_iface [OF assms] assms(2) by (simp add: update_iface_def rebind_step_def)

lemma rebind_step_changed:
  assumes "daemon_inv s"
  shows "\<exists>s'. nd_session_iface_changed ip up s = Some s' \<and> rebind_step s (h_iface s) s'"
  using nd_session_iface_changed_safe [OF assms, of ip up] iface_changed_effect(1) [OF assms]
  by (auto simp: rebind_step_def only_sessions_def)

definition refreshed :: "kernel \<Rightarrow> nd_iface \<Rightarrow> nd_iface" where
  "refreshed k i = (case siocgifhwaddr k (if_name i) of Some l \<Rightarrow> i\<lparr>if_lladdr := l\<rparr> | None \<Rightarrow> i)"

text \<open>What a pass makes of one interface object.\<close>

definition rebound :: "kernel \<Rightarrow> nd_iface \<Rightarrow> nd_iface" where
  "rebound k i =
     (case if_nametoindex k (if_name i) of
        Inl EOTHER \<Rightarrow> i
      | Inl ENODEV \<Rightarrow> if if_up i then i\<lparr>if_up := False, if_admin_up := False\<rparr> else i
      | Inr cur \<Rightarrow>
          (let admin_up = (siocgifflags_up k (if_name i) = Some True) in
           if cur = if_index i \<and> if_up i then (refreshed k i)\<lparr>if_admin_up := admin_up\<rparr>
           else if add_membership k cur (mr_type_of (if_promiscuous i))
           then (refreshed k i)\<lparr>if_index := cur, if_up := True, if_admin_up := admin_up\<rparr>
           else refreshed k i))"

lemma refreshed_sel [simp]:
  "if_name (refreshed k i) = if_name i" "if_index (refreshed k i) = if_index i" "if_up (refreshed k i) = if_up i"
  "if_admin_up (refreshed k i) = if_admin_up i" "if_promiscuous (refreshed k i) = if_promiscuous i"
  "if_refcount (refreshed k i) = if_refcount i" "if_proxy (refreshed k i) = if_proxy i"
  by (simp_all add: refreshed_def split: option.splits)

lemma rebind_absent_spec:
  assumes "daemon_inv s" "h_iface s ip = Some i"
  shows "\<exists>s'. rebind_absent ip i s = Some s' \<and>
     rebind_step s ((h_iface s)(ip \<mapsto> (if if_up i then i\<lparr>if_up := False, if_admin_up := False\<rparr> else i))) s'"
proof (cases "if_up i")
  case False
  then show ?thesis using assms rebind_step_refl [OF assms(1)] by (simp add: rebind_absent_def map_upd_triv)
next
  case True
  obtain s1 where s1: "update_iface ip (\<lambda>i. i\<lparr>if_up := False, if_admin_up := False\<rparr>) s = Some s1"
    "rebind_step s ((h_iface s)(ip \<mapsto> i\<lparr>if_up := False, if_admin_up := False\<rparr>)) s1"
    using rebind_step_update [OF assms, of "\<lambda>i. i\<lparr>if_up := False, if_admin_up := False\<rparr>"] by (auto simp: same_refs_def)
  obtain s2 where "nd_session_iface_changed ip False s1 = Some s2" "rebind_step s1 (h_iface s1) s2"
    using rebind_step_changed s1(2) unfolding rebind_step_def by blast
  then show ?thesis
    using True s1 rebind_step_trans [OF s1(2)] by (auto simp: rebind_absent_def rebind_step_def)
qed

lemma rebind_same_spec:
  assumes "daemon_inv s" "h_iface s ip = Some i" "cur = if_index i" "if_up i"
  shows "\<exists>s'. rebind_present k ip i cur s = Some s' \<and>
     rebind_step s ((h_iface s)(ip \<mapsto> i\<lparr>if_admin_up := (siocgifflags_up k (if_name i) = Some True)\<rparr>)) s'"
proof -
  let ?a = "siocgifflags_up k (if_name i) = Some True"
  obtain s1 where s1: "(if ?a \<noteq> if_admin_up i then nd_session_iface_changed ip ?a s else Some s) = Some s1"
    "rebind_step s (h_iface s) s1"
    using rebind_step_changed [OF assms(1)] rebind_step_refl [OF assms(1)] by (cases "?a \<noteq> if_admin_up i") auto
  then have "daemon_inv s1" "h_iface s1 ip = Some i" "h_iface s1 = h_iface s" using assms(2) by (auto simp: rebind_step_def)
  then obtain s2 where "update_iface ip (\<lambda>i. i\<lparr>if_admin_up := ?a\<rparr>) s1 = Some s2"
    "rebind_step s1 ((h_iface s)(ip \<mapsto> i\<lparr>if_admin_up := ?a\<rparr>)) s2"
    using rebind_step_update [of s1 ip i "\<lambda>i. i\<lparr>if_admin_up := ?a\<rparr>"] by (auto simp: same_refs_def)
  then show ?thesis using s1 assms(3,4) rebind_step_trans [OF s1(2)] by (auto simp: rebind_present_def Let_def)
qed

lemma rebind_new_spec:
  assumes "daemon_inv s" "h_iface s ip = Some i" "\<not> (cur = if_index i \<and> if_up i)"
    "add_membership k cur (mr_type_of (if_promiscuous i))"
  shows "\<exists>s'. rebind_present k ip i cur s = Some s' \<and>
     rebind_step s ((h_iface s)(ip \<mapsto> i\<lparr>if_index := cur, if_up := True,
                                       if_admin_up := (siocgifflags_up k (if_name i) = Some True)\<rparr>)) s'"
proof -
  let ?a = "siocgifflags_up k (if_name i) = Some True" and ?mr = "mr_type_of (if_promiscuous i)"
  let ?s1 = "emit (AddMembership cur ?mr) s"
  define s2 where "s2 = (if if_index i \<noteq> 0 \<and> if_index i \<noteq> cur then emit (DropMembership (if_index i) ?mr) ?s1 else ?s1)"
  have r1: "rebind_step s (h_iface s) ?s1" by (rule rebind_step_emit [OF assms(1)])
  then have "rebind_step ?s1 (h_iface s) s2"
    using rebind_step_emit [of ?s1] rebind_step_refl [of ?s1] by (simp add: s2_def rebind_step_def)
  with r1 have r2: "rebind_step s (h_iface s) s2" by (rule rebind_step_trans)
  then have i2: "daemon_inv s2" "h_iface s2 = h_iface s" by (simp_all add: rebind_step_def)
  obtain s3 where s3: "(if if_up i then nd_session_iface_changed ip False s2 else Some s2) = Some s3"
    "rebind_step s2 (h_iface s2) s3"
    using rebind_step_changed [OF i2(1), of ip False] rebind_step_refl [OF i2(1)] by (cases "if_up i") auto
  then have i3: "daemon_inv s3" "h_iface s3 = h_iface s" using i2 by (simp_all add: rebind_step_def)
  obtain s4 where s4: "update_iface ip (\<lambda>i. i\<lparr>if_index := cur, if_up := True\<rparr>) s3 = Some s4"
    "rebind_step s3 ((h_iface s)(ip \<mapsto> i\<lparr>if_index := cur, if_up := True\<rparr>)) s4"
    using rebind_step_update [OF i3(1), of ip i "\<lambda>i. i\<lparr>if_index := cur, if_up := True\<rparr>"] i3(2) assms(2)
    by (auto simp: same_refs_def)
  then have i4: "daemon_inv s4" "h_iface s4 = (h_iface s)(ip \<mapsto> i\<lparr>if_index := cur, if_up := True\<rparr>)"
    by (simp_all add: rebind_step_def)
  obtain s5 where s5: "(if ?a then nd_session_iface_changed ip True s4 else Some s4) = Some s5"
    "rebind_step s4 (h_iface s4) s5"
    using rebind_step_changed [OF i4(1), of ip True] rebind_step_refl [OF i4(1)] by (cases ?a) auto
  then have i5: "daemon_inv s5" "h_iface s5 = h_iface s4" by (simp_all add: rebind_step_def)
  obtain s6 where s6: "update_iface ip (\<lambda>i. i\<lparr>if_admin_up := ?a\<rparr>) s5 = Some s6"
    "rebind_step s5 ((h_iface s)(ip \<mapsto> i\<lparr>if_index := cur, if_up := True, if_admin_up := ?a\<rparr>)) s6"
    using rebind_step_update [OF i5(1), of ip "i\<lparr>if_index := cur, if_up := True\<rparr>" "\<lambda>i. i\<lparr>if_admin_up := ?a\<rparr>"] i5(2) i4(2)
    by (auto simp: same_refs_def)
  have "rebind_present k ip i cur s = Some s6"
    unfolding rebind_present_def Let_def s2_def [symmetric]
    by (simp only: assms(3,4) if_False if_True simp_thms s3(1) s4(1) s5(1) s6(1) bind.bind_lunit)
  then show ?thesis
    using rebind_step_trans [OF rebind_step_trans [OF rebind_step_trans [OF rebind_step_trans [OF r2 s3(2)] s4(2)] s5(2)] s6(2)]
    by blast
qed

lemma rebind_one_spec:
  assumes inv: "daemon_inv s" and i: "h_iface s ip = Some i"
  shows "\<exists>s'. rebind_one k ip s = Some s' \<and> rebind_step s ((h_iface s)(ip \<mapsto> rebound k i)) s'"
proof (cases "if_nametoindex k (if_name i)")
  case (Inl e)
  then show ?thesis
    using rebind_absent_spec [OF inv i] rebind_step_refl [OF inv] i
    by (cases e) (simp_all add: rebind_one_def rebound_def map_upd_triv)
next
  case (Inr cur)
  let ?j = "refreshed k i"
  have name: "length (if_name i) < IF_NAMESIZE" using iface_invD(6) [OF daemon_invD(2) [OF inv] i] by simp
  have j: "(case siocgifhwaddr k (if_name i) of Some l \<Rightarrow> if \<not> nd_lladdr_eq (if_lladdr i) l then i\<lparr>if_lladdr := l\<rparr> else i | None \<Rightarrow> i) = ?j"
    by (simp add: refreshed_def split: option.splits)
  obtain s1 where s1: "update_iface ip (\<lambda>_. ?j) s = Some s1" "rebind_step s ((h_iface s)(ip \<mapsto> ?j)) s1"
    using rebind_step_update [OF inv i, of "\<lambda>_. ?j"] by (auto simp: same_refs_def)
  then have i1: "daemon_inv s1" "h_iface s1 = (h_iface s)(ip \<mapsto> ?j)" "h_iface s1 ip = Some ?j" by (simp_all add: rebind_step_def)
  have eq: "rebind_one k ip s = rebind_present k ip ?j cur s1"
    using Inr i name j s1(1) by (simp add: rebind_one_def)
  have "\<exists>s'. rebind_present k ip ?j cur s1 = Some s' \<and> rebind_step s1 ((h_iface s)(ip \<mapsto> rebound k i)) s'"
  proof (cases "cur = if_index i \<and> if_up i")
    case True
    then show ?thesis using rebind_same_spec [OF i1(1,3), of cur k] i1(2) Inr by (simp add: rebound_def Let_def)
  next
    case new: False
    show ?thesis
    proof (cases "add_membership k cur (mr_type_of (if_promiscuous i))")
      case True
      with new Inr have "rebound k i = ?j\<lparr>if_index := cur, if_up := True, if_admin_up := (siocgifflags_up k (if_name i) = Some True)\<rparr>"
        by (auto simp: rebound_def Let_def)
      with new True show ?thesis using rebind_new_spec [OF i1(1,3), of cur k] i1(2) by simp
    next
      case False
      with new show ?thesis
        using rebind_step_emit [OF i1(1)] i1(2) Inr by (auto simp: rebound_def Let_def rebind_present_def)
    qed
  qed
  then show ?thesis using eq rebind_step_trans [OF s1(2)] by auto
qed

text \<open>The whole pass is \<open>rebound\<close> applied to every interface.\<close>

lemma rebind_list_spec:
  assumes "daemon_inv s" "distinct ips" "set ips \<subseteq> dom (h_iface s)"
  shows "\<exists>s'. foldM (rebind_one k) ips s = Some s' \<and>
     rebind_step s (\<lambda>q. if q \<in> set ips then map_option (rebound k) (h_iface s q) else h_iface s q) s'"
  using assms
proof (induction ips arbitrary: s)
  case Nil
  then show ?case using rebind_step_refl [of s] by simp
next
  case (Cons ip ips)
  then obtain i where i: "h_iface s ip = Some i" by auto
  obtain s1 where s1: "rebind_one k ip s = Some s1" "rebind_step s ((h_iface s)(ip \<mapsto> rebound k i)) s1"
    using rebind_one_spec [OF Cons.prems(1) i] by blast
  then have i1: "daemon_inv s1" "h_iface s1 = (h_iface s)(ip \<mapsto> rebound k i)" by (simp_all add: rebind_step_def)
  have sub: "set ips \<subseteq> dom (h_iface s1)" using Cons.prems(3) by (auto simp: i1(2))
  obtain s' where s': "foldM (rebind_one k) ips s1 = Some s'"
    "rebind_step s1 (\<lambda>q. if q \<in> set ips then map_option (rebound k) (h_iface s1 q) else h_iface s1 q) s'"
    using Cons.IH [OF i1(1) _ sub] Cons.prems(2) by auto
  have "(\<lambda>q. if q \<in> set ips then map_option (rebound k) (h_iface s1 q) else h_iface s1 q) =
        (\<lambda>q. if q \<in> set (ip # ips) then map_option (rebound k) (h_iface s q) else h_iface s q)"
    using i1(2) i Cons.prems(2) by (auto simp: fun_eq_iff)
  then show ?case using s1(1) s' rebind_step_trans [OF s1(2)] by auto
qed

lemma rebind_all_spec:
  assumes "daemon_inv s" "ndL_io s"
  shows "\<exists>s'. nd_iface_rebind_all k s = Some s' \<and> rebind_step s (\<lambda>q. map_option (rebound k) (h_iface s q)) s'"
proof -
  note inv = daemon_invD(2) [OF assms(1)]
  have "(\<lambda>q. if q \<in> set (ndL_first_iface s) then map_option (rebound k) (h_iface s q) else h_iface s q) =
        (\<lambda>q. map_option (rebound k) (h_iface s q))"
    using iface_invD(2) [OF inv] by (auto simp: fun_eq_iff domIff)
  then show ?thesis
    using rebind_list_spec [OF assms(1) iface_invD(1) [OF inv], of k] iface_invD(2) [OF inv] assms(2)
    by (simp add: nd_iface_rebind_all_def)
qed

lemma rebind_all_safe:
  "daemon_inv s \<Longrightarrow> \<exists>s'. nd_iface_rebind_all k s = Some s' \<and> daemon_inv s' \<and> session_frame s s' \<and> ndL_io s' = ndL_io s"
  using rebind_all_spec [of s k] by (cases "ndL_io s") (auto simp: rebind_step_def nd_iface_rebind_all_def)

subsection \<open>Convergence\<close>

text \<open>The interface object agrees with the kernel's answers.\<close>

definition settled :: "kernel \<Rightarrow> nd_iface \<Rightarrow> bool" where
  "settled k i \<longleftrightarrow>
     (case if_nametoindex k (if_name i) of
        Inl e \<Rightarrow> e = ENODEV \<longrightarrow> \<not> if_up i
      | Inr cur \<Rightarrow> if_up i \<and> if_index i = cur \<and> if_admin_up i = (siocgifflags_up k (if_name i) = Some True) \<and>
                  (\<forall>l. siocgifhwaddr k (if_name i) = Some l \<longrightarrow> if_lladdr i = l))"

lemma rebound_name [simp]: "if_name (rebound k i) = if_name i"
  by (simp add: rebound_def Let_def split: sum.splits errno.splits)

lemma rebound_settled:
  assumes "\<And>cur mr. if_nametoindex k (if_name i) = Inr cur \<Longrightarrow> add_membership k cur mr"
  shows "settled k (rebound k i)"
  using assms
  by (auto simp: settled_def rebound_def refreshed_def Let_def split: sum.splits errno.splits option.splits)

lemma settled_rebind_one:
  assumes "h_iface s ip = Some i" "settled k i" "length (if_name i) < IF_NAMESIZE"
  shows "rebind_one k ip s = Some s"
proof -
  have same: "s\<lparr>h_iface := (h_iface s)(ip \<mapsto> i)\<rparr> = s" using assms(1) by (simp add: map_upd_triv)
  show ?thesis
  proof (cases "if_nametoindex k (if_name i)")
    case (Inl e)
    then show ?thesis using assms by (cases e) (simp_all add: rebind_one_def rebind_absent_def settled_def)
  next
    case (Inr cur)
    have "(case siocgifhwaddr k (if_name i) of Some l \<Rightarrow> if \<not> nd_lladdr_eq (if_lladdr i) l then i\<lparr>if_lladdr := l\<rparr> else i | None \<Rightarrow> i) = i"
      using assms(2) Inr by (auto simp: settled_def split: option.splits)
    moreover have "(siocgifflags_up k (if_name i) = Some True) = if_admin_up i" "if_up i" "if_index i = cur"
      using assms(2) Inr by (auto simp: settled_def)
    ultimately show ?thesis
      using assms(1,3) Inr same by (simp add: rebind_one_def rebind_present_def update_iface_def Let_def)
  qed
qed

lemma settled_rebind_all:
  assumes "daemon_inv s" "\<forall>ip i. h_iface s ip = Some i \<longrightarrow> settled k i"
  shows "nd_iface_rebind_all k s = Some s"
proof -
  note inv = daemon_invD(2) [OF assms(1)]
  have "foldM (rebind_one k) ips s = Some s" if "set ips \<subseteq> dom (h_iface s)" for ips
    using that
  proof (induction ips)
    case (Cons ip ips)
    then obtain i where "h_iface s ip = Some i" by auto
    then show ?case
      using Cons settled_rebind_one [of s ip i k] assms(2) iface_invD(6) [OF inv] by auto
  qed simp
  then show ?thesis using iface_invD(2) [OF inv] by (simp add: nd_iface_rebind_all_def)
qed

end
