(* ===== verification/Packet.thy ===== *)
theory Packet
  imports Proxy Bpf_Filter
begin

text \<open>
  The receive path of \<^verbatim>\<open>src/iface.c\<close>: from the frames the packet socket returns, through the
  checks of theory \<open>Frames\<close>, to the proxy (solicitations) or the session (advertisements).  The
  frames are an argument, with the kernel's answers during the handling of each.  The lemmas show
  that no frame, whatever its bytes, makes the daemon read outside the buffer or lose its
  invariant.
\<close>

definition ndL_handle_ns ::
  "kernel \<Rightarrow> ptr \<Rightarrow> bytes \<Rightarrow> nat \<Rightarrow> nat \<Rightarrow> 'a session_state_scheme \<Rightarrow> 'a session_state_scheme option" where
  "ndL_handle_ns k ip f i len s = do {
     ifc \<leftarrow> h_iface s ip;
     case if_proxy ifc of
       None \<Rightarrow> Some s
     | Some pp \<Rightarrow> do {
         r \<leftarrow> parse_ns f i len;
         case r of
           None \<Rightarrow> Some s
         | Some (src, dst, tgt, src_ll) \<Rightarrow> nd_proxy_handle_ns k pp src dst tgt src_ll s
       }
   }"

definition ndL_handle_na :: "ptr \<Rightarrow> bytes \<Rightarrow> nat \<Rightarrow> nat \<Rightarrow> 'a session_state_scheme \<Rightarrow> 'a session_state_scheme option" where
  "ndL_handle_na ip f i len s = do {
     r \<leftarrow> parse_na f i len;
     case r of
       None \<Rightarrow> Some s
     | Some tgt \<Rightarrow> do {
         found \<leftarrow> nd_session_find_r tgt ip s;
         case found of None \<Rightarrow> Some s | Some p \<Rightarrow> nd_session_handle_na p s
       }
   }"

definition ndL_handle_msg :: "kernel \<Rightarrow> ptr \<Rightarrow> bytes \<Rightarrow> 'a session_state_scheme \<Rightarrow> 'a session_state_scheme option" where
  "ndL_handle_msg k ip f s = do {
     v \<leftarrow> check_msg f;
     case v of
       Drop \<Rightarrow> Some s
     | Icmp i len \<Rightarrow> do {
         ty \<leftarrow> read_byte f (54 + i);
         if ty = 135 then ndL_handle_ns k ip f i len s
         else if ty = 136 then ndL_handle_na ip f i len s
         else Some s   \<comment> \<open>\<open>ndL_handle_mlq\<close> and \<open>ndL_handle_mlr\<close> only log\<close>
       }
   }"

text \<open>
  The frames come in the order \<open>nd_io_recv\<close> returns them, each with the interface index of its
  source address; a frame of length zero, or none left, ends the loop.
\<close>

fun ndL_io_handler :: "(kernel \<times> nat \<times> bytes) list \<Rightarrow> 'a session_state_scheme \<Rightarrow> 'a session_state_scheme option" where
  "ndL_io_handler [] s = Some s"
| "ndL_io_handler ((k, ifindex, f) # rest) s =
     (if length f = 0 then Some s
      else do {
        found \<leftarrow> heap_find (h_iface s) (\<lambda>i. if_up i \<and> if_index i = ifindex) (ndL_first_iface s);
        s' \<leftarrow> (case found of
                None \<Rightarrow> Some s
              | Some ip \<Rightarrow> if accept_frame f then ndL_handle_msg k ip f s else Some s);
        ndL_io_handler rest s'
      })"

subsection \<open>Safety\<close>

lemma running_invD:
  assumes "running_inv s"
  shows "daemon_inv s" "iface_proxies_ok s"
  using assms by (simp_all add: running_inv_def)

lemma running_inv_frame: "running_inv s \<Longrightarrow> daemon_inv s' \<Longrightarrow> session_frame s s' \<Longrightarrow> running_inv s'"
  using iface_proxies_frame by (auto simp: running_inv_def)

lemma ndL_handle_ns_safe:
  assumes inv: "running_inv s" and k: "kernel_ok k" and ip: "h_iface s ip = Some ifc" and len: "54 + i + len = length f"
  shows "\<exists>s'. ndL_handle_ns k ip f i len s = Some s' \<and> running_inv s' \<and> session_frame s s'"
proof (cases "if_proxy ifc")
  case None
  then show ?thesis using ip inv by (simp add: ndL_handle_ns_def)
next
  case (Some pp)
  then obtain px where px: "h_proxy s pp = Some px"
    using running_invD(2) [OF inv] ip unfolding iface_proxies_ok_def by blast
  obtain r where r: "parse_ns f i len = Some r" using parse_ns_safe [OF len] by blast
  show ?thesis
  proof (cases r)
    case None
    then show ?thesis using Some ip r inv by (simp add: ndL_handle_ns_def)
  next
    case (Some q)
    obtain src dst tgt src_ll where q: "q = (src, dst, tgt, src_ll)" by (cases q)
    obtain s' where "nd_proxy_handle_ns k pp src dst tgt src_ll s = Some s'" "daemon_inv s'" "session_frame s s'"
      using nd_proxy_handle_ns_safe [OF running_invD(1) [OF inv] k px] by blast
    then show ?thesis
      using \<open>if_proxy ifc = Some pp\<close> ip r Some q running_inv_frame [OF inv] by (simp add: ndL_handle_ns_def)
  qed
qed

lemma ndL_handle_na_safe:
  assumes inv: "running_inv s" and len: "54 + i + len = length f"
  shows "\<exists>s'. ndL_handle_na ip f i len s = Some s' \<and> running_inv s' \<and> session_frame s s'"
proof -
  obtain r where r: "parse_na f i len = Some r" using parse_na_safe [OF len] by blast
  show ?thesis
  proof (cases r)
    case None
    then show ?thesis using r inv by (simp add: ndL_handle_na_def)
  next
    case (Some tgt)
    obtain found where found: "nd_session_find_r tgt ip s = Some found" "\<forall>p. found = Some p \<longrightarrow> (\<exists>x. h_session s p = Some x)"
      using nd_session_find_r_spec [OF running_invD(1) [OF inv], of tgt ip] by (auto split: option.splits)
    show ?thesis
    proof (cases found)
      case None
      then show ?thesis using r Some found inv by (simp add: ndL_handle_na_def)
    next
      case (Some p)
      then obtain x where "h_session s p = Some x" using found(2) by blast
      from nd_session_handle_na_op [OF running_invD(1) [OF inv] this]
      obtain s' where "nd_session_handle_na p s = Some s'" "daemon_inv s'" "session_frame s s'"
        by (auto simp: session_op_def)
      then show ?thesis
        using r \<open>r = Some tgt\<close> Some found running_inv_frame [OF inv] by (simp add: ndL_handle_na_def)
    qed
  qed
qed

lemma ndL_handle_msg_safe:
  assumes inv: "running_inv s" and k: "kernel_ok k" and ip: "h_iface s ip = Some ifc" and acc: "accept_frame f"
  shows "\<exists>s'. ndL_handle_msg k ip f s = Some s' \<and> running_inv s' \<and> session_frame s s'"
proof -
  consider "check_msg f = Some Drop" | i len where "check_msg f = Some (Icmp i len)" "54 + i + len = length f" "8 \<le> len"
    using check_msg_cases [OF acc] by blast
  then show ?thesis
  proof cases
    case 1
    then show ?thesis using inv by (simp add: ndL_handle_msg_def)
  next
    case 2
    then show ?thesis
      using ndL_handle_ns_safe [OF inv k ip 2(2)] ndL_handle_na_safe [OF inv 2(2), of ip] inv
      by (simp add: ndL_handle_msg_def)
  qed
qed

lemma ndL_io_handler_safe:
  assumes "running_inv s" "\<forall>(k, idx, f)\<in>set msgs. kernel_ok k"
  shows "\<exists>s'. ndL_io_handler msgs s = Some s' \<and> running_inv s' \<and> session_frame s s'"
  using assms
proof (induction msgs arbitrary: s)
  case (Cons m rest)
  obtain k idx f where m: "m = (k, idx, f)" by (cases m)
  have k: "kernel_ok k" using Cons.prems(2) m by simp
  obtain found where found: "heap_find (h_iface s) (\<lambda>i. if_up i \<and> if_index i = idx) (ndL_first_iface s) = Some found"
    using heap_find_ifaces [OF daemon_invD(2) [OF running_invD(1) [OF Cons.prems(1)]]] by blast
  have "\<exists>s1. (case found of None \<Rightarrow> Some s | Some ip \<Rightarrow> if accept_frame f then ndL_handle_msg k ip f s else Some s) = Some s1 \<and>
             running_inv s1 \<and> session_frame s s1"
  proof (cases found)
    case None
    then show ?thesis using Cons.prems(1) by simp
  next
    case (Some ip)
    then obtain ifc where "h_iface s ip = Some ifc" using heap_find_SomeD found by fastforce
    then show ?thesis using Some Cons.prems(1) ndL_handle_msg_safe [OF Cons.prems(1) k] by simp
  qed
  then obtain s1 where s1: "(case found of None \<Rightarrow> Some s | Some ip \<Rightarrow> if accept_frame f then ndL_handle_msg k ip f s else Some s) = Some s1"
    "running_inv s1" "session_frame s s1" by blast
  obtain s' where "ndL_io_handler rest s1 = Some s'" "running_inv s'" "session_frame s1 s'"
    using Cons.IH [OF s1(2)] Cons.prems(2) by auto
  then show ?case using m found s1 session_frame_trans [OF s1(3)] Cons.prems(1) by simp
qed simp

end
