(* ===== verification/Sample.thy ===== *)
theory Sample
  imports Proxy
begin

text \<open>
  One concrete daemon, on which the properties of the following theories are exercised: a proxy
  on \<open>eth0\<close> with one rule that forwards 2001:db8::/32 to \<open>eth1\<close>, the defaults of
  \<^verbatim>\<open>src/conf.c\<close>, before and after \<open>nd_proxy_startup\<close>.
\<close>

definition sample_rule :: nd_rule where
  "sample_rule =
    \<lparr>r_proxy = 0, r_ifname = ''eth1'', r_target = zero_lladdr, r_addr = Nd_addr 0xb80d0120 0 0 0, r_prefix = 32,
     r_rewrite_tgt = zero_addr, r_rewrite_pflen = 0, r_iface = None, r_autowire = True, r_table = 254,
     r_mode = ND_MODE_IFACE\<rparr>"

definition sample_proxy :: nd_proxy where
  "sample_proxy =
    \<lparr>p_ifname = ''eth0'', p_target = zero_lladdr, p_iface = None, p_rules = [1], p_router = False, p_promiscuous = False\<rparr>"

definition sample_config :: session_state where
  "sample_config =
    \<lparr>nd_current_time = 1000000, out = [], ndL_routes = [], ndL_addrs = [], nd_rt_dump_timeout = 0,
     h_iface = Map.empty, ndL_first_iface = [], ndL_io = True, nd_iface_no_restore_flags = False, heap_next = 2,
     h_session = Map.empty, h_rule = [1 \<mapsto> sample_rule], h_proxy = [0 \<mapsto> sample_proxy], ndL_proxies = [0],
     ndL_sessions = replicate NDPPD_SESSION_BUCKETS [], ndL_sessions_r = replicate NDPPD_SESSION_BUCKETS [],
     ndL_session_count = 0, ndL_hash_seed = 1, nd_conf_invalid_ttl = 10000, nd_conf_valid_ttl = 30000,
     nd_conf_stale_ttl = 30000, nd_conf_retrans_limit = 3, nd_conf_retrans_time = 1000, nd_conf_keepalive = False\<rparr>"

definition sample_eth0 :: nd_iface where
  "sample_eth0 =
    \<lparr>if_refcount = 1, if_name = ''eth0'', if_lladdr = Nd_lladdr 2 0 0 0 0 1, if_index = 2, if_up = True,
     if_admin_up = False, if_proxy = Some 0, if_promiscuous = False\<rparr>"

definition sample_eth1 :: nd_iface where
  "sample_eth1 =
    \<lparr>if_refcount = 1, if_name = ''eth1'', if_lladdr = Nd_lladdr 2 0 0 0 0 2, if_index = 3, if_up = True,
     if_admin_up = False, if_proxy = None, if_promiscuous = False\<rparr>"

definition sample_daemon :: session_state where
  "sample_daemon = sample_config
    \<lparr>out := [AddMembership 2 PACKET_MR_ALLMULTI, AddMembership 3 PACKET_MR_ALLMULTI],
     h_iface := [2 \<mapsto> sample_eth0, 3 \<mapsto> sample_eth1], ndL_first_iface := [3, 2], heap_next := 4,
     h_rule := [1 \<mapsto> sample_rule\<lparr>r_iface := Some 3\<rparr>], h_proxy := [0 \<mapsto> sample_proxy\<lparr>p_iface := Some 2\<rparr>]\<rparr>"

lemmas sample_defs = sample_rule_def sample_proxy_def sample_config_def sample_eth0_def sample_eth1_def sample_kernel_def

lemma sample_config_inv: "config_inv sample_config"
  by (auto simp: config_inv_def config_wf_def no_sessions_def iface_inv_def iface_proxies_ok_def iface_entry_ok_def
      refs_of_def sample_defs IF_NAMESIZE_def heap_count_def split: if_splits)

lemma sample_config_modes: "modes_ok sample_config"
  by (simp add: modes_ok_def sample_defs)

lemma sample_config_pending: "\<forall>pp\<in>dom (h_proxy sample_config). proxy_pending sample_config pp"
  by (simp add: proxy_pending_def rule_pending_def sample_defs)

lemma sample_config_names: "all_pending sample_config" "distinct_names sample_config"
  by (auto simp: all_pending_def distinct_names_def sample_defs split: if_splits)

lemma sample_startup: "nd_proxy_startup sample_kernel sample_config = Some (True, sample_daemon)"
  by (simp add: nd_proxy_startup_def startup_proxy_def startup_rule_def nd_iface_open_def open_resolved_def iface_new_def
      emit_def mr_type_of_def sample_daemon_def sample_defs IF_NAMESIZE_def Let_def)

lemma sample_daemon_inv: "running_inv sample_daemon"
  using nd_proxy_startup_ok [OF sample_config_inv sample_config_modes sample_kernel_ok sample_config_pending]
  by (auto simp: sample_startup)

end
