(* ===== verification/Netlink.thy ===== *)
theory Netlink
  imports Rebind Packet Sample
begin

text \<open>
  The netlink half of \<^verbatim>\<open>src/rt.c\<close> (Linux): walking the messages of a datagram, the attributes of
  a message, and turning them into changes of the routing and address tables.  The macros
  \<open>NLMSG_OK\<close>, \<open>NLMSG_NEXT\<close>, \<open>RTA_OK\<close>, \<open>RTA_NEXT\<close> and the payload macros are written out on the bytes
  received; lengths are the signed numbers of the C code and may become negative.  A read
  outside the datagram is \<open>None\<close>.
\<close>

definition le16 :: "u8 \<Rightarrow> u8 \<Rightarrow> nat" where
  "le16 b0 b1 = unat b0 + 256 * unat b1"

definition read_le16 :: "bytes \<Rightarrow> nat \<Rightarrow> nat option" where
  "read_le16 b i = do { x \<leftarrow> read_byte b i; y \<leftarrow> read_byte b (i + 1); Some (le16 x y) }"

definition read_le32 :: "bytes \<Rightarrow> nat \<Rightarrow> nat option" where
  "read_le32 b i = do { x \<leftarrow> read_le16 b i; y \<leftarrow> read_le16 b (i + 2); Some (x + 65536 * y) }"

text \<open>\<open>NLMSG_ALIGN\<close> and \<open>RTA_ALIGN\<close>.\<close>

definition align4 :: "nat \<Rightarrow> nat" where
  "align4 n = (n + 3) div 4 * 4"

lemma align4_ge: "n \<le> align4 n"
  unfolding align4_def by arith

subsection \<open>Attributes\<close>

text \<open>The attributes in order, each as its type and the offset of its data.\<close>

function rta_scan :: "bytes \<Rightarrow> nat \<Rightarrow> int \<Rightarrow> (nat \<times> nat) list option" where
  "rta_scan b off len =
     (if len < 4 then Some []
      else do {
        alen \<leftarrow> read_le16 b off;
        if alen < 4 \<or> int alen > len then Some []
        else do {
          ty \<leftarrow> read_le16 b (off + 2);
          rest \<leftarrow> rta_scan b (off + align4 alen) (len - int (align4 alen));
          Some ((ty, off + 4) # rest)
        }
      })"
  by pat_completeness auto
termination
proof (relation "measure (\<lambda>(b, off, len). nat len)")
  fix b off and len :: int and alen ty
  assume "\<not> len < 4" "\<not> (alen < 4 \<or> int alen > len)"
  then show "((b, off + align4 alen, len - int (align4 alen)), b, off, len) \<in> measure (\<lambda>(b, off, len). nat len)"
    using align4_ge [of alen] by auto
qed simp

declare rta_scan.simps [simp del]

definition RTA_DST :: nat where "RTA_DST = 1"
definition RTA_OIF :: nat where "RTA_OIF = 4"
definition IFA_ADDRESS :: nat where "IFA_ADDRESS = 1"

text \<open>The last attribute of a type wins.\<close>

definition last_attr :: "nat \<Rightarrow> (nat \<times> nat) list \<Rightarrow> nat option" where
  "last_attr ty as = (case filter (\<lambda>a. fst a = ty) as of [] \<Rightarrow> None | as' \<Rightarrow> Some (snd (last as')))"

text \<open>
  The attribute loop of the route handlers: the offset of the destination and the outgoing
  interface, read from each \<open>RTA_OIF\<close> attribute as it is met.
\<close>

fun route_attrs :: "bytes \<Rightarrow> (nat \<times> nat) list \<Rightarrow> nat option \<times> nat \<Rightarrow> (nat option \<times> nat) option" where
  "route_attrs b [] acc = Some acc"
| "route_attrs b ((ty, off) # as) (dst, oif) =
     (if ty = RTA_OIF then do { oif' \<leftarrow> read_le32 b off; route_attrs b as (dst, oif') }
      else if ty = RTA_DST then route_attrs b as (Some off, oif)
      else route_attrs b as (dst, oif))"

subsection \<open>Messages\<close>

text \<open>
  A route message at offset \<open>m\<close> (its \<open>struct rtmsg\<close>) with attribute length \<open>rtl\<close>: the route it
  describes, or nothing when the destination or the interface is missing.
\<close>

definition route_of_msg :: "bytes \<Rightarrow> nat \<Rightarrow> int \<Rightarrow> nd_rt_route option option" where
  "route_of_msg b m rtl = do {
     as \<leftarrow> rta_scan b (m + 12) rtl;
     (dst, oif) \<leftarrow> route_attrs b as (None, 0);
     case dst of
       None \<Rightarrow> Some None
     | Some d \<Rightarrow>
         if oif = 0 then Some None
         else do {
           table \<leftarrow> read_byte b (m + 4);
           dst_len \<leftarrow> read_byte b (m + 1);
           proto \<leftarrow> read_byte b (m + 5);
           addr \<leftarrow> read_addr b d;
           Some (Some \<lparr>rt_dst = addr, rt_oif = oif, rt_pflen = unat dst_len, rt_table = unat table,
                       rt_owned = (unat proto = RTPROT_NDPPD)\<rparr>)
         }
   }"

definition ndL_handle_newroute :: "bytes \<Rightarrow> nat \<Rightarrow> int \<Rightarrow> 'a rt_state_scheme \<Rightarrow> 'a rt_state_scheme option" where
  "ndL_handle_newroute b m rtl s = do {
     r \<leftarrow> route_of_msg b m rtl;
     case r of None \<Rightarrow> Some s | Some route \<Rightarrow> Some (ndL_new_route route s)
   }"

definition ndL_handle_delroute :: "bytes \<Rightarrow> nat \<Rightarrow> int \<Rightarrow> 'a rt_state_scheme \<Rightarrow> 'a rt_state_scheme option" where
  "ndL_handle_delroute b m rtl s = do {
     r \<leftarrow> route_of_msg b m rtl;
     case r of None \<Rightarrow> Some s | Some route \<Rightarrow> Some (ndL_delete_route (route\<lparr>rt_owned := False\<rparr>) s)
   }"

text \<open>An address message: interface index, address and prefix length.\<close>

definition addr_of_msg :: "bytes \<Rightarrow> nat \<Rightarrow> int \<Rightarrow> (nat \<times> nd_addr \<times> nat) option option" where
  "addr_of_msg b m len = do {
     as \<leftarrow> rta_scan b (m + 8) len;
     case last_attr IFA_ADDRESS as of
       None \<Rightarrow> Some None
     | Some a \<Rightarrow> do {
         index \<leftarrow> read_le32 b (m + 4);
         addr \<leftarrow> read_addr b a;
         plen \<leftarrow> read_byte b (m + 1);
         Some (Some (index, addr, unat plen))
       }
   }"

definition ndL_handle_newaddr :: "bytes \<Rightarrow> nat \<Rightarrow> int \<Rightarrow> 'a rt_state_scheme \<Rightarrow> 'a rt_state_scheme option" where
  "ndL_handle_newaddr b m len s = do {
     r \<leftarrow> addr_of_msg b m len;
     case r of None \<Rightarrow> Some s | Some (index, addr, pflen) \<Rightarrow> Some (ndL_new_addr index addr pflen s)
   }"

definition ndL_handle_deladdr :: "bytes \<Rightarrow> nat \<Rightarrow> int \<Rightarrow> 'a rt_state_scheme \<Rightarrow> 'a rt_state_scheme option" where
  "ndL_handle_deladdr b m len s = do {
     r \<leftarrow> addr_of_msg b m len;
     case r of None \<Rightarrow> Some s | Some (index, addr, pflen) \<Rightarrow> Some (ndL_delete_addr index addr pflen s)
   }"

text \<open>
  One message at offset \<open>off\<close> of type \<open>ty\<close> and length \<open>mlen\<close>, other than \<open>NLMSG_DONE\<close>.  An error message is
  read for the log only: its error code and the type of the request it answers.
\<close>

definition handle_nlmsg ::
  "kernel \<Rightarrow> bytes \<Rightarrow> nat \<Rightarrow> nat \<Rightarrow> nat \<Rightarrow> 'a session_state_scheme \<Rightarrow> 'a session_state_scheme option" where
  "handle_nlmsg k b off ty mlen s =
     (if ty = 2 then do { _ \<leftarrow> read_le32 b (off + 16); _ \<leftarrow> read_le16 b (off + 24); Some s }
      else if ty = 24 then ndL_handle_newroute b (off + 16) (int mlen - 28) s
      else if ty = 25 then ndL_handle_delroute b (off + 16) (int mlen - 28) s
      else if ty = 20 then ndL_handle_newaddr b (off + 16) (int mlen - 24) s
      else if ty = 21 then ndL_handle_deladdr b (off + 16) (int mlen - 24) s
      else if ty = 16 \<or> ty = 17 then nd_iface_rebind_all k s
      else Some s)"

function nlmsg_loop ::
  "kernel \<Rightarrow> bytes \<Rightarrow> nat \<Rightarrow> int \<Rightarrow> 'a session_state_scheme \<Rightarrow> 'a session_state_scheme option" where
  "nlmsg_loop k b off len s =
     (if len < 16 then Some s
      else do {
        mlen \<leftarrow> read_le32 b off;
        if mlen < 16 \<or> int mlen > len then Some s
        else do {
          ty \<leftarrow> read_le16 b (off + 4);
          if ty = 3 then Some (s\<lparr>nd_rt_dump_timeout := 0\<rparr>)
          else do {
            s' \<leftarrow> handle_nlmsg k b off ty mlen s;
            nlmsg_loop k b (off + align4 mlen) (len - int (align4 mlen)) s'
          }
        }
      })"
  by pat_completeness auto
termination
proof (relation "measure (\<lambda>(k, b, off, len, s). nat len)")
  fix k b off and len :: int and s :: "'a session_state_scheme" and mlen ty s'
  assume "\<not> len < 16" "\<not> (mlen < 16 \<or> int mlen > len)"
  then show "((k, b, off + align4 mlen, len - int (align4 mlen), s'), k, b, off, len, s)
             \<in> measure (\<lambda>(k, b, off, len, s). nat len)"
    using align4_ge [of mlen] by auto
qed simp

declare nlmsg_loop.simps [simp del]

text \<open>The receive loop: the datagrams \<open>nd_io_recv\<close> returns, in order, until it fails.\<close>

definition rt_io_handler :: "(kernel \<times> bytes) list \<Rightarrow> 'a session_state_scheme \<Rightarrow> 'a session_state_scheme option" where
  "rt_io_handler msgs s = foldM (\<lambda>(k, b) s. nlmsg_loop k b 0 (int (length b)) s) msgs s"

subsection \<open>Messages as the kernel writes them\<close>

text \<open>
  The documented layout: a datagram is a sequence of messages, a message a header, a fixed part
  and attributes, each attribute padded to four bytes.  \<open>nl_meta\<close> are the flags, the sequence number and the
  port of the header, which the daemon does not read.
\<close>

definition le16_bytes :: "nat \<Rightarrow> bytes" where
  "le16_bytes n = [of_nat n, of_nat (n div 256)]"

definition le32_bytes :: "nat \<Rightarrow> bytes" where
  "le32_bytes n = le16_bytes (n mod 65536) @ le16_bytes (n div 65536)"

record nl_message =
  nl_type :: nat
  nl_meta :: bytes
  nl_head :: bytes
  nl_attrs :: "(nat \<times> bytes) list"

definition attr_bytes :: "nat \<times> bytes \<Rightarrow> bytes" where
  "attr_bytes = (\<lambda>(ty, d). le16_bytes (4 + length d) @ le16_bytes ty @ d @ replicate (align4 (length d) - length d) 0)"

definition attrs_bytes :: "(nat \<times> bytes) list \<Rightarrow> bytes" where
  "attrs_bytes as = concat (map attr_bytes as)"

definition nl_length :: "nl_message \<Rightarrow> nat" where
  "nl_length m = 16 + length (nl_head m) + length (attrs_bytes (nl_attrs m))"

definition nl_bytes :: "nl_message \<Rightarrow> bytes" where
  "nl_bytes m = le32_bytes (nl_length m) @ le16_bytes (nl_type m) @ nl_meta m @ nl_head m @ attrs_bytes (nl_attrs m)"

text \<open>The sizes the kernel guarantees for what the daemon reads.\<close>

definition attr_ok :: "(nat \<rightharpoonup> nat) \<Rightarrow> nat \<times> bytes \<Rightarrow> bool" where
  "attr_ok need a \<longleftrightarrow> fst a < 65536 \<and> length (snd a) < 65532 \<and>
     (case need (fst a) of None \<Rightarrow> True | Some n \<Rightarrow> n \<le> length (snd a))"

definition nl_ok :: "nl_message \<Rightarrow> bool" where
  "nl_ok m \<longleftrightarrow>
     nl_type m < 65536 \<and> length (nl_meta m) = 10 \<and> 4 dvd length (nl_head m) \<and> nl_length m < 4294967296 \<and>
     (nl_type m = 2 \<longrightarrow> 20 \<le> length (nl_head m)) \<and>
     (nl_type m \<in> {24, 25} \<longrightarrow> length (nl_head m) = 12) \<and> (nl_type m \<in> {20, 21} \<longrightarrow> length (nl_head m) = 8) \<and>
     list_all (attr_ok (if nl_type m \<in> {24, 25} then [RTA_DST \<mapsto> 16, RTA_OIF \<mapsto> 4] else [IFA_ADDRESS \<mapsto> 16])) (nl_attrs m)"

text \<open>What the messages mean, read off the attributes instead of the bytes.\<close>

definition last_data :: "nat \<Rightarrow> (nat \<times> bytes) list \<Rightarrow> bytes option" where
  "last_data ty as = (case filter (\<lambda>a. fst a = ty) as of [] \<Rightarrow> None | as' \<Rightarrow> Some (snd (last as')))"

definition le32 :: "bytes \<Rightarrow> nat" where
  "le32 d = le16 (d ! 0) (d ! 1) + 65536 * le16 (d ! 2) (d ! 3)"

definition route_of :: "nl_message \<Rightarrow> nd_rt_route option" where
  "route_of m =
     (case last_data RTA_DST (nl_attrs m) of
        None \<Rightarrow> None
      | Some d \<Rightarrow>
          let oif = (case last_data RTA_OIF (nl_attrs m) of None \<Rightarrow> 0 | Some x \<Rightarrow> le32 x)
          in if oif = 0 then None
             else Some \<lparr>rt_dst = addr_of_bytes LittleEndian (take 16 d), rt_oif = oif, rt_pflen = unat (nl_head m ! 1),
                        rt_table = unat (nl_head m ! 4), rt_owned = (unat (nl_head m ! 5) = RTPROT_NDPPD)\<rparr>)"

definition addr_of_nl :: "nl_message \<Rightarrow> (nat \<times> nd_addr \<times> nat) option" where
  "addr_of_nl m =
     map_option (\<lambda>d. (le32 (drop 4 (nl_head m)), addr_of_bytes LittleEndian (take 16 d), unat (nl_head m ! 1)))
       (last_data IFA_ADDRESS (nl_attrs m))"

definition apply_nl :: "kernel \<Rightarrow> nl_message \<Rightarrow> 'a session_state_scheme \<Rightarrow> 'a session_state_scheme option" where
  "apply_nl k m s =
     (if nl_type m = 24 then Some (case route_of m of None \<Rightarrow> s | Some r \<Rightarrow> ndL_new_route r s)
      else if nl_type m = 25 then Some (case route_of m of None \<Rightarrow> s | Some r \<Rightarrow> ndL_delete_route r s)
      else if nl_type m = 20 then Some (case addr_of_nl m of None \<Rightarrow> s | Some (i, a, n) \<Rightarrow> ndL_new_addr i a n s)
      else if nl_type m = 21 then Some (case addr_of_nl m of None \<Rightarrow> s | Some (i, a, n) \<Rightarrow> ndL_delete_addr i a n s)
      else if nl_type m = 16 \<or> nl_type m = 17 then nd_iface_rebind_all k s
      else Some s)"

text \<open>A message \<open>NLMSG_DONE\<close> ends the datagram and the dump.\<close>

fun apply_dgram :: "kernel \<Rightarrow> nl_message list \<Rightarrow> 'a session_state_scheme \<Rightarrow> 'a session_state_scheme option" where
  "apply_dgram k [] s = Some s"
| "apply_dgram k (m # ms) s =
     (if nl_type m = 3 then Some (s\<lparr>nd_rt_dump_timeout := 0\<rparr>)
      else do { s' \<leftarrow> apply_nl k m s; apply_dgram k ms s' })"

subsection \<open>Decoding\<close>

lemma unat_of_nat8: "unat (of_nat n :: u8) = n mod 256"
  by (simp add: unat_of_nat)

lemma le16_inverse: "n < 65536 \<Longrightarrow> le16 (of_nat n) (of_nat (n div 256)) = n"
  by (simp add: le16_def unat_of_nat8)

lemma length_le [simp]: "length (le16_bytes n) = 2" "length (le32_bytes n) = 4"
  by (simp_all add: le16_bytes_def le32_bytes_def)

lemma read_byte_append: "read_byte (p @ xs) (length p + i) = read_byte xs i"
  by (simp add: read_byte_def nth_append)

lemma read_bytes_append: "read_bytes (p @ xs) (length p + i) n = read_bytes xs i n"
  by (simp add: read_bytes_def)

lemma read_le16_append: "read_le16 (p @ xs) (length p + i) = read_le16 xs i"
  using read_byte_append [of p xs i] read_byte_append [of p xs "i + 1"] by (simp add: read_le16_def add.assoc)

lemma read_le32_append: "read_le32 (p @ xs) (length p + i) = read_le32 xs i"
  using read_le16_append [of p xs i] read_le16_append [of p xs "i + 2"] by (simp add: read_le32_def add.assoc)

lemma read_addr_append: "read_addr (p @ xs) (length p + i) = read_addr xs i"
  by (simp add: read_addr_def read_bytes_append)

lemma read_le16_bytes: "n < 65536 \<Longrightarrow> read_le16 (le16_bytes n @ xs) 0 = Some n"
  by (simp add: read_le16_def le16_bytes_def le16_inverse)

lemma read_le32_bytes: "n < 4294967296 \<Longrightarrow> read_le32 (le32_bytes n @ xs) 0 = Some n"
proof -
  assume n: "n < 4294967296"
  have "read_le16 (le16_bytes (n mod 65536) @ le16_bytes (n div 65536) @ xs) 2 = Some (n div 65536)"
    using read_le16_append [of "le16_bytes (n mod 65536)" "le16_bytes (n div 65536) @ xs" 0]
      read_le16_bytes [of "n div 65536" xs] n by simp
  then show ?thesis
    using read_le16_bytes [of "n mod 65536" "le16_bytes (n div 65536) @ xs"]
    by (simp add: read_le32_def le32_bytes_def numeral_2_eq_2 [symmetric] del: One_nat_def)
qed

lemma read_addr_bytes: "read_addr (addr_bytes LittleEndian a @ xs) 0 = Some a"
  by (simp add: read_addr_def)

lemma align4_add4: "align4 (4 + n) = 4 + align4 n"
  unfolding align4_def by arith

lemma align4_id: "4 dvd n \<Longrightarrow> align4 n = n"
  unfolding align4_def by (auto elim!: dvdE)

lemma align4_dvd: "4 dvd align4 n"
  by (simp add: align4_def)

lemma length_attr_bytes: "length (attr_bytes (ty, d)) = 4 + align4 (length d)"
  using align4_ge [of "length d"] by (simp add: attr_bytes_def)

lemma length_attrs_dvd: "4 dvd length (attrs_bytes as)"
  by (induction as) (auto simp: attrs_bytes_def length_attr_bytes align4_dvd)

text \<open>The bytes \<open>d\<close> stand at offset \<open>i\<close>.\<close>

definition holds :: "bytes \<Rightarrow> nat \<Rightarrow> bytes \<Rightarrow> bool" where
  "holds b i d \<longleftrightarrow> i + length d \<le> length b \<and> take (length d) (drop i b) = d"

lemma holds_append: "i = length p \<Longrightarrow> holds (p @ d @ q) i d"
  by (simp add: holds_def)

lemma holds_byte: "holds b i d \<Longrightarrow> n < length d \<Longrightarrow> read_byte b (i + n) = Some (d ! n)"
  unfolding holds_def read_byte_def by (metis add_less_cancel_left add_leE less_le_trans nth_take nth_drop)

lemma holds_le16: "holds b i d \<Longrightarrow> Suc n < length d \<Longrightarrow> read_le16 b (i + n) = Some (le16 (d ! n) (d ! Suc n))"
  using holds_byte [of b i d n] holds_byte [of b i d "Suc n"] by (simp add: read_le16_def)

lemma holds_le32: "holds b i d \<Longrightarrow> n + 4 \<le> length d \<Longrightarrow> read_le32 b (i + n) = Some (le32 (drop n d))"
  using holds_le16 [of b i d n] holds_le16 [of b i d "n + 2"]
  by (simp add: read_le32_def le32_def add.assoc numeral_3_eq_3)

lemma holds_addr: "holds b i d \<Longrightarrow> 16 \<le> length d \<Longrightarrow> read_addr b i = Some (addr_of_bytes LittleEndian (take 16 d))"
proof -
  assume h: "holds b i d" and l: "16 \<le> length d"
  then have "take 16 (take (length d) (drop i b)) = take 16 d" by (simp add: holds_def)
  with l have "take 16 (drop i b) = take 16 d" by (simp add: min_def)
  with h l show ?thesis by (simp add: read_addr_def holds_def)
qed

definition attrs_at :: "bytes \<Rightarrow> (nat \<times> nat) list \<Rightarrow> (nat \<times> bytes) list \<Rightarrow> bool" where
  "attrs_at b = list_all2 (\<lambda>(ty, i) (ty', d). ty = ty' \<and> holds b i d)"

lemma rta_scan_attrs:
  "list_all (attr_ok need) as \<Longrightarrow> b = p @ attrs_bytes as @ q \<Longrightarrow> off = length p \<Longrightarrow> len = int (length (attrs_bytes as)) \<Longrightarrow>
   \<exists>offs. rta_scan b off len = Some offs \<and> attrs_at b offs as"
proof (induction as arbitrary: p off len)
  case Nil
  then show ?case by (subst rta_scan.simps) (simp add: attrs_bytes_def attrs_at_def)
next
  case (Cons a as)
  obtain ty d where a: "a = (ty, d)" by (cases a)
  let ?pad = "replicate (align4 (length d) - length d) 0" and ?r = "attrs_bytes as @ q"
  from Cons.prems(1) a have ok: "ty < 65536" "length d < 65532" by (simp_all add: attr_ok_def)
  from Cons.prems(1) have oks: "list_all (attr_ok need) as" by simp
  have b: "b = p @ le16_bytes (4 + length d) @ le16_bytes ty @ d @ ?pad @ ?r"
    using Cons.prems(2) by (simp add: attrs_bytes_def a attr_bytes_def)
  have l1: "read_le16 b off = Some (4 + length d)"
    using read_le16_append [of p _ 0] read_le16_bytes [of "4 + length d"] ok Cons.prems(3) b by simp
  have l2: "read_le16 b (off + 2) = Some ty"
    using read_le16_append [of "p @ le16_bytes (4 + length d)" _ 0] read_le16_bytes [of ty] ok Cons.prems(3) b by simp
  have h: "holds b (off + 4) d"
    using holds_append [of "off + 4" "p @ le16_bytes (4 + length d) @ le16_bytes ty" d "?pad @ ?r"] Cons.prems(3) b by simp
  have b': "b = (p @ attr_bytes (ty, d)) @ attrs_bytes as @ q" using b by (simp add: attr_bytes_def)
  have len: "len = int (4 + align4 (length d)) + int (length (attrs_bytes as))"
    using Cons.prems(4) by (simp add: attrs_bytes_def a length_attr_bytes)
  obtain offs where offs: "rta_scan b (off + (4 + align4 (length d))) (int (length (attrs_bytes as))) = Some offs" "attrs_at b offs as"
    using Cons.IH [OF oks b', of "off + (4 + align4 (length d))"] Cons.prems(3) by (auto simp: length_attr_bytes)
  have "rta_scan b off len = Some ((ty, off + 4) # offs)"
    using l1 l2 offs(1) align4_ge [of "length d"] by (subst rta_scan.simps) (simp add: len align4_add4)
  with h offs(2) a show ?case by (simp add: attrs_at_def)
qed

lemma last_attr_Cons [simp]:
  "last_attr ty [] = None"
  "last_attr ty ((t, i) # as) = (case last_attr ty as of None \<Rightarrow> if t = ty then Some i else None | Some j \<Rightarrow> Some j)"
  by (auto simp: last_attr_def split: list.splits)

lemma last_data_Cons [simp]:
  "last_data ty [] = None"
  "last_data ty ((t, d) # as) = (case last_data ty as of None \<Rightarrow> if t = ty then Some d else None | Some x \<Rightarrow> Some x)"
  by (auto simp: last_data_def split: list.splits)

lemma attrs_at_induct [consumes 1, case_names Nil Cons]:
  assumes "attrs_at b offs as" "P [] []"
    and "\<And>t i d offs as. holds b i d \<Longrightarrow> attrs_at b offs as \<Longrightarrow> P offs as \<Longrightarrow> P ((t, i) # offs) ((t, d) # as)"
  shows "P offs as"
  using assms(1) unfolding attrs_at_def
  by (induction rule: list_all2_induct) (auto intro: assms(2) assms(3) [unfolded attrs_at_def])

lemma attrs_at_last:
  "attrs_at b offs as \<Longrightarrow> rel_option (holds b) (last_attr ty offs) (last_data ty as)"
  by (induction rule: attrs_at_induct) (auto split: option.splits)

lemma last_data_ok:
  "list_all (attr_ok need) as \<Longrightarrow> last_data ty as = Some d \<Longrightarrow> need ty = Some n \<Longrightarrow> n \<le> length d"
  by (induction as) (auto simp: attr_ok_def split: option.splits if_splits prod.splits)

lemma route_attrs_at:
  "attrs_at b offs as \<Longrightarrow> list_all (attr_ok [RTA_DST \<mapsto> 16, RTA_OIF \<mapsto> 4]) as \<Longrightarrow>
   route_attrs b offs (dst, oif) =
     Some (case last_attr RTA_DST offs of None \<Rightarrow> dst | Some i \<Rightarrow> Some i,
           case last_data RTA_OIF as of None \<Rightarrow> oif | Some d \<Rightarrow> le32 d)"
proof (induction arbitrary: dst oif rule: attrs_at_induct)
  case (Cons t i d offs as)
  have "t = RTA_OIF \<Longrightarrow> read_le32 b i = Some (le32 d)"
    using holds_le32 [OF Cons.hyps(1), of 0] Cons.prems by (simp add: attr_ok_def)
  then show ?case using Cons by (auto simp: RTA_OIF_def RTA_DST_def split: option.splits)
qed simp

lemma nl_at:
  assumes "nl_ok m" "b = p @ nl_bytes m @ q" "off = length p"
  shows "read_le32 b off = Some (nl_length m)" "read_le16 b (off + 4) = Some (nl_type m)"
    "holds b (off + 16) (nl_head m)"
    "\<exists>h. length h = off + 16 + length (nl_head m) \<and> b = h @ attrs_bytes (nl_attrs m) @ q"
proof -
  let ?r = "nl_meta m @ nl_head m @ attrs_bytes (nl_attrs m) @ q"
  have b: "b = p @ le32_bytes (nl_length m) @ le16_bytes (nl_type m) @ ?r"
    using assms(2) by (simp add: nl_bytes_def)
  have ok: "nl_type m < 65536" "length (nl_meta m) = 10" "nl_length m < 4294967296" using assms(1) by (simp_all add: nl_ok_def)
  show "read_le32 b off = Some (nl_length m)"
    using read_le32_append [of p _ 0] read_le32_bytes ok assms(3) b by simp
  show "read_le16 b (off + 4) = Some (nl_type m)"
    using read_le16_append [of "p @ le32_bytes (nl_length m)" _ 0] read_le16_bytes ok assms(3) b by simp
  show "holds b (off + 16) (nl_head m)"
    using holds_append [of "off + 16" "p @ le32_bytes (nl_length m) @ le16_bytes (nl_type m) @ nl_meta m" "nl_head m"
        "attrs_bytes (nl_attrs m) @ q"] ok assms(3) b by simp
  show "\<exists>h. length h = off + 16 + length (nl_head m) \<and> b = h @ attrs_bytes (nl_attrs m) @ q"
    by (rule exI [of _ "p @ le32_bytes (nl_length m) @ le16_bytes (nl_type m) @ nl_meta m @ nl_head m"])
      (use b ok assms(3) in simp)
qed

lemma route_of_msg_decodes:
  assumes m: "nl_ok m" "nl_type m \<in> {24, 25}" and b: "b = p @ nl_bytes m @ q" "off = length p"
  shows "route_of_msg b (off + 16) (int (nl_length m) - 28) = Some (route_of m)"
proof -
  note at = nl_at [OF m(1) b]
  have l: "length (nl_head m) = 12" and ok: "list_all (attr_ok [RTA_DST \<mapsto> 16, RTA_OIF \<mapsto> 4]) (nl_attrs m)"
    using m by (auto simp: nl_ok_def)
  obtain h where h: "length h = off + 28" "b = h @ attrs_bytes (nl_attrs m) @ q" using at(4) l by (auto simp: ac_simps)
  obtain offs where offs: "rta_scan b (off + 16 + 12) (int (nl_length m) - 28) = Some offs" "attrs_at b offs (nl_attrs m)"
    using rta_scan_attrs [OF ok h(2), of "off + 16 + 12"] h(1) l by (auto simp: nl_length_def)
  note rd = holds_byte [OF at(3), of 1] holds_byte [OF at(3), of 4] holds_byte [OF at(3), of 5]
  show ?thesis
  proof (cases "last_data RTA_DST (nl_attrs m)")
    case None
    then have "last_attr RTA_DST offs = None" using attrs_at_last [OF offs(2), of RTA_DST] by simp
    with None offs(1) route_attrs_at [OF offs(2) ok, of None 0] show ?thesis
      by (simp add: route_of_msg_def route_of_def)
  next
    case (Some d)
    then obtain i where i: "last_attr RTA_DST offs = Some i" "holds b i d"
      using attrs_at_last [OF offs(2), of RTA_DST] by (cases "last_attr RTA_DST offs") auto
    have "read_addr b i = Some (addr_of_bytes LittleEndian (take 16 d))"
      by (rule holds_addr [OF i(2) last_data_ok [OF ok Some]]) (simp add: RTA_OIF_def RTA_DST_def)
    with Some i(1) offs(1) route_attrs_at [OF offs(2) ok, of None 0] rd l show ?thesis
      by (simp add: route_of_msg_def route_of_def Let_def)
  qed
qed

lemma addr_of_msg_decodes:
  assumes m: "nl_ok m" "nl_type m \<in> {20, 21}" and b: "b = p @ nl_bytes m @ q" "off = length p"
  shows "addr_of_msg b (off + 16) (int (nl_length m) - 24) = Some (addr_of_nl m)"
proof -
  note at = nl_at [OF m(1) b]
  have l: "length (nl_head m) = 8" and ok: "list_all (attr_ok [IFA_ADDRESS \<mapsto> 16]) (nl_attrs m)"
    using m by (auto simp: nl_ok_def)
  obtain h where h: "length h = off + 24" "b = h @ attrs_bytes (nl_attrs m) @ q" using at(4) l by (auto simp: ac_simps)
  obtain offs where offs: "rta_scan b (off + 16 + 8) (int (nl_length m) - 24) = Some offs" "attrs_at b offs (nl_attrs m)"
    using rta_scan_attrs [OF ok h(2), of "off + 16 + 8"] h(1) l by (auto simp: nl_length_def)
  note rd = holds_byte [OF at(3), of 1] holds_le32 [OF at(3), of 4]
  show ?thesis
  proof (cases "last_data IFA_ADDRESS (nl_attrs m)")
    case None
    then have "last_attr IFA_ADDRESS offs = None" using attrs_at_last [OF offs(2), of IFA_ADDRESS] by simp
    with None offs(1) show ?thesis by (simp add: addr_of_msg_def addr_of_nl_def)
  next
    case (Some d)
    then obtain i where i: "last_attr IFA_ADDRESS offs = Some i" "holds b i d"
      using attrs_at_last [OF offs(2), of IFA_ADDRESS] by (cases "last_attr IFA_ADDRESS offs") auto
    have "read_addr b i = Some (addr_of_bytes LittleEndian (take 16 d))"
      by (rule holds_addr [OF i(2) last_data_ok [OF ok Some]]) simp
    with Some i(1) offs(1) rd l show ?thesis
      by (simp add: addr_of_msg_def addr_of_nl_def)
  qed
qed

lemma remove_route_owned [simp]: "remove_route (r\<lparr>rt_owned := x\<rparr>) rs = remove_route r rs"
  by (induction rs) simp_all

lemma handle_nlmsg_decodes:
  assumes m: "nl_ok m" and b: "b = p @ nl_bytes m @ q" "off = length p"
  shows "handle_nlmsg k b off (nl_type m) (nl_length m) s = apply_nl k m s"
proof -
  have err: "nl_type m = 2 \<Longrightarrow> read_le32 b (off + 16) = Some (le32 (nl_head m)) \<and> (\<exists>x. read_le16 b (off + 24) = Some x)"
    using holds_le32 [OF nl_at(3) [OF m b], of 0] holds_le16 [OF nl_at(3) [OF m b], of 8] m
    by (auto simp: nl_ok_def ac_simps)
  show ?thesis
    using err route_of_msg_decodes [OF m _ b] addr_of_msg_decodes [OF m _ b]
    by (auto simp: handle_nlmsg_def apply_nl_def ndL_handle_newroute_def ndL_handle_delroute_def
        ndL_handle_newaddr_def ndL_handle_deladdr_def ndL_delete_route_def split: option.splits)
qed

lemma length_nl_bytes: "nl_ok m \<Longrightarrow> length (nl_bytes m) = nl_length m"
  by (simp add: nl_bytes_def nl_length_def nl_ok_def)

lemma align4_nl_length: "nl_ok m \<Longrightarrow> align4 (nl_length m) = nl_length m"
  by (intro align4_id) (simp add: nl_length_def nl_ok_def length_attrs_dvd)

lemma nlmsg_loop_decodes:
  fixes s :: "'a session_state_scheme"
  shows "list_all nl_ok ms \<Longrightarrow> b = p @ concat (map nl_bytes ms) \<Longrightarrow> off = length p \<Longrightarrow>
   len = int (length (concat (map nl_bytes ms))) \<Longrightarrow> nlmsg_loop k b off len s = apply_dgram k ms s"
proof (induction ms arbitrary: p off len s)
  case Nil
  then show ?case by (subst nlmsg_loop.simps) simp
next
  case (Cons m ms)
  let ?rest = "concat (map nl_bytes ms)"
  have m: "nl_ok m" and ms: "list_all nl_ok ms" using Cons.prems(1) by simp_all
  have b: "b = p @ nl_bytes m @ ?rest" using Cons.prems(2) by simp
  have len: "len = int (nl_length m) + int (length ?rest)" using Cons.prems(4) by (simp add: length_nl_bytes [OF m])
  have big: "16 \<le> nl_length m" by (simp add: nl_length_def)
  have step: "nlmsg_loop k b off len s =
      (if nl_type m = 3 then Some (s\<lparr>nd_rt_dump_timeout := 0\<rparr>)
       else do { s' \<leftarrow> apply_nl k m s; nlmsg_loop k b (off + nl_length m) (int (length ?rest)) s' })"
    using nl_at(1,2) [OF m b Cons.prems(3)] handle_nlmsg_decodes [OF m b Cons.prems(3), of k s] big
    by (subst nlmsg_loop.simps) (simp add: len align4_nl_length [OF m])
  have "nlmsg_loop k b (off + nl_length m) (int (length ?rest)) s' = apply_dgram k ms s'" for s' :: "'a session_state_scheme"
    using Cons.IH [OF ms, of "p @ nl_bytes m" "off + nl_length m", OF _ _ refl, of s'] b Cons.prems(3)
    by (simp add: length_nl_bytes [OF m])
  then have "nlmsg_loop k b (off + nl_length m) (int (length ?rest)) = (apply_dgram k ms :: 'a session_state_scheme \<Rightarrow> _)"
    by (rule ext)
  with step show ?case by simp
qed

subsection \<open>Safety\<close>

definition dgram_bytes :: "nl_message list \<Rightarrow> bytes" where
  "dgram_bytes ms = concat (map nl_bytes ms)"

lemma nlmsg_loop_dgram:
  "list_all nl_ok ms \<Longrightarrow> nlmsg_loop k (dgram_bytes ms) 0 (int (length (dgram_bytes ms))) s = apply_dgram k ms s"
  using nlmsg_loop_decodes [of ms "dgram_bytes ms" "[]" 0 "int (length (dgram_bytes ms))" k s] by (simp add: dgram_bytes_def)

text \<open>The tables of \<^verbatim>\<open>rt.c\<close> are not part of the invariant of sessions and interfaces.\<close>

lemma running_inv_rt [simp]:
  "running_inv (s\<lparr>ndL_routes := x\<rparr>) = running_inv s" "running_inv (s\<lparr>ndL_addrs := y\<rparr>) = running_inv s"
  "running_inv (s\<lparr>nd_rt_dump_timeout := z\<rparr>) = running_inv s" "running_inv (s\<lparr>nd_current_time := t\<rparr>) = running_inv s"
  by (simp_all add: running_inv_def daemon_inv_def session_wf_def tables_ok_def config_ok_def rule_ok_def proxy_ok_def
      iface_inv_def refs_of_def [abs_def] iface_proxies_ok_def)

definition rt_ok :: "'a session_state_scheme \<Rightarrow> bool" where
  "rt_ok s \<longleftrightarrow> running_inv s \<and> routes_ok (ndL_routes s)"

lemma rt_ok_tables:
  "rt_ok s \<Longrightarrow> rt_ok (ndL_new_route r s)" "rt_ok s \<Longrightarrow> rt_ok (ndL_delete_route r s)"
  "rt_ok s \<Longrightarrow> rt_ok (ndL_new_addr i a n s)" "rt_ok s \<Longrightarrow> rt_ok (ndL_delete_addr i a n s)"
  "rt_ok (s\<lparr>nd_rt_dump_timeout := z\<rparr>) = rt_ok s" "rt_ok (s\<lparr>nd_current_time := t\<rparr>) = rt_ok s"
proof -
  show "rt_ok s \<Longrightarrow> rt_ok (ndL_new_route r s)" "rt_ok s \<Longrightarrow> rt_ok (ndL_delete_route r s)"
    using routes_ok_new [of s r] routes_ok_delete [of s r]
    by (simp_all add: rt_ok_def ndL_new_route_def ndL_delete_route_def)
qed (simp_all add: rt_ok_def ndL_new_addr_def ndL_delete_addr_def)

lemma rt_ok_frame: "rt_ok s \<Longrightarrow> daemon_inv s' \<Longrightarrow> session_frame s s' \<Longrightarrow> rt_ok s'"
  unfolding rt_ok_def using running_inv_frame by (auto simp: session_frame_def)

lemma rebind_rt_ok: "rt_ok s \<Longrightarrow> \<exists>s'. nd_iface_rebind_all k s = Some s' \<and> rt_ok s'"
  using rebind_all_safe [of s k] rt_ok_frame [of s] by (auto simp: rt_ok_def running_inv_def)

lemma apply_nl_safe: "rt_ok s \<Longrightarrow> \<exists>s'. apply_nl k m s = Some s' \<and> rt_ok s'"
  using rebind_rt_ok [of s k] by (auto simp: apply_nl_def rt_ok_tables split: option.splits)

lemma apply_dgram_safe: "rt_ok s \<Longrightarrow> \<exists>s'. apply_dgram k ms s = Some s' \<and> rt_ok s'"
proof (induction ms arbitrary: s)
  case (Cons m ms)
  obtain s1 where "apply_nl k m s = Some s1" "rt_ok s1" using apply_nl_safe [OF Cons.prems] by blast
  with Cons.IH [of s1] Cons.prems show ?case by (auto simp: rt_ok_tables)
qed simp

text \<open>A datagram that is a sequence of well-formed messages.\<close>

definition dgram_ok :: "bytes \<Rightarrow> bool" where
  "dgram_ok b \<longleftrightarrow> (\<exists>ms. list_all nl_ok ms \<and> b = dgram_bytes ms)"

lemma rt_io_handler_safe:
  assumes "rt_ok s" "\<forall>(k, b)\<in>set msgs. dgram_ok b"
  shows "\<exists>s'. rt_io_handler msgs s = Some s' \<and> rt_ok s'"
  unfolding rt_io_handler_def
proof (rule foldM_inv [where I = rt_ok, OF assms(1)])
  fix x and s :: "'a session_state_scheme"
  assume x: "x \<in> set msgs" and s: "rt_ok s"
  obtain k b where kb: "x = (k, b)" by (cases x)
  obtain ms where "list_all nl_ok ms" "b = dgram_bytes ms" using assms(2) x kb by (auto simp: dgram_ok_def)
  then show "\<exists>s'. (case x of (k, b) \<Rightarrow> \<lambda>s. nlmsg_loop k b 0 (int (length b)) s) s = Some s' \<and> rt_ok s'"
    using apply_dgram_safe [OF s, of k ms] by (simp add: kb nlmsg_loop_dgram)
qed

subsection \<open>Properties\<close>

text \<open>
  C13: decoding netlink is exact.  On every datagram laid out as the kernel lays it out, the byte-level walk over messages
  and attributes does what the messages say: routes and addresses are added and removed with the destination, prefix length,
  table and interface of the attributes, the last one of each type counting, link messages rebind the
  interfaces, errors and unknown types change nothing, and the end of a dump ends the datagram.
\<close>

theorem netlink_decodes:
  assumes "list_all nl_ok ms"
  shows "nlmsg_loop k (dgram_bytes ms) 0 (int (length (dgram_bytes ms))) s = apply_dgram k ms s"
  by (rule nlmsg_loop_dgram [OF assms])

definition sample_newroute :: nl_message where
  "sample_newroute =
    \<lparr>nl_type = 24, nl_meta = replicate 10 0, nl_head = [10, 64, 0, 0, 254, 3, 0, 1, 0, 0, 0, 0],
     nl_attrs = [(1, addr_bytes LittleEndian (Nd_addr 0xb80d0120 0 0 0)), (4, [3, 0, 0, 0])]\<rparr>"

lemma sample_newroute_ok: "nl_ok sample_newroute"
proof -
  have "4 dvd length (nl_head sample_newroute)" by (simp add: sample_newroute_def) presburger
  then show ?thesis
    by (simp add: nl_ok_def) (simp add: sample_newroute_def nl_length_def attrs_bytes_def length_attr_bytes attr_ok_def
        RTA_OIF_def RTA_DST_def align4_def)
qed

theorem netlink_decodes_witness:
  "\<exists>s'. nlmsg_loop sample_kernel (dgram_bytes [sample_newroute]) 0 (int (length (dgram_bytes [sample_newroute]))) sample_daemon =
        Some s' \<and>
        ndL_routes s' = [\<lparr>rt_dst = Nd_addr 0xb80d0120 0 0 0, rt_oif = 3, rt_pflen = 64, rt_table = 254, rt_owned = False\<rparr>]"
proof -
  have h: "list_all nl_ok [sample_newroute]" by (simp add: sample_newroute_ok)
  let ?r = "\<lparr>rt_dst = Nd_addr 0xb80d0120 0 0 0, rt_oif = 3, rt_pflen = 64, rt_table = 254, rt_owned = False\<rparr>"
  have "route_of sample_newroute = Some ?r"
    by (simp add: route_of_def sample_newroute_def RTA_OIF_def RTA_DST_def le32_def le16_def Let_def RTPROT_NDPPD_def)
  then have "apply_dgram sample_kernel [sample_newroute] sample_daemon = Some (ndL_new_route ?r sample_daemon)"
    by (simp add: apply_nl_def) (simp add: sample_newroute_def)
  then show ?thesis
    using netlink_decodes [OF h, of sample_kernel sample_daemon]
    by (simp add: ndL_new_route_def) (simp add: sample_daemon_def sample_config_def)
qed

text \<open>
  No datagram of well-formed messages can break the daemon: handling any sequence of them returns, without reading outside
  a datagram, keeps the invariant of sessions, interfaces, rules and proxies, and keeps the route table
  sorted by prefix length and free of duplicates.
\<close>

theorem netlink_safe:
  assumes "rt_ok s" "\<forall>(k, b)\<in>set msgs. dgram_ok b"
  shows "\<exists>s'. rt_io_handler msgs s = Some s' \<and> rt_ok s'"
  by (rule rt_io_handler_safe [OF assms])

theorem netlink_safe_witness:
  "\<exists>s'. rt_io_handler [(sample_kernel, dgram_bytes [sample_newroute])] sample_daemon = Some s' \<and> rt_ok s'"
proof -
  have ok: "rt_ok sample_daemon"
    using sample_daemon_inv by (simp add: rt_ok_def sample_daemon_def sample_config_def routes_ok_def)
  have "dgram_ok (dgram_bytes [sample_newroute])"
    unfolding dgram_ok_def by (intro exI [of _ "[sample_newroute]"]) (simp add: sample_newroute_ok)
  then have d: "\<forall>(k, b)\<in>set [(sample_kernel, dgram_bytes [sample_newroute])]. dgram_ok b" by simp
  show ?thesis by (rule netlink_safe [OF ok d])
qed

end
