(* ===== verification/Main_Loop.thy ===== *)
theory Main_Loop
  imports Netlink
begin

text \<open>
  The event loop of \<^verbatim>\<open>src/ndppd.c\<close>: what \<open>main\<close> does after the configuration is loaded, one turn
  of the loop, and the dispatch of \<open>nd_io_poll\<close> (\<^verbatim>\<open>src/io.c\<close>) to the two sockets.  The local variables of
  \<open>main\<close> are a record of their own beside the daemon's state.  What a turn receives from outside (the
  signal flag, the answers of the kernel, the ready sockets with what can be read from them, the
  clock) is its input.
\<close>

subsection \<open>Starting\<close>

text \<open>
  The packet socket: whether \<open>socket\<close>, the filter and \<open>bind\<close> succeed is up to the kernel.
\<close>

definition nd_iface_startup :: "bool \<Rightarrow> bool \<Rightarrow> bool \<Rightarrow> 'a iface_state_scheme \<Rightarrow> bool \<times> 'a iface_state_scheme" where
  "nd_iface_startup sock filt bound s =
     (if \<not> sock then (False, s\<lparr>ndL_io := False\<rparr>)
      else if \<not> filt then (False, emit ClosePacketSocket s\<lparr>ndL_io := False\<rparr>)
      else if \<not> bound then (False, emit ClosePacketSocket s\<lparr>ndL_io := False\<rparr>)
      else (True, s\<lparr>ndL_io := True\<rparr>))"

record loop_vars =
  querying_routes :: bool
  last_session_update :: int
  last_iface_check :: int

text \<open>
  From the loaded configuration to the loop.  \<open>rt_opened\<close> is whether the netlink socket could be
  opened and bound; dropping privileges and daemonizing do not touch the modelled state.
\<close>

definition main_start ::
  "bool \<Rightarrow> bool \<Rightarrow> bool \<Rightarrow> kernel \<Rightarrow> bool \<Rightarrow> 'a session_state_scheme \<Rightarrow>
   ((loop_vars \<times> 'a session_state_scheme) option \<times> 'a session_state_scheme) option" where
  "main_start sock filt bound k rt_opened s = do {
     let (ok, s1) = nd_iface_startup sock filt bound s;
     if \<not> ok then Some (None, s1)
     else do {
       (started, s2) \<leftarrow> nd_proxy_startup k s1;
       if \<not> started \<or> \<not> rt_opened then Some (None, s2)
       else do {
         let s3 = snd (nd_rt_query_routes s2);
         Some (Some (\<lparr>querying_routes = True, last_session_update = 0, last_iface_check = 0\<rparr>, s3), s3)
       }
     }
   }"

subsection \<open>One turn\<close>

datatype io_event =
    PacketReady "(kernel \<times> nat \<times> bytes) list"   \<comment> \<open>the frames readable on the packet socket\<close>
  | NetlinkReady "(kernel \<times> bytes) list"         \<comment> \<open>the datagrams readable on the netlink socket\<close>

definition io_dispatch :: "io_event \<Rightarrow> 'a session_state_scheme \<Rightarrow> 'a session_state_scheme option" where
  "io_dispatch e s = (case e of PacketReady msgs \<Rightarrow> ndL_io_handler msgs s | NetlinkReady msgs \<Rightarrow> rt_io_handler msgs s)"

text \<open>\<open>None\<close> is an \<open>epoll_wait\<close> that fails.\<close>

definition nd_io_poll :: "io_event list option \<Rightarrow> 'a session_state_scheme \<Rightarrow> (bool \<times> 'a session_state_scheme) option" where
  "nd_io_poll ready s =
     (case ready of
        None \<Rightarrow> Some (False, s)
      | Some events \<Rightarrow> do { s' \<leftarrow> foldM io_dispatch events s; Some (True, s') })"

record turn =
  t_stop :: bool
  t_kernel :: kernel
  t_ready :: "io_event list option"
  t_now :: int

definition dump_check :: "loop_vars \<Rightarrow> 'a session_state_scheme \<Rightarrow> loop_vars \<times> 'a session_state_scheme" where
  "dump_check v s =
     (let s1 = (if nd_current_time s \<ge> nd_rt_dump_timeout s then s\<lparr>nd_rt_dump_timeout := 0\<rparr> else s)
      in if querying_routes v \<and> nd_rt_dump_timeout s1 = 0
         then (v\<lparr>querying_routes := False\<rparr>, snd (nd_rt_query_addresses (nd_rt_remove_owned_routes s1)))
         else (v, s1))"

definition session_check :: "loop_vars \<Rightarrow> 'a session_state_scheme \<Rightarrow> (loop_vars \<times> 'a session_state_scheme) option" where
  "session_check v s =
     (if nd_current_time s - last_session_update v > 100
      then do { s' \<leftarrow> nd_session_update_all s; Some (v\<lparr>last_session_update := nd_current_time s'\<rparr>, s') }
      else Some (v, s))"

definition iface_check ::
  "kernel \<Rightarrow> loop_vars \<Rightarrow> 'a session_state_scheme \<Rightarrow> (loop_vars \<times> 'a session_state_scheme) option" where
  "iface_check k v s =
     (if nd_current_time s - last_iface_check v > 5000
      then do { s' \<leftarrow> nd_iface_rebind_all k s; Some (v\<lparr>last_iface_check := nd_current_time s'\<rparr>, s') }
      else Some (v, s))"

text \<open>The first component of the result is the exit code when the loop is left.\<close>

definition main_turn ::
  "turn \<Rightarrow> loop_vars \<times> 'a session_state_scheme \<Rightarrow> (int option \<times> loop_vars \<times> 'a session_state_scheme) option" where
  "main_turn t st = do {
     let (v, s) = st;
     if t_stop t then Some (Some 0, v, s)
     else do {
       let (v1, s1) = dump_check v s;
       (v2, s2) \<leftarrow> session_check v1 s1;
       (v3, s3) \<leftarrow> iface_check (t_kernel t) v2 s2;
       (ok, s4) \<leftarrow> nd_io_poll (t_ready t) s3;
       if \<not> ok then Some (Some 1, v3, s4)
       else Some (None, v3, s4\<lparr>nd_current_time := t_now t\<rparr>)
     }
   }"

fun main_loop ::
  "turn list \<Rightarrow> loop_vars \<times> 'a session_state_scheme \<Rightarrow> (int option \<times> loop_vars \<times> 'a session_state_scheme) option" where
  "main_loop [] st = Some (None, st)"
| "main_loop (t # ts) st = do {
     (r, st') \<leftarrow> main_turn t st;
     case r of Some code \<Rightarrow> Some (Some code, st') | None \<Rightarrow> main_loop ts st'
   }"

text \<open>
  What is assumed of the outside: names the kernel returns fit their buffers, and netlink
  datagrams are well formed.  Frames from the network are arbitrary.
\<close>

fun event_ok :: "io_event \<Rightarrow> bool" where
  "event_ok (PacketReady msgs) = (\<forall>(k, idx, f)\<in>set msgs. kernel_ok k)"
| "event_ok (NetlinkReady msgs) = (\<forall>(k, b)\<in>set msgs. dgram_ok b)"

definition turn_ok :: "turn \<Rightarrow> bool" where
  "turn_ok t \<longleftrightarrow> (\<forall>events. t_ready t = Some events \<longrightarrow> (\<forall>e\<in>set events. event_ok e))"

text \<open>The states the daemon can be in at the top of the loop.\<close>

inductive daemon_reach :: "loop_vars \<times> 'a session_state_scheme \<Rightarrow> bool" where
  start: "config_inv s \<Longrightarrow> modes_ok s \<Longrightarrow> all_pending s \<Longrightarrow> routes_ok (ndL_routes s) \<Longrightarrow> kernel_ok k \<Longrightarrow>
          main_start sock filt bound k rt_opened s = Some (Some st, s') \<Longrightarrow> daemon_reach st"
| turn: "daemon_reach st \<Longrightarrow> turn_ok t \<Longrightarrow> main_turn t st = Some (None, st') \<Longrightarrow> daemon_reach st'"

inductive_cases main_reachE: "daemon_reach st"

subsection \<open>Every turn is safe\<close>

lemma rt_ok_emit [simp]: "rt_ok (emit e s) = rt_ok s"
  by (simp add: rt_ok_def running_inv_def daemon_inv_def session_wf_def tables_ok_def config_ok_def rule_ok_def proxy_ok_def
      iface_inv_def refs_of_def [abs_def] iface_proxies_ok_def emit_def)

lemma rt_ok_remove_owned: "rt_ok s \<Longrightarrow> rt_ok (nd_rt_remove_owned_routes s)"
proof -
  have "rt_ok s \<Longrightarrow> rt_ok (fold (\<lambda>r s. if rt_owned r then nd_rt_remove_route (rt_dst r) (rt_pflen r) (rt_table r) s else s) rs s)"
    for rs and s :: "'a session_state_scheme"
    by (induction rs arbitrary: s) (simp_all add: nd_rt_remove_route_def)
  then show "rt_ok s \<Longrightarrow> rt_ok (nd_rt_remove_owned_routes s)" by (simp add: nd_rt_remove_owned_routes_def)
qed

lemma rt_ok_queries: "rt_ok s \<Longrightarrow> rt_ok (snd (nd_rt_query_routes s))" "rt_ok s \<Longrightarrow> rt_ok (snd (nd_rt_query_addresses s))"
  by (simp_all add: nd_rt_query_routes_def nd_rt_query_addresses_def rt_ok_tables)

lemma dump_check_ok: "rt_ok s \<Longrightarrow> rt_ok (snd (dump_check v s))"
  by (simp add: dump_check_def Let_def rt_ok_tables rt_ok_queries rt_ok_remove_owned)

lemma session_check_ok:
  assumes "rt_ok s"
  shows "\<exists>v' s'. session_check v s = Some (v', s') \<and> rt_ok s' \<and> last_iface_check v' = last_iface_check v \<and>
                 nd_current_time s' = nd_current_time s"
proof -
  have inv: "daemon_inv s" using assms by (simp add: rt_ok_def running_inv_def)
  obtain s' where s': "nd_session_update_all s = Some s'" "daemon_inv s'" "session_frame s s'"
    using nd_session_update_all_safe [OF inv] by blast
  then have "rt_ok s'" using rt_ok_frame [OF assms] by blast
  with s' assms show ?thesis by (simp add: session_check_def session_frame_def)
qed

lemma iface_check_ok: "rt_ok s \<Longrightarrow> \<exists>v' s'. iface_check k v s = Some (v', s') \<and> rt_ok s'"
  using rebind_rt_ok [of s k] by (auto simp: iface_check_def)

lemma io_dispatch_ok: "rt_ok s \<Longrightarrow> event_ok e \<Longrightarrow> \<exists>s'. io_dispatch e s = Some s' \<and> rt_ok s'"
proof (cases e)
  case (PacketReady msgs)
  assume s: "rt_ok s" and "event_ok e"
  then have k: "\<forall>(k, idx, f)\<in>set msgs. kernel_ok k" using PacketReady by simp
  have "running_inv s" using s by (simp add: rt_ok_def)
  then obtain s' where "ndL_io_handler msgs s = Some s'" "running_inv s'" "session_frame s s'"
    using ndL_io_handler_safe [OF _ k] by blast
  then show ?thesis using rt_ok_frame [OF s] PacketReady by (auto simp: io_dispatch_def running_inv_def)
qed (simp add: io_dispatch_def rt_io_handler_safe)

lemma nd_io_poll_ok:
  assumes "rt_ok s" "\<And>events e. ready = Some events \<Longrightarrow> e \<in> set events \<Longrightarrow> event_ok e"
  shows "\<exists>ok s'. nd_io_poll ready s = Some (ok, s') \<and> rt_ok s' \<and> ok = (ready \<noteq> None)"
proof (cases ready)
  case (Some events)
  then have "\<exists>s'. foldM io_dispatch events s = Some s' \<and> rt_ok s'"
    using assms by (intro foldM_inv) (auto intro: io_dispatch_ok)
  with Some show ?thesis by (auto simp: nd_io_poll_def)
qed (use assms in \<open>auto simp: nd_io_poll_def\<close>)

lemma main_turn_ok:
  assumes "rt_ok (snd st)" "turn_ok t"
  shows "\<exists>r st'. main_turn t st = Some (r, st') \<and> rt_ok (snd st') \<and>
     r = (if t_stop t then Some 0 else if t_ready t = None then Some 1 else None)"
proof (cases "t_stop t")
  case True
  then show ?thesis using assms by (cases st) (simp add: main_turn_def)
next
  case False
  obtain v s where st: "st = (v, s)" by (cases st)
  obtain v1 s1 where d: "dump_check v s = (v1, s1)" by (cases "dump_check v s")
  have s1: "rt_ok s1" using dump_check_ok [of s v] assms(1) d st by simp
  obtain v2 s2 where u: "session_check v1 s1 = Some (v2, s2)" "rt_ok s2" using session_check_ok [OF s1] by blast
  obtain v3 s3 where i: "iface_check (t_kernel t) v2 s2 = Some (v3, s3)" "rt_ok s3" using iface_check_ok [OF u(2)] by blast
  obtain ok s4 where p: "nd_io_poll (t_ready t) s3 = Some (ok, s4)" "rt_ok s4" "ok = (t_ready t \<noteq> None)"
    using nd_io_poll_ok [OF i(2), of "t_ready t"] assms(2) by (auto simp: turn_ok_def)
  from False st d u i p show ?thesis by (simp add: main_turn_def rt_ok_tables)
qed

lemma main_loop_ok:
  "rt_ok (snd st) \<Longrightarrow> list_all turn_ok ts \<Longrightarrow> \<exists>r st'. main_loop ts st = Some (r, st') \<and> rt_ok (snd st')"
proof (induction ts arbitrary: st)
  case (Cons t ts)
  obtain r st1 where t: "main_turn t st = Some (r, st1)" "rt_ok (snd st1)"
    using main_turn_ok [OF Cons.prems(1), of t] Cons.prems(2) by auto
  show ?case
  proof (cases r)
    case None
    then show ?thesis using t Cons.IH [OF t(2)] Cons.prems(2) by simp
  qed (use t in simp)
qed simp

subsection \<open>Starting establishes the invariant\<close>

lemma config_inv_io: "config_inv (s\<lparr>ndL_io := b\<rparr>) = config_inv s" "modes_ok (s\<lparr>ndL_io := b\<rparr>) = modes_ok s"
  "all_pending (s\<lparr>ndL_io := b\<rparr>) = all_pending s"
  by (simp_all add: config_inv_def config_wf_def no_sessions_def iface_inv_def refs_of_def [abs_def] iface_proxies_ok_def
      modes_ok_def all_pending_def)

lemma all_pending_proxies: "all_pending s \<Longrightarrow> pp \<in> dom (h_proxy s) \<Longrightarrow> proxy_pending s pp"
  by (auto simp: all_pending_def proxy_pending_def rule_pending_def)

lemma all_loop_routes:
  assumes "\<And>x s ok s'. f x s = Some (ok, s') \<Longrightarrow> ndL_routes s' = ndL_routes s" and "all_loop f xs s = Some (ok, s')"
  shows "ndL_routes s' = ndL_routes s"
  using assms(2) by (induction xs arbitrary: s) (auto simp: bind_eq_Some_conv split: if_splits dest!: assms(1))

lemma startup_rule_routes: "startup_rule k rp s = Some (ok, s') \<Longrightarrow> ndL_routes s' = ndL_routes s"
  by (auto simp: startup_rule_def bind_eq_Some_conv split: if_splits dest!: open_keeps(3))

lemma startup_rules_routes: "all_loop (startup_rule k) rps s = Some (ok, s') \<Longrightarrow> ndL_routes s' = ndL_routes s"
  by (rule all_loop_routes [of "startup_rule k"]) (auto dest: startup_rule_routes)

lemma startup_proxy_routes: "startup_proxy k pp s = Some (ok, s') \<Longrightarrow> ndL_routes s' = ndL_routes s"
  by (auto simp: startup_proxy_def bind_eq_Some_conv Let_def split: if_splits option.splits
      dest!: open_keeps(3) startup_rules_routes)

lemma startup_routes: "nd_proxy_startup k s = Some (ok, s') \<Longrightarrow> ndL_routes s' = ndL_routes s"
  by (auto simp: nd_proxy_startup_def split: if_splits elim!: all_loop_routes [rotated] dest: startup_proxy_routes)

lemma main_start_ok:
  assumes "config_inv s" "modes_ok s" "all_pending s" "routes_ok (ndL_routes s)" "kernel_ok k"
  shows "\<exists>st s'. main_start sock filt bound k rt_opened s = Some (st, s') \<and>
     (\<forall>x. st = Some x \<longrightarrow> rt_ok (snd x) \<and> ndL_proxies s \<noteq> [])"
proof (cases "sock \<and> filt \<and> bound")
  case True
  let ?s = "s\<lparr>ndL_io := True\<rparr>"
  have c: "config_inv ?s" "modes_ok ?s" "all_pending ?s" using assms(1-3) by (simp_all add: config_inv_io)
  then have "\<forall>pp\<in>dom (h_proxy ?s). proxy_pending ?s pp" using all_pending_proxies by blast
  then obtain b s2 where b: "nd_proxy_startup k ?s = Some (b, s2)" "b \<longrightarrow> running_inv s2 \<and> ndL_proxies ?s \<noteq> []"
    using nd_proxy_startup_ok [OF c(1,2) assms(5)] by blast
  have "routes_ok (ndL_routes s2)" using startup_routes [OF b(1)] assms(4) by simp
  with True b show ?thesis
    by (auto simp: main_start_def nd_iface_startup_def Let_def rt_ok_def intro!: rt_ok_queries [unfolded rt_ok_def])
next
  case False
  then show ?thesis by (auto simp: main_start_def nd_iface_startup_def Let_def)
qed

lemma daemon_reach_ok: "daemon_reach st \<Longrightarrow> rt_ok (snd st)"
proof (induction rule: daemon_reach.induct)
  case (start s k sock filt bound rt_opened st s')
  obtain x y where "main_start sock filt bound k rt_opened s = Some (x, y)" "\<forall>z. x = Some z \<longrightarrow> rt_ok (snd z)"
    using main_start_ok [OF start(1-5), of sock filt bound rt_opened] by blast
  with start(6) show ?case by simp
next
  case (turn st t st')
  then show ?case using main_turn_ok [OF turn.IH turn.hyps(2)] by auto
qed

end
