(* ===== verification/Session_Life.thy ===== *)
theory Session_Life
  imports Sample
begin

text \<open>
  The life of a session: what the timers, solicitations and advertisements of \<^verbatim>\<open>src/session.c\<close> do
  to its state, and what the daemon sends meanwhile.
\<close>

subsection \<open>Timers\<close>

lemma send_put_effect:
  assumes "nd_iface_send_ns iface tgt (put_session p y s) = Some s'"
  shows "h_session s' = (h_session s)(p \<mapsto> y)" "nd_current_time s' = nd_current_time s"
  using send_ns_out [OF assms] by auto

text \<open>The times a session may spend in a state before the sweep moves it on.\<close>

definition in_time :: "'a session_state_scheme \<Rightarrow> nd_session \<Rightarrow> bool" where
  "in_time s x =
     (case s_state x of
        ND_STATE_VALID \<Rightarrow> nd_current_time s - state_time x < nd_conf_valid_ttl s
      | ND_STATE_STALE \<Rightarrow> nd_current_time s - state_time x < nd_conf_stale_ttl s
      | ND_STATE_INVALID \<Rightarrow> nd_current_time s - state_time x < nd_conf_invalid_ttl s
      | ND_STATE_INCOMPLETE \<Rightarrow> True)"

definition ttls_positive :: "'a session_state_scheme \<Rightarrow> bool" where
  "ttls_positive s \<longleftrightarrow> 0 < nd_conf_valid_ttl s \<and> 0 < nd_conf_stale_ttl s \<and> 0 < nd_conf_invalid_ttl s"

lemma in_time_frame:
  assumes "session_frame s s'"
  shows "in_time s' = in_time s" "ttls_positive s' = ttls_positive s"
  using assms by (auto simp: in_time_def session_frame_def ttls_positive_def fun_eq_iff split: nd_state.splits)

lemma update_incomplete_cases:
  assumes "update_incomplete p x s = Some s'" "h_session s p = Some x" "s_state x = ND_STATE_INCOMPLETE"
  shows "\<exists>y. h_session s' p = Some y \<and> s_subs y = s_subs x \<and>
     (s_state y = ND_STATE_INCOMPLETE \<or> s_state y = ND_STATE_INVALID \<and> state_time y = nd_current_time s)"
  using assms
  by (auto simp: update_incomplete_def Let_def bind_eq_Some_conv send_put_effect split: option.splits if_splits)

lemma update_valid_cases:
  assumes "update_valid p x s = Some s'" "h_session s p = Some x" "s_state x = ND_STATE_VALID"
  shows "\<exists>y. h_session s' p = Some y \<and> s_subs y = s_subs x \<and>
     (y = x \<and> nd_current_time s - state_time x < nd_conf_valid_ttl s \<or> state_time y = nd_current_time s \<and>
        s_state y \<in> {ND_STATE_VALID, ND_STATE_STALE, ND_STATE_INVALID})"
  using assms
  by (auto simp: update_valid_def Let_def bind_eq_Some_conv send_put_effect split: option.splits if_splits)

lemma update_stale_cases:
  assumes "update_stale p x s = Some s'" "h_session s p = Some x" "s_state x = ND_STATE_STALE"
  shows "\<exists>y. h_session s' p = Some y \<and> s_subs y = s_subs x \<and>
     (s_state y = ND_STATE_STALE \<and> state_time y = state_time x \<and> nd_current_time s - state_time x < nd_conf_stale_ttl s \<or>
      s_state y = ND_STATE_INVALID \<and> state_time y = nd_current_time s)"
  using assms
  by (auto simp: update_stale_def Let_def send_put_effect split: if_splits)

lemma update_invalid_cases:
  assumes "update_invalid p x s = Some s'" "h_session s p = Some x"
  shows "(s' = s \<and> nd_current_time s - state_time x < nd_conf_invalid_ttl s) \<or> h_session s' p = None"
  using assms by (auto simp: update_invalid_def bind_eq_Some_conv split: if_splits)

lemma nd_session_update_in_time:
  assumes "nd_session_update p s = Some s'" "h_session s p = Some x" "session_frame s s'" "ttls_positive s"
    and "h_session s' p = Some y"
  shows "in_time s' y"
proof -
  have t: "in_time s' = in_time s" using in_time_frame [OF assms(3)] by simp
  show ?thesis
    unfolding t
    using assms update_incomplete_cases [of p x s s'] update_valid_cases [of p x s s'] update_stale_cases [of p x s s']
      update_invalid_cases [of p x s s']
    by (cases "s_state x") (auto simp: nd_session_update_def in_time_def ttls_positive_def split: nd_state.splits)
qed

text \<open>A sweep that establishes something of each session it visits establishes it of all sessions.\<close>

lemma sweep_chain_post:
  fixes s :: "'a session_state_scheme"
  assumes body: "\<And>p x s. daemon_inv s \<Longrightarrow> h_session s p = Some x \<Longrightarrow> session_safe p s (f p s)"
    and post: "\<And>p x y (s :: 'a session_state_scheme) s'. f p s = Some s' \<Longrightarrow> h_session s p = Some x \<Longrightarrow> session_frame s s' \<Longrightarrow> C s \<Longrightarrow>
                 h_session s' p = Some y \<Longrightarrow> Q s' y"
    and frame: "\<And>(s :: 'a session_state_scheme) s'. session_frame s s' \<Longrightarrow> C s' = C s \<and> Q s' = Q s"
    and "daemon_inv s" "C s" "distinct ps" "set ps \<subseteq> dom (h_session s)" "foldM f ps s = Some s'"
  shows "\<forall>q\<in>set ps. \<forall>y. h_session s' q = Some y \<longrightarrow> Q s' y"
  using assms(4-)
proof (induction ps arbitrary: s)
  case (Cons p ps)
  then obtain x where x: "h_session s p = Some x" by auto
  with body Cons.prems(1) obtain s1 where s1: "f p s = Some s1" "daemon_inv s1" "session_frame s s1"
    "\<forall>q. q \<noteq> p \<longrightarrow> h_session s1 q = h_session s q"
    unfolding session_safe_def by blast
  have dom: "set ps \<subseteq> dom (h_session s1)" using Cons.prems s1(4) by (auto simp: domIff subset_iff)
  have run: "foldM f ps s1 = Some s'" using Cons.prems(5) s1(1) by simp
  have rest: "\<forall>q\<in>set ps. \<forall>y. h_session s' q = Some y \<longrightarrow> Q s' y"
    using Cons.IH [OF s1(2) _ _ dom run] Cons.prems(2,3) frame [OF s1(3)] by simp
  have "\<exists>s'. foldM f ps s1 = Some s' \<and> daemon_inv s' \<and> session_frame s1 s' \<and>
              (\<forall>q. q \<notin> set ps \<longrightarrow> h_session s' q = h_session s1 q)"
  proof (rule sweep_chain [OF _ s1(2) _ dom])
    show "session_safe q t (f q t)" if "daemon_inv t" "h_session t q = Some z" for q z t by (rule body [OF that])
  qed (use Cons.prems(3) in simp)
  then obtain s'' where s'': "foldM f ps s1 = Some s''" "session_frame s1 s''" "\<forall>q. q \<notin> set ps \<longrightarrow> h_session s'' q = h_session s1 q"
    by blast
  have "Q s' y" if "h_session s' p = Some y" for y
  proof -
    have "h_session s1 p = Some y" using that s'' run Cons.prems(3) by auto
    then have "Q s1 y" by (rule post [OF s1(1) x s1(3) Cons.prems(2)])
    then show ?thesis using frame [OF s''(2)] s''(1) run by simp
  qed
  with rest show ?case by simp
qed simp

lemma buckets_cover:
  assumes "daemon_inv s" "h_session s p = Some x"
  shows "NDL_BUCKET (ndL_hash_seed s) (s_tgt x) < NDPPD_SESSION_BUCKETS"
    "p \<in> set (ndL_sessions s ! NDL_BUCKET (ndL_hash_seed s) (s_tgt x))"
proof -
  have i: "index_ok (NDL_BUCKET (ndL_hash_seed s)) NDPPD_SESSION_BUCKETS s_tgt (h_session s) (ndL_sessions s)"
    using session_wfD(1) [OF daemon_invD(1) [OF assms(1)]] by (simp add: tables_ok_def)
  show "NDL_BUCKET (ndL_hash_seed s) (s_tgt x) < NDPPD_SESSION_BUCKETS" by (rule buckets.bkt_less)
  show "p \<in> set (ndL_sessions s ! NDL_BUCKET (ndL_hash_seed s) (s_tgt x))"
    by (rule buckets.index_member [OF i assms(2)])
qed

text \<open>
  During a sweep over the buckets, the sessions of the buckets already visited satisfy the
  postcondition: a later bucket does not touch them.
\<close>

lemma chain_mem:
  assumes "daemon_inv s" "i < NDPPD_SESSION_BUCKETS"
  shows "p \<in> set (ndL_sessions s ! i) \<longleftrightarrow> (\<exists>x. h_session s p = Some x \<and> NDL_BUCKET (ndL_hash_seed s) (s_tgt x) = i)"
proof -
  have i: "index_ok (NDL_BUCKET (ndL_hash_seed s)) NDPPD_SESSION_BUCKETS s_tgt (h_session s) (ndL_sessions s)"
    using session_wfD(1) [OF daemon_invD(1) [OF assms(1)]] by (simp add: tables_ok_def)
  show ?thesis using index_okD(3) [OF i assms(2)] by simp
qed

lemma sweep_all_post:
  fixes s :: "'a session_state_scheme"
  assumes body: "\<And>p x (s :: 'a session_state_scheme). daemon_inv s \<Longrightarrow> h_session s p = Some x \<Longrightarrow> session_safe p s (f p s)"
    and post: "\<And>p x y (s :: 'a session_state_scheme) s'. f p s = Some s' \<Longrightarrow> h_session s p = Some x \<Longrightarrow> session_frame s s' \<Longrightarrow> C s \<Longrightarrow>
                 h_session s' p = Some y \<Longrightarrow> Q s' y"
    and frame: "\<And>(s :: 'a session_state_scheme) s'. session_frame s s' \<Longrightarrow> C s' = C s \<and> Q s' = Q s"
    and "daemon_inv s" "C s" "n \<le> NDPPD_SESSION_BUCKETS"
    and "foldM (\<lambda>i s. foldM f (ndL_sessions s ! i) s) [0..<n] s = Some s'"
  shows "daemon_inv s' \<and> session_frame s s' \<and>
     (\<forall>p y. h_session s' p = Some y \<longrightarrow> NDL_BUCKET (ndL_hash_seed s') (s_tgt y) < n \<longrightarrow> Q s' y)"
  using assms(6,7)
proof (induction n arbitrary: s')
  case 0
  then show ?case using assms(4) by simp
next
  case (Suc n)
  let ?g = "\<lambda>i s. foldM f (ndL_sessions s ! i) s"
  obtain t where t: "foldM ?g [0..<n] s = Some t" "foldM f (ndL_sessions t ! n) t = Some s'"
    using Suc.prems(2) by (auto simp: foldM_append bind_eq_Some_conv)
  have n: "n < NDPPD_SESSION_BUCKETS" using Suc.prems(1) by simp
  have inv: "daemon_inv t" "session_frame s t"
    and old: "\<And>p y. h_session t p = Some y \<Longrightarrow> NDL_BUCKET (ndL_hash_seed t) (s_tgt y) < n \<Longrightarrow> Q t y"
    using Suc.IH [OF _ t(1)] n by auto
  note ch = chain_ok [OF inv(1) n]
  have "\<exists>s'. foldM f (ndL_sessions t ! n) t = Some s' \<and> daemon_inv s' \<and> session_frame t s' \<and>
              (\<forall>q. q \<notin> set (ndL_sessions t ! n) \<longrightarrow> h_session s' q = h_session t q)"
  proof (rule sweep_chain [OF _ inv(1) ch])
    show "session_safe q u (f q u)" if "daemon_inv u" "h_session u q = Some z" for q z and u :: "'a session_state_scheme"
      by (rule body [OF that])
  qed
  then have s': "daemon_inv s'" "session_frame t s'" "\<And>q. q \<notin> set (ndL_sessions t ! n) \<Longrightarrow> h_session s' q = h_session t q"
    using t(2) by auto
  have visited: "\<forall>q\<in>set (ndL_sessions t ! n). \<forall>y. h_session s' q = Some y \<longrightarrow> Q s' y"
  proof (rule sweep_chain_post [where C = C and Q = Q, OF _ _ _ inv(1) _ ch t(2)])
    show "session_safe q u (f q u)" if "daemon_inv u" "h_session u q = Some z" for q z and u :: "'a session_state_scheme"
      by (rule body [OF that])
    show "Q u' y" if "f q u = Some u'" "h_session u q = Some z" "session_frame u u'" "C u" "h_session u' q = Some y"
      for q z y and u u' :: "'a session_state_scheme" by (rule post [OF that])
    show "C t" using assms(5) frame [OF inv(2)] by simp
  qed (rule frame)
  have "Q s' y" if y: "h_session s' p = Some y" "NDL_BUCKET (ndL_hash_seed s') (s_tgt y) < Suc n" for p y
  proof (cases "p \<in> set (ndL_sessions t ! n)")
    case False
    then have "h_session t p = Some y" using s'(3) y(1) by simp
    moreover have "NDL_BUCKET (ndL_hash_seed t) (s_tgt y) \<noteq> n"
      using False calculation chain_mem [OF inv(1) n] by blast
    moreover have "ndL_hash_seed s' = ndL_hash_seed t" using s'(2) by (simp add: session_frame_def)
    ultimately show ?thesis using old y(2) frame [OF s'(2)] by simp
  qed (use visited y in blast)
  then show ?case using s' session_frame_trans [OF inv(2) s'(2)] by blast
qed

lemma update_all_in_time:
  assumes "daemon_inv s" "ttls_positive s" "nd_session_update_all s = Some s'" "h_session s' p = Some y"
  shows "in_time s' y"
proof -
  have "daemon_inv s' \<and> session_frame s s' \<and>
     (\<forall>p y. h_session s' p = Some y \<longrightarrow> NDL_BUCKET (ndL_hash_seed s') (s_tgt y) < NDPPD_SESSION_BUCKETS \<longrightarrow> in_time s' y)"
  proof (rule sweep_all_post [where C = ttls_positive, OF _ _ _ assms(1,2) order_refl assms(3) [unfolded nd_session_update_all_def]])
    show "session_safe q u (nd_session_update q u)" if "daemon_inv u" "h_session u q = Some z" for q z and u :: "'a session_state_scheme"
      by (rule nd_session_update_safe [OF that])
    show "in_time u' y" if "nd_session_update q u = Some u'" "h_session u q = Some z" "session_frame u u'" "ttls_positive u"
      "h_session u' q = Some y" for q z y and u u' :: "'a session_state_scheme"
      by (rule nd_session_update_in_time [OF that])
  qed (use in_time_frame in blast)
  then show ?thesis using assms(4) buckets_cover(1) by blast
qed

subsection \<open>What is sent\<close>

definition no_advert :: "effect \<Rightarrow> bool" where
  "no_advert e = (case e of Packet n f \<Rightarrow> f ! 54 \<noteq> 136 | _ \<Rightarrow> True)"

text \<open>Between two states nothing was sent that advertises a neighbour.\<close>

definition quiet :: "'a nd_env_scheme \<Rightarrow> 'b nd_env_scheme \<Rightarrow> bool" where
  "quiet s s' \<longleftrightarrow> (\<exists>new. out s' = out s @ new \<and> list_all no_advert new)"

lemma quiet_same: "out s' = out s \<Longrightarrow> quiet s s'"
  by (simp add: quiet_def)

lemma quiet_trans: "quiet s s' \<Longrightarrow> quiet s' s'' \<Longrightarrow> quiet s s''"
  by (auto simp: quiet_def)

lemma quiet_emit: "no_advert e \<Longrightarrow> quiet s (emit e s)"
  by (simp add: quiet_def)

lemma quiet_put [simp]: "quiet s (put_session p y s') = quiet s s'" "quiet (put_session p y s) s' = quiet s s'"
  by (simp_all add: quiet_def)

lemma quiet_snoc: "out s' = out s @ [e] \<Longrightarrow> no_advert e \<Longrightarrow> quiet s s'"
  by (simp add: quiet_def)

lemma no_advert_simps [simp]: "no_advert (AddMembership i mr)" "no_advert (DropMembership i mr)" "no_advert (RouteReq r)"
  "no_advert (Packet n (ns_frame own tgt))"
  by (simp_all add: no_advert_def)

lemma send_ns_quiet:
  assumes "nd_iface_send_ns iface tgt s = Some s'"
  shows "quiet s s'"
proof -
  obtain p i where "s' = ndL_send_icmp6 i (ns_frame (if_lladdr i) tgt) s" "iface = Some p"
    using assms by (auto simp: nd_iface_send_ns_def bind_eq_Some_conv)
  then show ?thesis by (simp add: ndL_send_icmp6_def quiet_same quiet_emit)
qed

lemma open_effect:
  assumes "nd_iface_open k name index pr s = Some (r, s')"
  shows "quiet s s'"
  using open_keeps [OF assms] by (auto simp: quiet_same quiet_snoc)

lemma open_sessions:
  fixes s s' :: "'a session_state_scheme"
  assumes "nd_iface_open k name index pr s = Some (r, s')"
  shows "h_session s' = h_session s"
  using open_keeps [OF assms] session_fields_of_more(1) by blast

lemma start_probing_effect:
  assumes "start_probing p x s = Some s'"
  shows "quiet s s'" "\<exists>y. h_session s' p = Some y \<and> s_state y = ND_STATE_INCOMPLETE"
  using assms send_ns_quiet send_put_effect(1) by (fastforce simp: start_probing_def Let_def)+

lemma retry_route_cases:
  assumes "retry_route k p s = Some s'" "h_session s p = Some x"
  obtains "s' = s" | oif where "nd_iface_open k None oif False s = Some (None, s')"
  | oif ip s1 y where "nd_iface_open k None oif False s = Some (Some ip, s1)" "start_probing p y s1 = Some s'"
proof (cases "s' = s")
  case False
  obtain r route where r: "h_rule s (s_rule x) = Some r" "nd_rt_find_route (s_tgt x) (r_table r) s = Some route"
    "s_state x = ND_STATE_INVALID" "s_iface x = None" "r_mode r = ND_MODE_AUTO"
    using assms False by (auto simp: retry_route_def bind_eq_Some_conv split: if_splits option.splits)
  then obtain io s1 where io: "nd_iface_open k None (rt_oif route) False s = Some (io, s1)"
    "(case io of None \<Rightarrow> Some s1
      | Some ip' \<Rightarrow> start_probing p (x\<lparr>s_iface := Some ip', state_time := nd_current_time s1\<rparr>) s1) = Some s'"
    using assms False by (auto simp: retry_route_def bind_eq_Some_conv split: if_splits)
  then show ?thesis using that(2,3) by (cases io) auto
qed (rule that(1))

lemma retry_route_effect:
  assumes "retry_route k p s = Some s'" "h_session s p = Some x"
  shows "quiet s s' \<and> (\<exists>y. h_session s' p = Some y \<and> (s_state y = s_state x \<or> s_state y = ND_STATE_INCOMPLETE))"
  using assms
proof (rule retry_route_cases)
  assume "s' = s"
  then show ?thesis using assms(2) by (simp add: quiet_same)
next
  fix oif
  assume "nd_iface_open k None oif False s = Some (None, s')"
  then show ?thesis using open_effect open_sessions assms(2) by fastforce
next
  fix oif ip s1 y
  assume o: "nd_iface_open k None oif False s = Some (Some ip, s1)" and p: "start_probing p y s1 = Some s'"
  show ?thesis using quiet_trans [OF open_effect [OF o] start_probing_effect(1) [OF p]] start_probing_effect(2) [OF p] by auto
qed

lemma probe_stale_effect:
  assumes "probe_stale p s = Some s'" "h_session s p = Some x"
  shows "quiet s s'" "\<exists>y. h_session s' p = Some y \<and> s_state y = s_state x"
  using assms send_ns_quiet send_put_effect(1)
  by (fastforce simp: probe_stale_def Let_def quiet_same split: if_splits)+

lemma queue_sub_state: "queue_sub src ll x = Some x' \<Longrightarrow> s_state x' = s_state x"
  by (auto simp: queue_sub_def split: if_splits)

lemma handle_ns_effect:
  assumes "nd_session_handle_ns k p src src_ll s = Some s'" "h_session s p = Some x" "s_state x \<noteq> ND_STATE_VALID"
  shows "quiet s s'" "\<exists>y. h_session s' p = Some y \<and> s_state y \<noteq> ND_STATE_VALID"
proof -
  let ?x = "x\<lparr>ins_time := nd_current_time s\<rparr>"
  let ?s = "put_session p ?x s"
  consider "s' = ?s" | ll x' s2 where "queue_sub src ll ?x = Some x'" "retry_route k p (put_session p x' ?s) = Some s2" "probe_stale p s2 = Some s'"
    using assms by (auto simp: nd_session_handle_ns_def Let_def bind_eq_Some_conv split: option.splits)
  then have "quiet s s' \<and> (\<exists>y. h_session s' p = Some y \<and> s_state y \<noteq> ND_STATE_VALID)"
  proof cases
    case 1
    then show ?thesis using assms(3) by (simp add: quiet_same)
  next
    case 2
    have r: "quiet s s2" "\<exists>y. h_session s2 p = Some y \<and> (s_state y = s_state x' \<or> s_state y = ND_STATE_INCOMPLETE)"
      using retry_route_effect [OF 2(2), of x'] by simp_all
    obtain y where y: "h_session s2 p = Some y" "s_state y \<noteq> ND_STATE_VALID"
      using r(2) queue_sub_state [OF 2(1)] assms(3) by auto
    show ?thesis using probe_stale_effect [OF 2(3) y(1)] r(1) y(2) quiet_trans by fastforce
  qed
  then show "quiet s s'" "\<exists>y. h_session s' p = Some y \<and> s_state y \<noteq> ND_STATE_VALID" by auto
qed

lemma close_quiet: "nd_iface_close ip s = Some s' \<Longrightarrow> quiet s s'"
  by (auto simp: nd_iface_close_def Let_def bind_eq_Some_conv quiet_same intro: quiet_snoc split: if_splits)

lemma down_quiet: "ndL_down p s = Some s' \<Longrightarrow> quiet s s'"
  by (auto simp: ndL_down_def nd_rt_remove_route_def bind_eq_Some_conv quiet_same quiet_emit split: if_splits)

lemma update_incomplete_quiet: "update_incomplete p x s = Some s' \<Longrightarrow> quiet s s'"
  unfolding update_incomplete_def Let_def
  by (drule bind_eq_Some_conv [THEN iffD1]) (auto simp: quiet_same dest: send_ns_quiet split: if_splits)

lemma update_stale_quiet: "update_stale p x s = Some s' \<Longrightarrow> quiet s s'"
  unfolding update_stale_def Let_def by (auto simp: quiet_same dest: send_ns_quiet split: if_splits)

lemma update_valid_quiet: "update_valid p x s = Some s' \<Longrightarrow> quiet s s'"
proof (cases "s_iface x")
  case None
  assume u: "update_valid p x s = Some s'"
  show ?thesis
  proof (cases "nd_current_time s - state_time x < nd_conf_valid_ttl s")
    case True
    with u show ?thesis by (simp add: update_valid_def quiet_same)
  next
    case False
    let ?A = "Some (put_session p (x\<lparr>state_time := nd_current_time s\<rparr>) s)"
    let ?B = "Some (put_session p (x\<lparr>s_state := ND_STATE_INVALID, state_time := nd_current_time s\<rparr>) s)"
    obtain still where "(if still then ?A else ?B) = Some s'"
      using u None False unfolding update_valid_def by (auto elim!: bind_eq_Some_conv [THEN iffD1, elim_format])
    then show ?thesis by (auto simp: quiet_same split: if_splits)
  qed
next
  case (Some ip)
  assume "update_valid p x s = Some s'"
  then show ?thesis using Some by (auto simp: update_valid_def Let_def quiet_same dest: send_ns_quiet split: if_splits)
qed

lemma update_invalid_quiet:
  assumes u: "update_invalid p x s = Some s'"
  shows "quiet s s'"
proof (cases "nd_current_time s - state_time x < nd_conf_invalid_ttl s")
  case True
  with u show ?thesis by (simp add: update_invalid_def quiet_same)
next
  case False
  with u obtain s1 s2 where s1: "ndL_down p s = Some s1"
    and s2: "(case s_iface x of None \<Rightarrow> Some s1 | Some ip \<Rightarrow> nd_iface_close ip s1) = Some s2" and s': "s' = unlink_session p x s2"
    by (auto simp: update_invalid_def bind_eq_Some_conv)
  have "quiet s1 s2" using s2 by (auto simp: quiet_same dest: close_quiet split: option.splits)
  moreover have "quiet s2 s'" by (simp add: s' unlink_session_def Let_def quiet_same)
  ultimately show ?thesis using down_quiet [OF s1] quiet_trans by blast
qed

lemma nd_session_update_quiet:
  assumes "nd_session_update p s = Some s'"
  shows "quiet s s'"
proof -
  obtain x where "(case s_state x of ND_STATE_INCOMPLETE \<Rightarrow> update_incomplete p x s | ND_STATE_VALID \<Rightarrow> update_valid p x s
     | ND_STATE_STALE \<Rightarrow> update_stale p x s | ND_STATE_INVALID \<Rightarrow> update_invalid p x s) = Some s'"
    using assms by (auto simp: nd_session_update_def bind_eq_Some_conv)
  then show ?thesis
    by (cases "s_state x") (simp_all add: update_incomplete_quiet update_valid_quiet update_stale_quiet update_invalid_quiet)
qed

subsection \<open>Answers\<close>

text \<open>The advertisement for session \<open>x\<close> to one receiver.\<close>

definition advert :: "nd_iface \<Rightarrow> nd_proxy \<Rightarrow> nd_rule \<Rightarrow> nd_session \<Rightarrow> nd_addr \<Rightarrow> nd_lladdr \<Rightarrow> effect" where
  "advert i px r x dst dst_ll =
     Packet (if_index i) (na_frame (if_lladdr i) dst dst_ll (s_tgt x) (rule_target r) (p_router px))"

lemma send_na_effect:
  assumes "h_iface s ip = Some i"
  shows "nd_iface_send_na (Some ip) dst dst_ll tgt tgt_ll router s =
     Some (s\<lparr>out := out s @ (if if_up i then [Packet (if_index i) (na_frame (if_lladdr i) dst dst_ll tgt tgt_ll router)] else [])\<rparr>)"
  using assms by (simp add: nd_iface_send_na_def ndL_send_icmp6_def emit_def)

lemma send_ns_effect:
  assumes "h_iface s ip = Some i"
  shows "nd_iface_send_ns (Some ip) tgt s =
     Some (s\<lparr>out := out s @ (if if_up i then [Packet (if_index i) (ns_frame (if_lladdr i) tgt)] else [])\<rparr>)"
  using assms by (simp add: nd_iface_send_ns_def ndL_send_icmp6_def emit_def)

lemma notify_effect:
  assumes "h_rule s (s_rule x) = Some r" "h_proxy s (r_proxy r) = Some px" "p_iface px = Some ip" "h_iface s ip = Some i"
  shows "foldM (notify_sub x) us s =
     Some (s\<lparr>out := out s @ (if if_up i then map (\<lambda>u. advert i px r x (sub_addr u) (sub_lladdr u)) us else [])\<rparr>)"
  using assms
proof (induction us arbitrary: s)
  case (Cons u us)
  let ?s = "s\<lparr>out := out s @ (if if_up i then [advert i px r x (sub_addr u) (sub_lladdr u)] else [])\<rparr>"
  have "notify_sub x u s = Some ?s"
    using Cons.prems by (simp add: notify_sub_def send_na_effect advert_def)
  then show ?case using Cons.IH [of ?s] Cons.prems by simp
qed simp

lemma handle_ns_valid:
  assumes "h_session s p = Some x" "s_state x = ND_STATE_VALID" "h_rule s (s_rule x) = Some r" "h_proxy s (r_proxy r) = Some px"
    "p_iface px = Some ip" "h_iface s ip = Some i"
  shows "nd_session_handle_ns k p src src_ll s =
     Some ((put_session p (x\<lparr>ins_time := nd_current_time s\<rparr>) s)
       \<lparr>out := out s @ (if if_up i
                        then [case src_ll of
                                Some ll \<Rightarrow> if nd_addr_is_unspecified src then advert i px r x allnodes allnodes_ll else advert i px r x src ll
                              | None \<Rightarrow> advert i px r x allnodes allnodes_ll]
                        else [])\<rparr>)"
  using assms by (auto simp: nd_session_handle_ns_def answer_ns_def Let_def send_na_effect advert_def split: option.splits)

lemma handle_na_unconfirmed:
  assumes "h_session s p = Some x" "s_state x \<noteq> ND_STATE_VALID" "h_rule s (s_rule x) = Some r" "h_proxy s (r_proxy r) = Some px"
    "p_iface px = Some ip" "h_iface s ip = Some i" "s_iface x = Some jp" "h_iface s jp = Some j"
  defines "wire \<equiv> if_up j \<and> \<not> s_autowired x \<and> r_autowire r"
  defines "s1 \<equiv> s\<lparr>out := out s @ (if if_up i then map (\<lambda>u. advert i px r x (sub_addr u) (sub_lladdr u)) (s_subs x) else [])\<rparr>"
  shows "nd_session_handle_na p s =
     Some (put_session p ((if wire then x\<lparr>s_subs := [], s_autowired := True\<rparr> else x\<lparr>s_subs := []\<rparr>)
                             \<lparr>s_state := ND_STATE_VALID, state_time := nd_current_time s\<rparr>)
             (if wire then nd_rt_add_route (s_tgt x) 128 (if_index j) (r_table r) s1 else s1))"
proof -
  let ?x = "x\<lparr>s_subs := []\<rparr>"
  have up: "ndL_up p (put_session p ?x s1) =
      Some (if wire then put_session p (?x\<lparr>s_autowired := True\<rparr>) (nd_rt_add_route (s_tgt x) 128 (if_index j) (r_table r) (put_session p ?x s1))
            else put_session p ?x s1)"
    using assms(3,7,8) by (simp add: ndL_up_def wire_def s1_def)
  have "foldM (notify_sub x) (s_subs x) s = Some s1" unfolding s1_def by (rule notify_effect [OF assms(3-6)])
  then have "nd_session_handle_na p s = do {
       s3 \<leftarrow> ndL_up p (put_session p ?x s1);
       y \<leftarrow> h_session s3 p;
       Some (put_session p (y\<lparr>s_state := ND_STATE_VALID, state_time := nd_current_time s3\<rparr>) s3) }"
    using assms(1-3) by (simp add: nd_session_handle_na_def Let_def)
  also have "\<dots> = Some (put_session p ((if wire then x\<lparr>s_subs := [], s_autowired := True\<rparr> else x\<lparr>s_subs := []\<rparr>)
                             \<lparr>s_state := ND_STATE_VALID, state_time := nd_current_time s\<rparr>)
             (if wire then nd_rt_add_route (s_tgt x) 128 (if_index j) (r_table r) s1 else s1))"
  proof (cases wire)
    case True
    then have "\<not> s_autowired x" by (simp add: wire_def)
    then show ?thesis
      unfolding up using True
      by (simp add: nd_rt_add_route_def emit_def put_session_def s1_def)
  next
    case False
    then show ?thesis unfolding up using False by (simp add: put_session_def s1_def)
  qed
  finally show ?thesis .
qed
subsection \<open>Giving up\<close>

text \<open>The sweeps of one session at the times \<open>ts\<close>.\<close>

definition ticks :: "ptr \<Rightarrow> int list \<Rightarrow> 'a session_state_scheme \<Rightarrow> 'a session_state_scheme option" where
  "ticks p ts s = foldM (\<lambda>t s. nd_session_update p (s\<lparr>nd_current_time := t\<rparr>)) ts s"

definition probe :: "nd_iface \<Rightarrow> nd_session \<Rightarrow> effect" where
  "probe i x = Packet (if_index i) (ns_frame (if_lladdr i) (s_tgt_r x))"

lemma incomplete_tick:
  assumes "h_session s p = Some x" "s_state x = ND_STATE_INCOMPLETE" "s_iface x = Some ip" "h_iface s ip = Some i" "if_up i"
    "nd_conf_retrans_time s \<le> t - ons_time x"
  shows "nd_session_update p (s\<lparr>nd_current_time := t\<rparr>) =
     Some (if ons_count x < nd_conf_retrans_limit s
           then (put_session p (x\<lparr>ons_count := ons_count x + 1\<rparr>) (s\<lparr>nd_current_time := t\<rparr>))\<lparr>out := out s @ [probe i x]\<rparr>
           else put_session p (x\<lparr>ons_count := ons_count x + 1, s_state := ND_STATE_INVALID, state_time := t\<rparr>)
                  (s\<lparr>nd_current_time := t\<rparr>))"
  using assms
  by (auto simp: nd_session_update_def update_incomplete_def Let_def nd_iface_send_ns_def ndL_send_icmp6_def emit_def
      probe_def put_session_def)

lemma incomplete_ticks:
  assumes "h_session s p = Some x" "s_state x = ND_STATE_INCOMPLETE" "s_iface x = Some ip" "h_iface s ip = Some i" "if_up i"
    "\<forall>t\<in>set ts. nd_conf_retrans_time s \<le> t - ons_time x" "int (length ts) = nd_conf_retrans_limit s - ons_count x + 1" "ts \<noteq> []"
  shows "\<exists>s'. ticks p ts s = Some s' \<and>
     h_session s' p = Some (x\<lparr>ons_count := nd_conf_retrans_limit s + 1, s_state := ND_STATE_INVALID, state_time := last ts\<rparr>) \<and>
     out s' = out s @ replicate (length ts - 1) (probe i x)"
  using assms
proof (induction ts arbitrary: s x)
  case (Cons t ts)
  have due: "nd_conf_retrans_time s \<le> t - ons_time x" using Cons.prems(6) by simp
  note tick = incomplete_tick [OF Cons.prems(1-5) due]
  show ?case
  proof (cases ts)
    case Nil
    then have "ons_count x = nd_conf_retrans_limit s" using Cons.prems(7) by simp
    then show ?thesis using Nil tick by (simp add: ticks_def)
  next
    case (Cons t' ts')
    let ?x = "x\<lparr>ons_count := ons_count x + 1\<rparr>"
    let ?s = "(put_session p ?x (s\<lparr>nd_current_time := t\<rparr>))\<lparr>out := out s @ [probe i x]\<rparr>"
    have lim: "ons_count x < nd_conf_retrans_limit s" using Cons.prems(7) Cons by simp
    have "\<exists>s'. ticks p ts ?s = Some s' \<and>
       h_session s' p = Some (?x\<lparr>ons_count := nd_conf_retrans_limit ?s + 1, s_state := ND_STATE_INVALID, state_time := last ts\<rparr>) \<and>
       out s' = out ?s @ replicate (length ts - 1) (probe i ?x)"
      by (rule Cons.IH) (use Cons.prems Cons in simp_all)
    then show ?thesis using tick lim Cons by (simp add: ticks_def probe_def replicate_app_Cons_same)
  qed
qed simp

lemma expired_deleted:
  assumes "daemon_inv s" "h_session s p = Some x" "s_state x = ND_STATE_INVALID"
    "nd_conf_invalid_ttl s \<le> nd_current_time s - state_time x"
  shows "\<exists>s'. nd_session_update p s = Some s' \<and> daemon_inv s' \<and> session_frame s s' \<and> h_session s' = (h_session s)(p := None)"
proof -
  obtain s' where s': "nd_session_update p s = Some s'" "daemon_inv s'" "session_frame s s'"
    "\<forall>q. q \<noteq> p \<longrightarrow> h_session s' q = h_session s q"
    using nd_session_update_safe [OF assms(1,2)] unfolding session_safe_def by blast
  have "update_invalid p x s = Some s'" using s'(1) assms(2,3) by (simp add: nd_session_update_def)
  then have "h_session s' p = None" using update_invalid_cases [OF _ assms(2)] assms(4) by fastforce
  with s' show ?thesis by (auto simp: fun_eq_iff)
qed

subsection \<open>The pause between probes\<close>

lemma stale_delay_range:
  assumes "0 \<le> rtime"
  shows "rtime \<le> stale_delay count limit rtime" "stale_delay count limit rtime \<le> rtime * 65536"
proof -
  have "(2::int) ^ min (nat (count div 3)) 16 \<le> 2 ^ 16" by (rule power_increasing) simp_all
  then have "rtime * 2 ^ min (nat (count div 3)) 16 \<le> rtime * 65536" using assms by (intro mult_left_mono) simp_all
  moreover have "rtime * 1 \<le> rtime * 2 ^ min (nat (count div 3)) 16" using assms by (intro mult_left_mono) simp_all
  ultimately show "rtime \<le> stale_delay count limit rtime" "stale_delay count limit rtime \<le> rtime * 65536"
    using assms by (simp_all add: stale_delay_def Let_def)
qed

subsection \<open>The table as a map\<close>

text \<open>The session of a target under a proxy.\<close>

definition has_key :: "'a session_state_scheme \<Rightarrow> ptr \<times> nd_addr \<Rightarrow> ptr \<Rightarrow> bool" where
  "has_key s k p \<longleftrightarrow> (\<exists>x. h_session s p = Some x \<and> proxy_of (h_rule s) x = Some (fst k) \<and> s_tgt x = snd k)"

definition session_map :: "'a session_state_scheme \<Rightarrow> ptr \<times> nd_addr \<rightharpoonup> ptr" where
  "session_map s k = (if \<exists>p. has_key s k p then Some (THE p. has_key s k p) else None)"

lemma has_key_unique: "daemon_inv s \<Longrightarrow> has_key s k p \<Longrightarrow> has_key s k q \<Longrightarrow> p = q"
  using session_wfD(3) [OF daemon_invD(1)] unfolding has_key_def unique_targets_def by metis

lemma session_map_iff: "daemon_inv s \<Longrightarrow> session_map s k = Some p \<longleftrightarrow> has_key s k p"
  using has_key_unique [of s k] unfolding session_map_def by (metis option.inject option.distinct(1) the_equality)

lemma session_map_eqI:
  assumes "daemon_inv s" "\<And>k p. has_key s k p \<longleftrightarrow> m k = Some p"
  shows "session_map s = m"
proof
  fix k
  have "session_map s k = Some p \<longleftrightarrow> m k = Some p" for p using session_map_iff [OF assms(1)] assms(2) by blast
  then show "session_map s k = m k" by (metis option.exhaust)
qed

lemma find_is_lookup:
  assumes "daemon_inv s"
  shows "nd_session_find tgt pp s = Some (session_map s (pp, tgt))"
proof -
  obtain r where r: "nd_session_find tgt pp s = Some r"
    "case r of None \<Rightarrow> \<forall>p x. h_session s p = Some x \<longrightarrow> \<not> (proxy_of (h_rule s) x = Some pp \<and> s_tgt x = tgt)
     | Some p \<Rightarrow> \<exists>x. h_session s p = Some x \<and> proxy_of (h_rule s) x = Some pp \<and> s_tgt x = tgt"
    using nd_session_find_spec [OF assms] by blast
  show ?thesis
  proof (cases r)
    case None
    then have "session_map s (pp, tgt) = None" using r(2) by (auto simp: session_map_def has_key_def)
    with None r(1) show ?thesis by simp
  next
    case (Some p)
    then have "has_key s (pp, tgt) p" using r(2) by (simp add: has_key_def)
    then have "session_map s (pp, tgt) = Some p" by (simp add: session_map_iff [OF assms])
    with Some r(1) show ?thesis by simp
  qed
qed

lemma create_is_update:
  fixes s :: "'a session_state_scheme"
  assumes "daemon_inv s" "kernel_ok k" "h_rule s rp = Some r" "session_map s (r_proxy r, tgt) = None"
  shows "\<exists>res s'. nd_session_create k rp tgt s = Some (res, s') \<and> daemon_inv s' \<and>
     (case res of None \<Rightarrow> s' = s \<and> 4096 \<le> card (dom (h_session s))
      | Some p \<Rightarrow> session_map s' = (session_map s)((r_proxy r, tgt) \<mapsto> p))"
proof -
  have new: "\<not> (proxy_of (h_rule s) y = Some (r_proxy r) \<and> s_tgt y = tgt)" if "h_session s p = Some y" for p y
    using assms(4) that by (auto simp: session_map_def has_key_def split: if_splits)
  obtain res s' where c: "nd_session_create k rp tgt s = Some (res, s')" "daemon_inv s'" "session_frame s s'"
    "case res of None \<Rightarrow> s' = s \<and> ND_SESSION_MAX \<le> ndL_session_count s
     | Some p \<Rightarrow> p = heap_next s \<and> h_session s p = None \<and> (\<forall>q. q \<noteq> p \<longrightarrow> h_session s' q = h_session s q) \<and>
                 (\<exists>x. h_session s' p = Some x \<and> s_rule x = rp \<and> s_tgt x = tgt)"
    by (rule nd_session_create_spec [OF assms(1-3), of tgt, THEN exE]) (use new in blast)+
  have rules: "h_rule s' = h_rule s" using c(3) by (simp add: session_frame_def)
  show ?thesis
  proof (cases res)
    case None
    have "ndL_session_count s = int (card (dom (h_session s)))"
      using session_wfD(1) [OF daemon_invD(1) [OF assms(1)]] by (simp add: tables_ok_def)
    with None c show ?thesis by (simp add: ND_SESSION_MAX_def)
  next
    case (Some p)
    have "has_key s' kk q \<longleftrightarrow> ((session_map s)((r_proxy r, tgt) \<mapsto> p)) kk = Some q" for kk q
    proof (cases "kk = (r_proxy r, tgt)")
      case True
      have "has_key s' kk p" using Some c(4) True assms(3) rules by (auto simp: has_key_def proxy_of_def)
      then have "has_key s' kk q \<longleftrightarrow> p = q" using has_key_unique [OF c(2)] by blast
      with True show ?thesis by simp
    next
      case False
      then have "has_key s' kk q \<longleftrightarrow> has_key s kk q"
        using Some c(4) assms(3) rules by (cases kk; cases "q = p") (auto simp: has_key_def proxy_of_def)
      with False show ?thesis by (simp add: session_map_iff [OF assms(1)])
    qed
    then have "session_map s' = (session_map s)((r_proxy r, tgt) \<mapsto> p)" by (rule session_map_eqI [OF c(2)])
    with Some c(1,2) show ?thesis by simp
  qed
qed

lemma delete_is_update:
  assumes "daemon_inv s" "has_key s k p" "daemon_inv s'" "h_rule s' = h_rule s" "h_session s' = (h_session s)(p := None)"
  shows "session_map s' = (session_map s)(k := None)"
proof (rule session_map_eqI [OF assms(3)])
  fix kk q
  have "has_key s' kk q \<longleftrightarrow> has_key s kk q \<and> q \<noteq> p" using assms(4,5) by (auto simp: has_key_def)
  moreover have "has_key s kk p \<longleftrightarrow> kk = k" using assms(2) by (auto simp: has_key_def prod_eq_iff)
  ultimately show "has_key s' kk q \<longleftrightarrow> ((session_map s)(k := None)) kk = Some q"
    using session_map_iff [OF assms(1)] has_key_unique [OF assms(1) assms(2)] by auto
qed

subsection \<open>A sample session\<close>

text \<open>The sample daemon after the first solicitation for 2001:db8::1: probing on \<open>eth1\<close>.\<close>

definition sample_target :: nd_addr where
  "sample_target = Nd_addr 0xb80d0120 0 0 0x01000000"

definition sample_session :: nd_session where
  "sample_session =
    \<lparr>s_rule = 1, s_tgt = sample_target, s_tgt_r = sample_target, ons_count = 1, ons_time = 1000000, ins_time = 0,
     state_time = 1000000, s_state = ND_STATE_INCOMPLETE, s_iface = Some 3, s_subs = [], s_autowired = False\<rparr>"

definition sample_probing :: session_state where
  "sample_probing = snd (the (nd_session_create sample_kernel 1 sample_target sample_daemon))"

lemma sample_combine: "nd_addr_combine host zero_addr sample_target 0 = sample_target"
  by code_simp

lemmas sample_daemon_simps = sample_daemon_def sample_config_def sample_rule_def sample_proxy_def

lemma sample_create: "nd_session_create sample_kernel 1 sample_target sample_daemon = Some (Some 4, sample_probing)"
  "h_session sample_probing = [4 \<mapsto> sample_session]" "h_rule sample_probing = h_rule sample_daemon"
  "h_proxy sample_probing = h_proxy sample_daemon" "nd_current_time sample_probing = 1000000"
  "h_iface sample_probing = [2 \<mapsto> sample_eth0, 3 \<mapsto> sample_eth1\<lparr>if_refcount := 2\<rparr>]"
  "nd_conf_retrans_time sample_probing = 1000" "nd_conf_retrans_limit sample_probing = 3"
  "nd_conf_invalid_ttl sample_probing = 10000" "nd_conf_valid_ttl sample_probing = 30000" "nd_conf_stale_ttl sample_probing = 30000"
  by (simp_all add: sample_probing_def nd_session_create_def sample_daemon_simps ND_SESSION_MAX_def Let_def link_session_def
      init_session_def nd_rt_is_local_addr_def iface_ref_def start_probing_def put_session_def nd_iface_send_ns_def
      ndL_send_icmp6_def emit_def sample_combine sample_session_def sample_eth1_def)

lemma sample_rules: "h_rule sample_probing 1 = Some (sample_rule\<lparr>r_iface := Some 3\<rparr>)"
  "h_proxy sample_probing 0 = Some (sample_proxy\<lparr>p_iface := Some 2\<rparr>)" "s_rule sample_session = 1" "s_tgt sample_session = sample_target"
  by (simp_all add: sample_create sample_daemon_simps sample_session_def)

lemma sample_probing_inv: "daemon_inv sample_probing"
proof -
  have inv: "daemon_inv sample_daemon" using sample_daemon_inv by (simp add: running_inv_def)
  have rule: "h_rule sample_daemon 1 = Some (sample_rule\<lparr>r_iface := Some 3\<rparr>)" by (simp add: sample_daemon_simps)
  have "h_session sample_daemon = Map.empty" by (simp add: sample_daemon_simps)
  then show ?thesis using nd_session_create_spec [OF inv sample_kernel_ok rule, of sample_target] sample_create(1) by auto
qed

text \<open>The same session in another state, entered at another time, with one neighbour waiting.\<close>

definition sample_sub :: nd_sub where
  "sample_sub = \<lparr>sub_addr = Nd_addr 0x80fe 0 0 0x05000000, sub_lladdr = Nd_lladdr 2 0 0 0 0 5\<rparr>"

definition sample_as :: "nd_state \<Rightarrow> int \<Rightarrow> session_state" where
  "sample_as st t = put_session 4 (sample_session\<lparr>s_state := st, state_time := t, s_subs := [sample_sub]\<rparr>) sample_probing"

lemma sample_as_inv: "daemon_inv (sample_as st t)"
  unfolding sample_as_def
  by (rule daemon_inv_put [OF sample_probing_inv, of _ sample_session])
    (simp_all add: sample_create(2) same_links_def session_ok_def sample_rules [unfolded One_nat_def] sample_session_def
      sample_rule_def sample_combine ND_SESSION_MAX_SUBS_def)

subsection \<open>Properties\<close>

text \<open>
  The sweep of all sessions leaves no session beyond its time: afterwards every VALID, STALE and INVALID session has been in its
  state for less than the configured time to live.
\<close>

theorem sweep_fresh:
  assumes "daemon_inv s" "0 < nd_conf_valid_ttl s" "0 < nd_conf_stale_ttl s" "0 < nd_conf_invalid_ttl s"
  shows "\<exists>s'. nd_session_update_all s = Some s' \<and> daemon_inv s' \<and> nd_current_time s' = nd_current_time s \<and>
     (\<forall>p y. h_session s' p = Some y \<longrightarrow> in_time s' y)"
proof -
  obtain s' where s': "nd_session_update_all s = Some s'" "daemon_inv s'" "session_frame s s'"
    using nd_session_update_all_safe [OF assms(1)] by blast
  moreover have "in_time s' y" if "h_session s' p = Some y" for p y
    using update_all_in_time [OF assms(1) _ s'(1) that] assms by (simp add: ttls_positive_def)
  ultimately show ?thesis by (auto simp: session_frame_def)
qed

theorem sweep_fresh_witness:
  "\<exists>s'. nd_session_update_all (sample_as ND_STATE_VALID 900000) = Some s' \<and> daemon_inv s' \<and>
     nd_current_time s' = nd_current_time (sample_as ND_STATE_VALID 900000) \<and>
     (\<nexists>p y. h_session s' p = Some y \<and> \<not> in_time s' y)"
  using sweep_fresh [OF sample_as_inv, of ND_STATE_VALID 900000] by (auto simp: sample_as_def sample_create)

text \<open>
  C24: only a neighbour advertisement confirms a target.  On a session that is not VALID, neither the timer nor a
  solicitation sends a neighbour advertisement, and the session does not become VALID: the proxy never claims a target it has not
  heard from.
\<close>

theorem unconfirmed_not_advertised:
  assumes "daemon_inv s" "kernel_ok k" "h_session s p = Some x" "s_state x \<noteq> ND_STATE_VALID"
  shows "(\<exists>s'. nd_session_update p s = Some s' \<and> quiet s s' \<and> (\<forall>y. h_session s' p = Some y \<longrightarrow> s_state y \<noteq> ND_STATE_VALID)) \<and>
    (\<exists>s' y. nd_session_handle_ns k p src src_ll s = Some s' \<and> quiet s s' \<and> h_session s' p = Some y \<and> s_state y \<noteq> ND_STATE_VALID)"
proof
  obtain s' where s': "nd_session_update p s = Some s'"
    using nd_session_update_safe [OF assms(1,3)] by (auto simp: session_safe_def)
  have "s_state y \<noteq> ND_STATE_VALID" if "h_session s' p = Some y" for y
    using s' that assms(3,4) update_incomplete_cases [of p x s s'] update_stale_cases [of p x s s'] update_invalid_cases [of p x s s']
    by (cases "s_state x") (fastforce simp: nd_session_update_def)+
  with s' nd_session_update_quiet [OF s'] show
    "\<exists>s'. nd_session_update p s = Some s' \<and> quiet s s' \<and> (\<forall>y. h_session s' p = Some y \<longrightarrow> s_state y \<noteq> ND_STATE_VALID)" by blast
  obtain u where u: "nd_session_handle_ns k p src src_ll s = Some u"
    using nd_session_handle_ns_op [OF assms(1-3), of src src_ll] by (auto simp: session_op_def)
  with handle_ns_effect [OF u assms(3,4)] show
    "\<exists>s' y. nd_session_handle_ns k p src src_ll s = Some s' \<and> quiet s s' \<and> h_session s' p = Some y \<and> s_state y \<noteq> ND_STATE_VALID"
    by blast
qed

theorem unconfirmed_not_advertised_witness:
  "\<exists>s' y. nd_session_handle_ns sample_kernel 4 (sub_addr sample_sub) (Some (sub_lladdr sample_sub)) sample_probing = Some s' \<and>
     quiet sample_probing s' \<and> h_session s' 4 = Some y \<and> s_state y \<noteq> ND_STATE_VALID"
  using unconfirmed_not_advertised [OF sample_probing_inv sample_kernel_ok, of 4 sample_session "sub_addr sample_sub"
      "Some (sub_lladdr sample_sub)"]
  by (simp add: sample_create(2)) (simp add: sample_session_def)

text \<open>
  C26: a solicitation for a VALID session is answered at once with exactly one neighbour advertisement on the proxy's interface: to
  the sender when it gave its address and link-layer address, to all nodes otherwise.  Nothing else changes but the time of the last
  solicitation.
\<close>

theorem valid_answers:
  assumes "h_session s p = Some x" "s_state x = ND_STATE_VALID" "h_rule s (s_rule x) = Some r" "h_proxy s (r_proxy r) = Some px"
    "p_iface px = Some ip" "h_iface s ip = Some i" "if_up i"
  shows "nd_session_handle_ns k p src src_ll s =
     Some ((put_session p (x\<lparr>ins_time := nd_current_time s\<rparr>) s)
       \<lparr>out := out s @ [Packet (if_index i) (case src_ll of
            Some ll \<Rightarrow> if nd_addr_is_unspecified src
                       then na_frame (if_lladdr i) allnodes allnodes_ll (s_tgt x) (rule_target r) (p_router px)
                       else na_frame (if_lladdr i) src ll (s_tgt x) (rule_target r) (p_router px)
          | None \<Rightarrow> na_frame (if_lladdr i) allnodes allnodes_ll (s_tgt x) (rule_target r) (p_router px))]\<rparr>)"
  using handle_ns_valid [OF assms(1-6), of k src src_ll] assms(7) by (simp add: advert_def split: option.split)

theorem valid_answers_witness:
  "\<exists>s'. nd_session_handle_ns sample_kernel 4 zero_addr (Some (sub_lladdr sample_sub)) (sample_as ND_STATE_VALID 990000) = Some s' \<and>
     out s' = out sample_probing @
       [Packet 2 (na_frame (Nd_lladdr 2 0 0 0 0 1) allnodes allnodes_ll sample_target None False)]"
proof -
  have "nd_addr_is_unspecified zero_addr" by code_simp
  then show ?thesis
    using valid_answers [of "sample_as ND_STATE_VALID 990000" 4 "sample_session\<lparr>s_state := ND_STATE_VALID, state_time := 990000, s_subs := [sample_sub]\<rparr>"
        "sample_rule\<lparr>r_iface := Some 3\<rparr>" "sample_proxy\<lparr>p_iface := Some 2\<rparr>" 2 sample_eth0 sample_kernel zero_addr "Some (sub_lladdr sample_sub)"]
    by (simp add: sample_as_def sample_rules [unfolded One_nat_def] sample_create(6) sample_rule_def sample_proxy_def sample_eth0_def
        rule_target_def nd_lladdr_is_unspecified_def zero_lladdr_def)
qed

text \<open>The request that installs the route to one address.\<close>

definition host_route :: "nd_addr \<Rightarrow> nat \<Rightarrow> nat \<Rightarrow> effect" where
  "host_route tgt oif table =
     RouteReq \<lparr>nlmsg_type = 24, nlmsg_flags = 0x401, rtm_protocol = RTPROT_NDPPD, rtm_family = 10, rtm_dst_len = 128,
               rtm_table = table mod 256, rtm_scope = 0, rta_oif = Some oif, rta_dst = tgt\<rparr>"

text \<open>
  C25: an advertisement for a session that is not VALID answers every waiting subscriber, in the order of the queue, with one
  neighbour advertisement each on the proxy's interface, empties the queue, makes the session VALID now and, for a rule with
  autowire whose interface is up, installs the host route once.
\<close>

theorem advertisement_answers_subscribers:
  assumes "h_session s p = Some x" "s_state x \<noteq> ND_STATE_VALID" "h_rule s (s_rule x) = Some r" "h_proxy s (r_proxy r) = Some px"
    "p_iface px = Some ip" "h_iface s ip = Some i" "if_up i" "s_iface x = Some jp" "h_iface s jp = Some j"
  shows "\<exists>s' y. nd_session_handle_na p s = Some s' \<and> h_session s' = (h_session s)(p \<mapsto> y) \<and>
     s_state y = ND_STATE_VALID \<and> state_time y = nd_current_time s \<and> s_subs y = [] \<and>
     out s' = out s @
       map (\<lambda>u. Packet (if_index i) (na_frame (if_lladdr i) (sub_addr u) (sub_lladdr u) (s_tgt x) (rule_target r) (p_router px))) (s_subs x) @
       (if if_up j \<and> \<not> s_autowired x \<and> r_autowire r
        then [host_route (s_tgt x) (if_index j) (r_table r)] else [])"
proof -
  let ?y = "x\<lparr>s_subs := [], s_autowired := s_autowired x \<or> if_up j \<and> r_autowire r, s_state := ND_STATE_VALID, state_time := nd_current_time s\<rparr>"
  have "\<exists>s'. nd_session_handle_na p s = Some s' \<and> h_session s' = (h_session s)(p \<mapsto> ?y) \<and>
     out s' = out s @
       map (\<lambda>u. Packet (if_index i) (na_frame (if_lladdr i) (sub_addr u) (sub_lladdr u) (s_tgt x) (rule_target r) (p_router px))) (s_subs x) @
       (if if_up j \<and> \<not> s_autowired x \<and> r_autowire r then [host_route (s_tgt x) (if_index j) (r_table r)] else [])"
    using handle_na_unconfirmed [OF assms(1-6,8,9)] assms(7)
    by (auto simp: nd_rt_add_route_def emit_def advert_def host_route_def)
  then show ?thesis by (elim exE conjE) (intro exI [of _ ?y] exI conjI, simp_all)
qed

theorem advertisement_answers_subscribers_witness:
  "\<exists>s' y. nd_session_handle_na 4 (sample_as ND_STATE_INCOMPLETE 999000) = Some s' \<and>
     h_session s' = [4 \<mapsto> y] \<and> s_state y = ND_STATE_VALID \<and> s_subs y = [] \<and>
     out s' = out sample_probing @
       [Packet 2 (na_frame (Nd_lladdr 2 0 0 0 0 1) (sub_addr sample_sub) (sub_lladdr sample_sub) sample_target None False),
        host_route sample_target 3 254]"
  using advertisement_answers_subscribers [of "sample_as ND_STATE_INCOMPLETE 999000" 4
      "sample_session\<lparr>state_time := 999000, s_subs := [sample_sub]\<rparr>"
      "sample_rule\<lparr>r_iface := Some 3\<rparr>" "sample_proxy\<lparr>p_iface := Some 2\<rparr>" 2 sample_eth0 3 "sample_eth1\<lparr>if_refcount := 2\<rparr>"]
  by (simp add: sample_as_def sample_rules [unfolded One_nat_def] sample_create(2,6) sample_rule_def sample_proxy_def sample_eth0_def
      sample_eth1_def sample_session_def rule_target_def nd_lladdr_is_unspecified_def zero_lladdr_def) blast



text \<open>
  An INVALID session past its time to live is deleted by its timer, and nothing else is: the table, as a map from proxy and
  target to session, loses exactly that key, the count goes down by one and the invariant holds.
\<close>

theorem expired_session_deleted:
  assumes "daemon_inv s" "h_session s p = Some x" "s_state x = ND_STATE_INVALID"
    "nd_conf_invalid_ttl s \<le> nd_current_time s - state_time x" "h_rule s (s_rule x) = Some r"
  shows "\<exists>s'. nd_session_update p s = Some s' \<and> daemon_inv s' \<and> h_session s' = (h_session s)(p := None) \<and>
     session_map s' = (session_map s)((r_proxy r, s_tgt x) := None) \<and> ndL_session_count s' = ndL_session_count s - 1"
proof -
  obtain s' where s': "nd_session_update p s = Some s'" "daemon_inv s'" "session_frame s s'" "h_session s' = (h_session s)(p := None)"
    using expired_deleted [OF assms(1-4)] by blast
  have count: "ndL_session_count u = int (card (dom (h_session u))) \<and> finite (dom (h_session u))" if "daemon_inv u" for u :: "'a session_state_scheme"
    using session_wfD(1,5) [OF daemon_invD(1) [OF that]] by (simp add: tables_ok_def)
  have "p \<in> dom (h_session s)" using assms(2) by blast
  then have "ndL_session_count s' = ndL_session_count s - 1"
    using count [OF s'(2)] count [OF assms(1)] s'(4) by (cases "card (dom (h_session s))") (auto simp: card_gt_0_iff)
  moreover have "has_key s (r_proxy r, s_tgt x) p" using assms(2,5) by (simp add: has_key_def proxy_of_def)
  then have "session_map s' = (session_map s)((r_proxy r, s_tgt x) := None)"
    using delete_is_update [OF assms(1) _ s'(2)] s'(3,4) by (simp add: session_frame_def)
  ultimately show ?thesis using s' by blast
qed

theorem expired_session_deleted_witness:
  "\<exists>s'. nd_session_update 4 (sample_as ND_STATE_INVALID 990000) = Some s' \<and> daemon_inv s' \<and> h_session s' = Map.empty \<and>
     ndL_session_count s' = ndL_session_count (sample_as ND_STATE_INVALID 990000) - 1"
  using expired_session_deleted [OF sample_as_inv [of ND_STATE_INVALID 990000], of 4
      "sample_session\<lparr>s_state := ND_STATE_INVALID, state_time := 990000, s_subs := [sample_sub]\<rparr>" "sample_rule\<lparr>r_iface := Some 3\<rparr>"]
  by (auto simp: sample_as_def sample_create(2,5,9) sample_rules [unfolded One_nat_def])
text \<open>
  The pause between two probes of a STALE session is never shorter than \<open>nd_conf_retrans_time\<close>, never longer than 65536
  times it, and fits in 32 bits without wrapping around for every interval up to a minute.
\<close>

theorem stale_delay_bounds:
  assumes "0 \<le> rtime" "rtime \<le> 60000"
  shows "rtime \<le> stale_delay count limit rtime \<and> stale_delay count limit rtime \<le> rtime * 65536 \<and>
    stale_delay count limit rtime < 2 ^ 32"
  using stale_delay_range [OF assms(1), of count limit] assms(2) by simp

theorem stale_delay_bounds_witness: "1000 \<le> stale_delay 6 3 1000 \<and> stale_delay 6 3 1000 = 4000"
  using stale_delay_bounds [of 1000 6 3] by (simp add: stale_delay_def Let_def)

text \<open>
  C27: the two hash tables with their chains implement a map from proxy and target to session.  \<open>nd_session_find\<close> is its
  lookup, whatever the seed of the hash; \<open>nd_session_create\<close> for a key that is not there adds exactly that key, or changes
  nothing when 4096 sessions exist.
\<close>

theorem session_table_refines_map:
  assumes "daemon_inv s" "kernel_ok k" "h_rule s rp = Some r"
  shows "nd_session_find tgt (r_proxy r) s = Some (session_map s (r_proxy r, tgt)) \<and>
    (session_map s (r_proxy r, tgt) = None \<longrightarrow>
       (\<exists>res s'. nd_session_create k rp tgt s = Some (res, s') \<and> daemon_inv s' \<and>
          (case res of None \<Rightarrow> s' = s \<and> 4096 \<le> card (dom (h_session s))
           | Some p \<Rightarrow> session_map s' = (session_map s)((r_proxy r, tgt) \<mapsto> p))))"
  using find_is_lookup [OF assms(1)] create_is_update [OF assms] by blast

theorem session_table_refines_map_witness:
  "nd_session_find sample_target 0 sample_probing = Some (session_map sample_probing (0, sample_target)) \<and>
     session_map sample_probing (0, sample_target) = Some 4"
proof -
  have "has_key sample_probing (0, sample_target) 4"
    by (simp add: has_key_def proxy_of_def sample_create(2) sample_rules [unfolded One_nat_def] sample_rule_def)
  moreover have "r_proxy (sample_rule\<lparr>r_iface := Some 3\<rparr>) = 0" by (simp add: sample_rule_def)
  ultimately show ?thesis
    using session_table_refines_map [OF sample_probing_inv sample_kernel_ok sample_rules(1), of sample_target]
    by (simp add: session_map_iff [OF sample_probing_inv])
qed

end
