(* ===== verification/Proxying.thy ===== *)
theory Proxying
  imports Session_Life Packet
begin

text \<open>
  A solicitation and the advertisement that answers it, from frame to frame: what the daemon sends when a neighbour on
  the interface of a proxy asks for a new target, and what it sends when the target answers on the interface of the rule.
\<close>

definition receiver :: "nat \<Rightarrow> 'a iface_state_scheme \<Rightarrow> ptr option option" where
  "receiver idx s = heap_find (h_iface s) (\<lambda>i. if_up i \<and> if_index i = idx) (ndL_first_iface s)"

definition first_rule :: "ptr \<Rightarrow> nd_addr \<Rightarrow> 'a session_state_scheme \<Rightarrow> ptr option option" where
  "first_rule pp tgt s = do {
     px \<leftarrow> h_proxy s pp;
     heap_find (h_rule s) (\<lambda>r. nd_addr_match host (r_addr r) tgt (r_prefix r)) (p_rules px)
   }"

text \<open>The frames that ask for a target with a source link-layer address, and the ones that advertise it.\<close>

definition solicits :: "bytes \<Rightarrow> nd_addr \<Rightarrow> nd_lladdr \<Rightarrow> nd_addr \<Rightarrow> bool" where
  "solicits f src ll tgt \<longleftrightarrow>
     (\<exists>i len dst. accept_frame f \<and> check_msg f = Some (Icmp i len) \<and> f ! (54 + i) = 135 \<and>
        parse_ns f i len = Some (Some (src, dst, tgt, Some ll)))"

definition advertises :: "bytes \<Rightarrow> nd_addr \<Rightarrow> bool" where
  "advertises f tgt \<longleftrightarrow>
     (\<exists>i len. accept_frame f \<and> check_msg f = Some (Icmp i len) \<and> f ! (54 + i) = 136 \<and> parse_na f i len = Some (Some tgt))"

lemma handler_nil [simp]: "ndL_io_handler [] = Some"
  by (simp add: fun_eq_iff)

lemma handler_solicits:
  assumes "solicits f src ll tgt" "receiver idx s = Some (Some ip)" "h_iface s ip = Some i" "if_proxy i = Some pp"
  shows "\<exists>dst. ndL_io_handler [(k, idx, f)] s = nd_proxy_handle_ns k pp src dst tgt (Some ll) s"
proof -
  obtain off len dst where f: "accept_frame f" "check_msg f = Some (Icmp off len)" "f ! (54 + off) = 135"
    "parse_ns f off len = Some (Some (src, dst, tgt, Some ll))" using assms(1) by (auto simp: solicits_def)
  have "54 + off + len = length f" "8 \<le> len" using check_msg_cases [OF f(1)] f(2) by auto
  then have "54 + off < length f" by simp
  then show ?thesis using f assms(2-4)
    by (auto simp del: ndL_io_handler.simps(1) simp: receiver_def ndL_handle_msg_def ndL_handle_ns_def intro!: exI [of _ dst])
qed

lemma handler_advertises:
  assumes "advertises f tgt" "receiver idx s = Some (Some ip)"
  shows "ndL_io_handler [(k, idx, f)] s =
     do { found \<leftarrow> nd_session_find_r tgt ip s; case found of None \<Rightarrow> Some s | Some p \<Rightarrow> nd_session_handle_na p s }"
proof -
  obtain off len where f: "accept_frame f" "check_msg f = Some (Icmp off len)" "f ! (54 + off) = 136"
    "parse_na f off len = Some (Some tgt)" using assms(1) by (auto simp: advertises_def)
  have "54 + off + len = length f" "8 \<le> len" using check_msg_cases [OF f(1)] f(2) by auto
  then have "54 + off < length f" by simp
  moreover from this have "f \<noteq> []" by auto
  ultimately show ?thesis using f assms(2) by (simp add: receiver_def ndL_handle_msg_def ndL_handle_na_def)
qed

lemma own_frames:
  assumes "\<not> nd_addr_is_multicast LittleEndian tgt"
  shows "solicits (ns_frame own tgt) (ndL_get_local_addr own) own tgt"
    "advertises (na_frame own dst dst_ll tgt tgt_ll router) tgt"
proof -
  have "accept_frame (ns_frame own tgt)" "check_msg (ns_frame own tgt) = Some (Icmp 0 32)"
    "accept_frame (na_frame own dst dst_ll tgt tgt_ll router)" "check_msg (na_frame own dst dst_ll tgt tgt_ll router) = Some (Icmp 0 32)"
    by (simp_all add: ns_frame_def na_frame_def Let_def icmp6_frame_accepted icmp6_frame_checked)
  then show "solicits (ns_frame own tgt) (ndL_get_local_addr own) own tgt" "advertises (na_frame own dst dst_ll tgt tgt_ll router) tgt"
    using ns_frame_parsed [OF assms, of own] na_frame_parsed [of own dst dst_ll tgt tgt_ll router]
    by (simp_all add: solicits_def advertises_def)
qed

subsection \<open>Asking for a new target\<close>

definition asked :: "ptr \<Rightarrow> nd_rule \<Rightarrow> ptr \<Rightarrow> nd_addr \<Rightarrow> nd_lladdr \<Rightarrow> nd_addr \<Rightarrow> int \<Rightarrow> nd_session" where
  "asked rp r jp src ll tgt now =
    \<lparr>s_rule = rp, s_tgt = tgt, s_tgt_r = nd_addr_combine host (r_rewrite_tgt r) tgt (r_rewrite_pflen r), ons_count = 1,
     ons_time = now, ins_time = now, state_time = now, s_state = ND_STATE_INCOMPLETE, s_iface = Some jp,
     s_subs = [\<lparr>sub_addr = src, sub_lladdr = ll\<rparr>], s_autowired = False\<rparr>"

definition after_asking ::
  "ptr \<Rightarrow> nd_rule \<Rightarrow> ptr \<Rightarrow> nd_iface \<Rightarrow> nd_addr \<Rightarrow> nd_lladdr \<Rightarrow> nd_addr \<Rightarrow> 'a session_state_scheme \<Rightarrow> 'a session_state_scheme" where
  "after_asking rp r jp j src ll tgt s =
     (let x = asked rp r jp src ll tgt (nd_current_time s)
      in (link_session (heap_next s) x s)
           \<lparr>h_iface := (h_iface s)(jp \<mapsto> j\<lparr>if_refcount := if_refcount j + 1\<rparr>),
            out := out s @ (if if_up j then [Packet (if_index j) (ns_frame (if_lladdr j) (s_tgt_r x))] else [])\<rparr>)"

lemma proxy_asks:
  assumes "daemon_inv s" "first_rule pp tgt s = Some (Some rp)" "session_map s (pp, tgt) = None" "h_rule s rp = Some r"
    "r_mode r = ND_MODE_IFACE" "r_iface r = Some jp" "h_iface s jp = Some j" "ndL_session_count s < 4096"
    "\<not> (if_up j \<and> nd_rt_is_local_addr (if_index j) (nd_addr_combine host (r_rewrite_tgt r) tgt (r_rewrite_pflen r)) s)"
  shows "nd_proxy_handle_ns k pp src dst tgt (Some ll) s = Some (after_asking rp r jp j src ll tgt s)"
proof -
  obtain px where px: "h_proxy s pp = Some px"
    "heap_find (h_rule s) (\<lambda>r. nd_addr_match host (r_addr r) tgt (r_prefix r)) (p_rules px) = Some (Some rp)"
    using assms(2) by (auto simp: first_rule_def bind_eq_Some_conv)
  let ?p = "heap_next s"
  let ?x = "asked rp r jp src ll tgt (nd_current_time s)"
  have found: "nd_session_find tgt pp s = Some None" using find_is_lookup [OF assms(1)] assms(3) by simp
  have new: "nd_session_create k rp tgt s =
     Some (Some ?p, put_session ?p (?x\<lparr>ins_time := 0, s_subs := []\<rparr>) (after_asking rp r jp j src ll tgt s))"
    using assms(4-9)
    by (auto simp: nd_session_create_def ND_SESSION_MAX_def init_session_def iface_ref_def link_session_def Let_def
        start_probing_def send_ns_effect put_session_def after_asking_def asked_def nd_rt_is_local_addr_def)
  have "nd_session_handle_ns k ?p src (Some ll) (put_session ?p (?x\<lparr>ins_time := 0, s_subs := []\<rparr>) (after_asking rp r jp j src ll tgt s)) =
     Some (after_asking rp r jp j src ll tgt s)"
    by (simp add: nd_session_handle_ns_def queue_sub_def ND_SESSION_MAX_SUBS_def retry_route_def probe_stale_def Let_def
        put_session_def after_asking_def asked_def link_session_def)
  with found new px show ?thesis by (simp add: nd_proxy_handle_ns_def)
qed

subsection \<open>Answering\<close>

lemma receiver_after_asking:
  assumes "h_iface s jp = Some j"
  shows "receiver idx (after_asking rp r jp j src ll tgt s) = receiver idx s"
proof -
  have "heap_find ((h_iface s)(jp \<mapsto> j\<lparr>if_refcount := c\<rparr>)) (\<lambda>i. if_up i \<and> if_index i = idx) ps =
        heap_find (h_iface s) (\<lambda>i. if_up i \<and> if_index i = idx) ps" for c ps
    by (induction ps) (use assms in \<open>auto split: Option.bind_splits\<close>)
  then show ?thesis by (simp add: receiver_def after_asking_def link_session_def Let_def)
qed

lemma find_asked:
  assumes "daemon_inv s"
  shows "nd_session_find_r (nd_addr_combine host (r_rewrite_tgt r) tgt (r_rewrite_pflen r)) jp (after_asking rp r jp j src ll tgt s) =
    Some (Some (heap_next s))"
proof -
  let ?t = "nd_addr_combine host (r_rewrite_tgt r) tgt (r_rewrite_pflen r)"
  have "length (ndL_sessions_r s) = NDPPD_SESSION_BUCKETS"
    using session_wfD(1) [OF daemon_invD(1) [OF assms]] by (auto simp: tables_ok_def dest: index_okD(1))
  then have "NDL_BUCKET (ndL_hash_seed s) ?t < length (ndL_sessions_r s)" by (simp add: buckets.bkt_less)
  then show ?thesis
    by (simp add: nd_session_find_r_def after_asking_def link_session_def asked_def Let_def nd_addr_eq_def)
qed

lemma proxy_answers:
  fixes s :: "'a session_state_scheme" and src tgt :: nd_addr and ll :: nd_lladdr
  assumes "daemon_inv s" "h_rule s rp = Some r" "h_proxy s (r_proxy r) = Some px" "p_iface px = Some ip" "h_iface s ip = Some i"
    "if_up i" "h_iface s jp = Some j" "if_up j"
  defines "s1 \<equiv> after_asking rp r jp j src ll tgt s"
  shows "\<exists>s2 y. nd_session_handle_na (heap_next s) s1 = Some s2 \<and>
     out s2 = out s1 @ Packet (if_index i) (na_frame (if_lladdr i) src ll tgt (rule_target r) (p_router px)) #
       (if r_autowire r then [host_route tgt (if_index j) (r_table r)] else []) \<and>
     h_session s2 = (h_session s)(heap_next s \<mapsto> y) \<and> s_state y = ND_STATE_VALID \<and> s_subs y = [] \<and> s_tgt y = tgt"
proof -
  let ?x = "asked rp r jp src ll tgt (nd_current_time s)"
  have sel: "h_session s1 = (h_session s)(heap_next s \<mapsto> ?x)" "h_rule s1 = h_rule s" "h_proxy s1 = h_proxy s"
    "h_iface s1 = (h_iface s)(jp \<mapsto> j\<lparr>if_refcount := if_refcount j + 1\<rparr>)" "nd_current_time s1 = nd_current_time s"
    by (simp_all add: s1_def after_asking_def link_session_def Let_def)
  obtain i' where i': "h_iface s1 ip = Some i'" "if_up i'" "if_index i' = if_index i" "if_lladdr i' = if_lladdr i"
    using sel(4) assms(5-7) by (cases "ip = jp") auto
  let ?y = "?x\<lparr>s_subs := [], s_autowired := r_autowire r, s_state := ND_STATE_VALID\<rparr>"
  have "\<exists>s2. nd_session_handle_na (heap_next s) s1 = Some s2 \<and>
     out s2 = out s1 @ Packet (if_index i) (na_frame (if_lladdr i) src ll tgt (rule_target r) (p_router px)) #
       (if r_autowire r then [host_route tgt (if_index j) (r_table r)] else []) \<and>
     h_session s2 = (h_session s)(heap_next s \<mapsto> ?y)"
    using handle_na_unconfirmed [of s1 "heap_next s" ?x r px ip i' jp "j\<lparr>if_refcount := if_refcount j + 1\<rparr>"] i' sel assms(2-4,8)
    by (auto simp: asked_def advert_def nd_rt_add_route_def emit_def host_route_def)
  then obtain s2 where "nd_session_handle_na (heap_next s) s1 = Some s2"
     "out s2 = out s1 @ Packet (if_index i) (na_frame (if_lladdr i) src ll tgt (rule_target r) (p_router px)) #
       (if r_autowire r then [host_route tgt (if_index j) (r_table r)] else [])"
     "h_session s2 = (h_session s)(heap_next s \<mapsto> ?y)" by blast
  then show ?thesis by (intro exI [of _ s2] exI [of _ ?y]) (simp add: asked_def)
qed

subsection \<open>One advertisement, one session\<close>

definition same_tables :: "'a session_state_scheme \<Rightarrow> 'a session_state_scheme \<Rightarrow> bool" where
  "same_tables s s' \<longleftrightarrow>
     h_iface s' = h_iface s \<and> ndL_first_iface s' = ndL_first_iface s \<and> ndL_sessions_r s' = ndL_sessions_r s \<and>
     ndL_hash_seed s' = ndL_hash_seed s"

lemma handle_na_changes:
  assumes "nd_session_handle_na p s = Some s'" "h_session s p = Some x"
  shows "same_tables s s' \<and> (\<forall>q. q \<noteq> p \<longrightarrow> h_session s' q = h_session s q) \<and>
    (\<exists>y. h_session s' p = Some y \<and> s_iface y = s_iface x \<and> s_tgt_r y = s_tgt_r x)"
proof (cases "s_state x = ND_STATE_VALID")
  case True
  then show ?thesis using assms by (auto simp: nd_session_handle_na_def same_tables_def)
next
  case False
  obtain s1 where s1: "foldM (notify_sub x) (s_subs x) s = Some s1"
    and rest: "do { s3 \<leftarrow> ndL_up p (put_session p (x\<lparr>s_subs := []\<rparr>) s1); y \<leftarrow> h_session s3 p;
             Some (put_session p (y\<lparr>s_state := ND_STATE_VALID, state_time := nd_current_time s3\<rparr>) s3) } = Some s'"
    using assms False by (auto simp: nd_session_handle_na_def bind_eq_Some_conv Let_def)
  obtain l where "s1 = s\<lparr>out := l\<rparr>" using notify_out [OF s1] by blast
  with rest show ?thesis
    by (auto simp: ndL_up_def bind_eq_Some_conv same_tables_def nd_rt_add_route_def emit_def put_session_def
        split: option.splits if_splits)
qed

lemma find_r_same:
  assumes "same_tables s s'" "\<And>q. q \<noteq> p \<Longrightarrow> h_session s' q = h_session s q" "h_session s' p = Some y" "h_session s p = Some x" "s_iface y = s_iface x" "s_tgt_r y = s_tgt_r x"
  shows "nd_session_find_r tgt ip s' = nd_session_find_r tgt ip s"
proof -
  let ?P = "\<lambda>x. s_iface x = Some ip \<and> nd_addr_eq (s_tgt_r x) tgt"
  have "heap_find (h_session s') ?P ps = heap_find (h_session s) ?P ps" for ps
  proof (induction ps)
    case (Cons q ps)
    then show ?case using assms(2-6) by (cases "q = p"; cases "h_session s q") simp_all
  qed simp
  then show ?thesis using assms(1) by (simp add: nd_session_find_r_def same_tables_def)
qed

lemma adverts_reach_one:
  assumes "daemon_inv s" "advertises g tgt" "receiver idx s = Some (Some ip)" "nd_session_find_r tgt ip s = Some (Some p)"
  shows "\<exists>s'. ndL_io_handler (replicate n (k, idx, g)) s = Some s' \<and> (\<forall>q. q \<noteq> p \<longrightarrow> h_session s' q = h_session s q)"
  using assms
proof (induction n arbitrary: s)
  case (Suc n)
  obtain x where x: "h_session s p = Some x" using Suc.prems(4) heap_find_SomeD unfolding nd_session_find_r_def by metis
  obtain s1 where s1: "nd_session_handle_na p s = Some s1" "daemon_inv s1"
    using nd_session_handle_na_op [OF Suc.prems(1) x] by (auto simp: session_op_def)
  obtain y where y: "same_tables s s1" "\<And>q. q \<noteq> p \<Longrightarrow> h_session s1 q = h_session s q" "h_session s1 p = Some y" "s_iface y = s_iface x" "s_tgt_r y = s_tgt_r x"
    using handle_na_changes [OF s1(1) x] by blast
  have "receiver idx s1 = Some (Some ip)" using Suc.prems(3) y(1) by (simp add: receiver_def same_tables_def)
  moreover have "nd_session_find_r tgt ip s1 = Some (Some p)" using find_r_same [OF y(1-3) x y(4,5)] Suc.prems(4) by simp
  ultimately obtain s' where "ndL_io_handler (replicate n (k, idx, g)) s1 = Some s'" "\<forall>q. q \<noteq> p \<longrightarrow> h_session s' q = h_session s1 q"
    using Suc.IH [OF s1(2) Suc.prems(2)] by blast
  moreover have "ndL_io_handler (replicate (Suc n) (k, idx, g)) s =
      do { s1 \<leftarrow> ndL_io_handler [(k, idx, g)] s; ndL_io_handler (replicate n (k, idx, g)) s1 }"
    using Suc.prems(2) by (auto simp: advertises_def accept_frame_def split: Option.bind_split)
  moreover have "ndL_io_handler [(k, idx, g)] s = Some s1"
    using handler_advertises [OF Suc.prems(2,3)] Suc.prems(4) s1(1) by simp
  ultimately show ?case using y(2) by simp
qed simp

subsection \<open>Properties\<close>

text \<open>
  C5: proxying works from end to end.  A neighbour on the interface of a proxy asks for a target that no session has yet and whose
  first matching rule forwards to an interface that is up: the daemon sends one solicitation for the rewritten target there.  When a
  frame on that interface then advertises the rewritten target, the daemon sends one advertisement of the original target
  back to the neighbour on the proxy's interface, and for a rule with autowire it installs the host route; it sends nothing else, and the
  session is VALID.
\<close>

theorem proxying_end_to_end:
  fixes s :: "'a session_state_scheme"
  assumes "daemon_inv s"
    and up: "receiver idx s = Some (Some ip)" "h_iface s ip = Some i" "if_up i" "if_proxy i = Some pp" "h_proxy s pp = Some px"
      "p_iface px = Some ip"
    and rule: "first_rule pp tgt s = Some (Some rp)" "h_rule s rp = Some r" "r_proxy r = pp" "r_mode r = ND_MODE_IFACE" "r_iface r = Some jp"
    and down: "receiver idx' s = Some (Some jp)" "h_iface s jp = Some j" "if_up j"
      "\<not> nd_rt_is_local_addr (if_index j) (nd_addr_combine host (r_rewrite_tgt r) tgt (r_rewrite_pflen r)) s"
    and new: "session_map s (pp, tgt) = None" "ndL_session_count s < 4096"
    and frames: "solicits f src ll tgt" "advertises g (nd_addr_combine host (r_rewrite_tgt r) tgt (r_rewrite_pflen r))"
  shows "\<exists>s1 s2 p y. ndL_io_handler [(k, idx, f)] s = Some s1 \<and> ndL_io_handler [(k', idx', g)] s1 = Some s2 \<and>
     out s1 = out s @ [Packet (if_index j) (ns_frame (if_lladdr j) (nd_addr_combine host (r_rewrite_tgt r) tgt (r_rewrite_pflen r)))] \<and>
     out s2 = out s1 @ Packet (if_index i) (na_frame (if_lladdr i) src ll tgt (rule_target r) (p_router px)) #
       (if r_autowire r then [host_route tgt (if_index j) (r_table r)] else []) \<and>
     h_session s2 = (h_session s)(p \<mapsto> y) \<and> h_session s p = None \<and> s_tgt y = tgt \<and> s_state y = ND_STATE_VALID \<and> s_subs y = []"
proof -
  let ?s1 = "after_asking rp r jp j src ll tgt s"
  have "ndL_io_handler [(k, idx, f)] s = Some ?s1"
    using handler_solicits [OF frames(1) up(1,2,4), of k]
      proxy_asks [OF assms(1) rule(1) new(1) rule(2,4,5) down(2) new(2)] down(4) by auto
  moreover have "out ?s1 = out s @ [Packet (if_index j) (ns_frame (if_lladdr j) (nd_addr_combine host (r_rewrite_tgt r) tgt (r_rewrite_pflen r)))]"
    using down(3) by (simp add: after_asking_def asked_def Let_def)
  moreover obtain s2 y where s2: "nd_session_handle_na (heap_next s) ?s1 = Some s2"
     "out s2 = out ?s1 @ Packet (if_index i) (na_frame (if_lladdr i) src ll tgt (rule_target r) (p_router px)) #
       (if r_autowire r then [host_route tgt (if_index j) (r_table r)] else [])"
     "h_session s2 = (h_session s)(heap_next s \<mapsto> y)" "s_state y = ND_STATE_VALID" "s_subs y = []" "s_tgt y = tgt"
    using proxy_answers [OF assms(1) rule(2) _ up(6,2,3) down(2,3), where src = src and tgt = tgt and ll = ll] up(5) rule(3) by blast
  moreover have "ndL_io_handler [(k', idx', g)] ?s1 = Some s2"
    using handler_advertises [OF frames(2), of idx' ?s1 jp k'] receiver_after_asking [OF down(2)] down(1)
      find_asked [OF assms(1)] s2(1) by simp
  moreover have "h_session s (heap_next s) = None"
    using session_wfD(1) [OF daemon_invD(1) [OF assms(1)]] by (auto simp: tables_ok_def)
  ultimately show ?thesis by blast
qed

lemma sample_receivers: "receiver 2 sample_daemon = Some (Some 2)" "receiver 3 sample_daemon = Some (Some 3)"
  by (simp_all add: receiver_def sample_daemon_simps sample_eth0_def sample_eth1_def)

lemma sample_matches: "nd_addr_match host (Nd_addr 0xb80d0120 0 0 0) sample_target 32" "\<not> nd_addr_is_multicast LittleEndian sample_target"
  by code_simp+

theorem proxying_end_to_end_witness:
  "\<exists>s1 s2. ndL_io_handler [(sample_kernel, 2, ns_frame (Nd_lladdr 2 0 0 0 0 5) sample_target)] sample_daemon = Some s1 \<and>
     ndL_io_handler [(sample_kernel, 3, na_frame (Nd_lladdr 2 0 0 0 0 9) allnodes allnodes_ll sample_target None False)] s1 = Some s2 \<and>
     out s2 = out sample_daemon @
       [Packet 3 (ns_frame (Nd_lladdr 2 0 0 0 0 2) sample_target),
        Packet 2 (na_frame (Nd_lladdr 2 0 0 0 0 1) (ndL_get_local_addr (Nd_lladdr 2 0 0 0 0 5)) (Nd_lladdr 2 0 0 0 0 5)
                   sample_target None False),
        host_route sample_target 3 254]"
proof -
  have inv: "daemon_inv sample_daemon" using sample_daemon_inv by (simp add: running_inv_def)
  have rule: "first_rule 0 sample_target sample_daemon = Some (Some 1)"
    by (simp add: first_rule_def sample_daemon_simps sample_matches)
  have new: "session_map sample_daemon (0, sample_target) = None" by (simp add: session_map_def has_key_def sample_daemon_simps)
  note f = own_frames(1) [OF sample_matches(2), of "Nd_lladdr 2 0 0 0 0 5"]
  note g = own_frames(2) [OF sample_matches(2), of "Nd_lladdr 2 0 0 0 0 9" allnodes allnodes_ll None False]
  let ?r = "sample_rule\<lparr>r_iface := Some 3\<rparr>" and ?px = "sample_proxy\<lparr>p_iface := Some 2\<rparr>"
  have d: "h_iface sample_daemon 2 = Some sample_eth0" "h_proxy sample_daemon 0 = Some ?px" "h_iface sample_daemon 3 = Some sample_eth1"
    "\<not> nd_rt_is_local_addr (if_index sample_eth1) sample_target sample_daemon" "ndL_session_count sample_daemon < 4096"
    by (simp_all add: sample_daemon_def sample_config_def nd_rt_is_local_addr_def)
  have rl: "h_rule sample_daemon 1 = Some ?r" by (simp add: sample_daemon_def)
  have c: "nd_addr_combine host (r_rewrite_tgt ?r) sample_target (r_rewrite_pflen ?r) = sample_target"
    by (simp add: sample_rule_def sample_combine)
  have loc: "\<not> nd_rt_is_local_addr (if_index sample_eth1) (nd_addr_combine host (r_rewrite_tgt ?r) sample_target (r_rewrite_pflen ?r)) sample_daemon"
    unfolding c by (rule d(4))
  have adv: "advertises (na_frame (Nd_lladdr 2 0 0 0 0 9) allnodes allnodes_ll sample_target None False)
      (nd_addr_combine host (r_rewrite_tgt ?r) sample_target (r_rewrite_pflen ?r))" unfolding c by (rule g)
  have m: "if_up sample_eth0" "if_proxy sample_eth0 = Some 0" "p_iface ?px = Some 2" "r_proxy ?r = 0" "r_mode ?r = ND_MODE_IFACE"
    "r_iface ?r = Some 3" "if_up sample_eth1" "if_index sample_eth0 = 2" "if_index sample_eth1 = 3" "r_autowire ?r" "r_table ?r = 254"
    "if_lladdr sample_eth0 = Nd_lladdr 2 0 0 0 0 1" "if_lladdr sample_eth1 = Nd_lladdr 2 0 0 0 0 2" "rule_target ?r = None" "p_router ?px = False"
    by (simp_all add: sample_eth0_def sample_eth1_def sample_rule_def sample_proxy_def rule_target_def nd_lladdr_is_unspecified_def zero_lladdr_def)
  obtain s1 s2 where s: "ndL_io_handler [(sample_kernel, 2, ns_frame (Nd_lladdr 2 0 0 0 0 5) sample_target)] sample_daemon = Some s1"
    "ndL_io_handler [(sample_kernel, 3, na_frame (Nd_lladdr 2 0 0 0 0 9) allnodes allnodes_ll sample_target None False)] s1 = Some s2"
    "out s1 = out sample_daemon @ [Packet 3 (ns_frame (Nd_lladdr 2 0 0 0 0 2) sample_target)]"
    "out s2 = out s1 @ [Packet 2 (na_frame (Nd_lladdr 2 0 0 0 0 1) (ndL_get_local_addr (Nd_lladdr 2 0 0 0 0 5)) (Nd_lladdr 2 0 0 0 0 5)
                   sample_target None False), host_route sample_target 3 254]"
    using proxying_end_to_end [OF inv sample_receivers(1) d(1) m(1,2) d(2) m(3) rule rl m(4-6) sample_receivers(2) d(3) m(7)
        loc new d(5) f adv, of sample_kernel sample_kernel, unfolded c m eqTrueI [OF m(10)] if_True] by blast
  have "out s2 = out sample_daemon @ [Packet 3 (ns_frame (Nd_lladdr 2 0 0 0 0 2) sample_target),
        Packet 2 (na_frame (Nd_lladdr 2 0 0 0 0 1) (ndL_get_local_addr (Nd_lladdr 2 0 0 0 0 5)) (Nd_lladdr 2 0 0 0 0 5) sample_target None False),
        host_route sample_target 3 254]" by (simp add: s(3,4))
  with s(1,2) show ?thesis by blast
qed

text \<open>
  C40: an advertisement reaches one session only.  Where two sessions ask for the same rewritten target on the same interface (two proxies
  that forward to it, or a rewrite that maps two targets to one address), one of them stays as it is however many advertisements
  of the target arrive: its subscribers are never answered.
\<close>

theorem shared_target_starves:
  assumes "daemon_inv s" "advertises g tgt" "receiver idx s = Some (Some ip)" "p \<noteq> q"
    "h_session s p = Some x" "s_iface x = Some ip" "s_tgt_r x = tgt" "h_session s q = Some y" "s_iface y = Some ip" "s_tgt_r y = tgt"
  shows "(\<forall>n. \<exists>s'. ndL_io_handler (replicate n (k, idx, g)) s = Some s' \<and> h_session s' p = Some x) \<or>
    (\<forall>n. \<exists>s'. ndL_io_handler (replicate n (k, idx, g)) s = Some s' \<and> h_session s' q = Some y)"
proof -
  obtain u where u: "nd_session_find_r tgt ip s = Some (Some u)"
    using nd_session_find_r_spec [OF assms(1), of tgt ip] assms(5-7) by (auto split: option.splits)
  note reach = adverts_reach_one [OF assms(1-3) u]
  show ?thesis
  proof (cases "u = p")
    case True
    then show ?thesis using reach assms(4,8) by metis
  next
    case False
    then show ?thesis using reach assms(5) by metis
  qed
qed

text \<open>A rule that maps every /64 of its prefix to one, and two targets that meet.\<close>

definition folding_rule :: nd_rule where
  "folding_rule = sample_rule\<lparr>r_iface := Some 3, r_rewrite_tgt := Nd_addr 0xfd 0 0 0, r_rewrite_pflen := 64\<rparr>"

definition folding_daemon :: session_state where
  "folding_daemon = sample_daemon\<lparr>h_rule := [1 \<mapsto> folding_rule]\<rparr>"

definition folded :: nd_addr where "folded = Nd_addr 0xfd 0 0 0x01000000"

definition target_a :: nd_addr where "target_a = Nd_addr 0xb80d0120 0x01000000 0 0x01000000"
definition target_b :: nd_addr where "target_b = Nd_addr 0xb80d0120 0x02000000 0 0x01000000"

definition two_targets :: session_state where
  "two_targets =
     (let src = ndL_get_local_addr (Nd_lladdr 2 0 0 0 0 5); ll = Nd_lladdr 2 0 0 0 0 5
      in after_asking 1 folding_rule 3 (sample_eth1\<lparr>if_refcount := 2\<rparr>) src ll target_b
           (after_asking 1 folding_rule 3 sample_eth1 src ll target_a folding_daemon))"

lemma folding_combine: "nd_addr_combine host (r_rewrite_tgt folding_rule) target_a (r_rewrite_pflen folding_rule) = folded"
  "nd_addr_combine host (r_rewrite_tgt folding_rule) target_b (r_rewrite_pflen folding_rule) = folded"
  "nd_addr_match host (r_addr folding_rule) target_a (r_prefix folding_rule)" "nd_addr_match host (r_addr folding_rule) target_b (r_prefix folding_rule)"
  "\<not> nd_addr_is_multicast LittleEndian folded" "target_a \<noteq> target_b"
  by code_simp+

lemma folding_inv: "daemon_inv folding_daemon"
proof -
  have "daemon_inv sample_daemon" using sample_daemon_inv by (simp add: running_inv_def)
  moreover have "refs_of folding_daemon = refs_of sample_daemon"
    by (auto simp: refs_of_def [abs_def] folding_daemon_def sample_daemon_simps folding_rule_def heap_count_def fun_eq_iff split: if_splits)
  ultimately show ?thesis
    by (auto simp: daemon_inv_def session_wf_def tables_ok_def config_ok_def rule_ok_def proxy_ok_def iface_inv_def
        folding_daemon_def sample_daemon_simps folding_rule_def unique_targets_def split: if_splits)
qed

lemma asking_inv:
  fixes s :: "'a session_state_scheme"
  assumes "daemon_inv s" "first_rule pp tgt s = Some (Some rp)" "session_map s (pp, tgt) = None" "h_rule s rp = Some r"
    "r_mode r = ND_MODE_IFACE" "r_iface r = Some jp" "h_iface s jp = Some j" "ndL_session_count s < 4096"
    "\<not> (if_up j \<and> nd_rt_is_local_addr (if_index j) (nd_addr_combine host (r_rewrite_tgt r) tgt (r_rewrite_pflen r)) s)"
  shows "daemon_inv (after_asking rp r jp j src ll tgt s)"
proof -
  obtain px where "h_proxy s pp = Some px" using assms(2) by (auto simp: first_rule_def bind_eq_Some_conv)
  from nd_proxy_handle_ns_safe [OF assms(1) sample_kernel_ok this, of src undefined tgt "Some ll"] proxy_asks [OF assms, of sample_kernel]
  show ?thesis by auto
qed

lemma two_targets_inv: "daemon_inv two_targets"
proof -
  let ?src = "ndL_get_local_addr (Nd_lladdr 2 0 0 0 0 5)" and ?ll = "Nd_lladdr 2 0 0 0 0 5"
  let ?s1 = "after_asking 1 folding_rule 3 sample_eth1 ?src ?ll target_a folding_daemon"
  have r: "r_mode folding_rule = ND_MODE_IFACE" "r_iface folding_rule = Some 3" by (simp_all add: folding_rule_def sample_rule_def)
  have a: "daemon_inv ?s1"
    by (rule asking_inv [OF folding_inv, where pp = 0])
      (simp_all add: r first_rule_def session_map_def has_key_def folding_daemon_def sample_daemon_def sample_config_def
        sample_proxy_def folding_combine nd_rt_is_local_addr_def)
  show ?thesis unfolding two_targets_def Let_def
    by (rule asking_inv [OF a, where pp = 0])
      (use folding_combine(6) in \<open>auto simp: r first_rule_def session_map_def has_key_def proxy_of_def after_asking_def link_session_def
        asked_def Let_def folding_daemon_def sample_daemon_def sample_config_def sample_proxy_def sample_eth1_def
        folding_combine nd_rt_is_local_addr_def\<close>)
qed

lemma two_targets_sel:
  "h_session two_targets 4 = Some (asked 1 folding_rule 3 (ndL_get_local_addr (Nd_lladdr 2 0 0 0 0 5)) (Nd_lladdr 2 0 0 0 0 5) target_a 1000000)"
  "h_session two_targets 5 = Some (asked 1 folding_rule 3 (ndL_get_local_addr (Nd_lladdr 2 0 0 0 0 5)) (Nd_lladdr 2 0 0 0 0 5) target_b 1000000)"
  "receiver 3 two_targets = Some (Some 3)"
  by (simp_all add: two_targets_def after_asking_def link_session_def Let_def folding_daemon_def sample_daemon_def sample_config_def
      receiver_def sample_eth1_def)

theorem shared_target_starves_witness:
  "\<exists>s' p x. ndL_io_handler (replicate 5 (sample_kernel, 3, na_frame (Nd_lladdr 2 0 0 0 0 9) allnodes allnodes_ll folded None False)) two_targets = Some s' \<and>
     h_session s' p = Some x \<and> s_state x = ND_STATE_INCOMPLETE \<and> length (s_subs x) = 1"
proof -
  let ?x = "asked 1 folding_rule 3 (ndL_get_local_addr (Nd_lladdr 2 0 0 0 0 5)) (Nd_lladdr 2 0 0 0 0 5)"
  have f: "s_iface (?x t 1000000) = Some 3" "s_state (?x t 1000000) = ND_STATE_INCOMPLETE" "length (s_subs (?x t 1000000)) = 1" for t
    by (simp_all add: asked_def)
  have t: "s_tgt_r (?x target_a 1000000) = folded" "s_tgt_r (?x target_b 1000000) = folded" by (simp_all add: asked_def folding_combine)
  note g = own_frames(2) [OF folding_combine(5), of "Nd_lladdr 2 0 0 0 0 9" allnodes allnodes_ll None False]
  have ne: "(4::ptr) \<noteq> 5" by simp
  from shared_target_starves [OF two_targets_inv g two_targets_sel(3) ne two_targets_sel(1) f(1) t(1) two_targets_sel(2) f(1) t(2), of sample_kernel]
  show ?thesis
  proof
    assume "\<forall>n. \<exists>s'. ndL_io_handler (replicate n (sample_kernel, 3, na_frame (Nd_lladdr 2 0 0 0 0 9) allnodes allnodes_ll folded None False)) two_targets =
       Some s' \<and> h_session s' 4 = Some (?x target_a 1000000)"
    then show ?thesis using f(2,3) by blast
  next
    assume "\<forall>n. \<exists>s'. ndL_io_handler (replicate n (sample_kernel, 3, na_frame (Nd_lladdr 2 0 0 0 0 9) allnodes allnodes_ll folded None False)) two_targets =
       Some s' \<and> h_session s' 5 = Some (?x target_b 1000000)"
    then show ?thesis using f(2,3) by blast
  qed
qed

end
