(* ===== verification/Maintenance.thy ===== *)
theory Maintenance
  imports Main_Loop Proxying
begin

text \<open>
  The duties of the main loop between events: following the interfaces, restoring the routes of sessions when an
  interface comes back, sweeping the sessions in time and removing the routes a previous run left behind.
\<close>

subsection \<open>Routes of the sessions on an interface\<close>

text \<open>The route requests a session calls for when its interface \<open>ip\<close> changes.\<close>

definition wire_reqs :: "'a session_state_scheme \<Rightarrow> ptr \<Rightarrow> bool \<Rightarrow> ptr \<Rightarrow> effect list" where
  "wire_reqs s ip up q =
     (case h_session s q of
        None \<Rightarrow> []
      | Some x \<Rightarrow>
          if up \<and> s_iface x = Some ip \<and> s_state x = ND_STATE_VALID \<and> \<not> s_autowired x then
            (case h_iface s ip of
               None \<Rightarrow> []
             | Some i \<Rightarrow>
                 (case h_rule s (s_rule x) of
                    None \<Rightarrow> []
                  | Some r \<Rightarrow> if if_up i \<and> r_autowire r then [host_route (s_tgt x) (if_index i) (r_table r)] else []))
          else [])"

lemma wire_reqs_cong:
  "only_sessions s s' \<Longrightarrow> h_session s' q = h_session s q \<Longrightarrow> wire_reqs s' ip up q = wire_reqs s ip up q"
  by (auto simp: wire_reqs_def only_sessions_def split: option.split)

lemma changed_one_out:
  assumes "iface_changed_one ip up p s = Some s'"
  shows "out s' = out s @ wire_reqs s ip up p"
proof -
  obtain x where x: "h_session s p = Some x" using assms by (auto simp: iface_changed_one_def bind_eq_Some_conv)
  consider "s_iface x \<noteq> Some ip \<or> \<not> up \<or> s_state x \<noteq> ND_STATE_VALID" | "s_iface x = Some ip" "up" "s_state x = ND_STATE_VALID"
    by blast
  then show ?thesis
  proof cases
    case 2
    then have up: "ndL_up p s = Some s'" using assms x by (simp add: iface_changed_one_def)
    then obtain i where i: "h_iface s ip = Some i" using x 2 by (auto simp: ndL_up_def bind_eq_Some_conv)
    show ?thesis
    proof (cases "if_up i \<and> \<not> s_autowired x")
      case True
      then obtain r where r: "h_rule s (s_rule x) = Some r" using up x 2 i by (auto simp: ndL_up_def bind_eq_Some_conv)
      show ?thesis using up [symmetric] x 2 i r True
        by (cases "r_autowire r") (simp_all add: ndL_up_def wire_reqs_def nd_rt_add_route_def emit_def host_route_def)
    qed (use up x 2 i in \<open>auto simp: ndL_up_def wire_reqs_def split: option.split\<close>)
  qed (use assms x in \<open>auto simp: iface_changed_one_def wire_reqs_def split: if_splits\<close>)
qed

lemma changed_chain_out:
  assumes "foldM (iface_changed_one ip up) ps s = Some s'" "distinct ps"
  shows "out s' = out s @ concat (map (wire_reqs s ip up) ps)"
  using assms
proof (induction ps arbitrary: s)
  case (Cons p ps)
  then obtain s1 where s1: "iface_changed_one ip up p s = Some s1" "foldM (iface_changed_one ip up) ps s1 = Some s'"
    by (auto simp: bind_eq_Some_conv)
  note e = iface_changed_one_effect [OF s1(1)]
  have "map (wire_reqs s1 ip up) ps = map (wire_reqs s ip up) ps"
    using e Cons.prems(2) by (auto intro!: wire_reqs_cong)
  then show ?case using changed_one_out [OF s1(1)] Cons.IH [OF s1(2)] Cons.prems(2) by (simp cong: map_cong)
qed simp

lemma changed_buckets_out:
  assumes "foldM (\<lambda>i s. foldM (iface_changed_one ip up) (ndL_sessions s ! i) s) is s = Some s'"
    "distinct is" "\<And>i. i \<in> set is \<Longrightarrow> distinct (ndL_sessions s ! i)"
    "\<And>i j. i \<in> set is \<Longrightarrow> j \<in> set is \<Longrightarrow> i \<noteq> j \<Longrightarrow> set (ndL_sessions s ! i) \<inter> set (ndL_sessions s ! j) = {}"
  shows "out s' = out s @ concat (map (\<lambda>i. concat (map (wire_reqs s ip up) (ndL_sessions s ! i))) is)"
  using assms
proof (induction "is" arbitrary: s)
  case (Cons i "is")
  then obtain s1 where s1: "foldM (iface_changed_one ip up) (ndL_sessions s ! i) s = Some s1"
    "foldM (\<lambda>i s. foldM (iface_changed_one ip up) (ndL_sessions s ! i) s) is s1 = Some s'"
    by (auto simp: bind_eq_Some_conv)
  note e = changed_chain_effect [OF s1(1)]
  have chains: "ndL_sessions s1 = ndL_sessions s" using e by (simp add: only_sessions_def)
  have "wire_reqs s1 ip up q = wire_reqs s ip up q" if "j \<in> set is" "q \<in> set (ndL_sessions s ! j)" for j q
  proof -
    have "j \<noteq> i" using Cons.prems(2) that(1) by auto
    then have "q \<notin> set (ndL_sessions s ! i)" using Cons.prems(4) [of i j] that by auto
    then show ?thesis using e by (intro wire_reqs_cong) simp_all
  qed
  then have "map (\<lambda>j. concat (map (wire_reqs s1 ip up) (ndL_sessions s1 ! j))) is =
             map (\<lambda>j. concat (map (wire_reqs s ip up) (ndL_sessions s ! j))) is"
    unfolding chains by (intro map_cong refl arg_cong [where f = concat]) simp
  moreover have "out s' = out s1 @ concat (map (\<lambda>i. concat (map (wire_reqs s1 ip up) (ndL_sessions s1 ! i))) is)"
    by (rule Cons.IH [OF s1(2)]) (use Cons.prems chains in auto)
  moreover have "out s1 = out s @ concat (map (wire_reqs s ip up) (ndL_sessions s ! i))"
    by (rule changed_chain_out [OF s1(1)]) (use Cons.prems in simp)
  ultimately show ?case by (simp only: list.map concat.simps append_assoc)
qed simp

lemma iface_changed_out:
  assumes "daemon_inv s" "nd_session_iface_changed ip up s = Some s'"
  shows "\<exists>new. out s' = out s @ new \<and> set new = (\<Union>q. set (wire_reqs s ip up q))"
proof -
  let ?n = NDPPD_SESSION_BUCKETS
  let ?new = "concat (map (\<lambda>i. concat (map (wire_reqs s ip up) (ndL_sessions s ! i))) [0..<?n])"
  have idx: "index_ok (NDL_BUCKET (ndL_hash_seed s)) ?n s_tgt (h_session s) (ndL_sessions s)"
    using session_wfD(1) [OF daemon_invD(1) [OF assms(1)]] by (simp add: tables_ok_def)
  have "out s' = out s @ ?new"
    by (rule changed_buckets_out [OF assms(2) [unfolded nd_session_iface_changed_def]])
      (use index_okD(2,3) [OF idx] in auto)
  moreover have "set ?new = (\<Union>q. set (wire_reqs s ip up q))"
  proof
    show "(\<Union>q. set (wire_reqs s ip up q)) \<subseteq> set ?new"
    proof
      fix e
      assume "e \<in> (\<Union>q. set (wire_reqs s ip up q))"
      then obtain q where e: "e \<in> set (wire_reqs s ip up q)" by blast
      have "wire_reqs s ip up q = []" if "h_session s q = None" using that by (simp add: wire_reqs_def)
      with e obtain x where q: "h_session s q = Some x" by fastforce
      from buckets_cover [OF assms(1) q] e show "e \<in> set ?new" by auto
    qed
  qed auto
  ultimately show ?thesis by blast
qed

subsection \<open>The clock of a session\<close>

text \<open>
  What an event does to the times the sweep looks at: a session keeps its state and the time it entered it, or
  enters a state now, or is INCOMPLETE, which the sweep times by its probes.
\<close>

definition clocked :: "'a session_state_scheme \<Rightarrow> 'a session_state_scheme \<Rightarrow> bool" where
  "clocked s s' \<longleftrightarrow> nd_current_time s' = nd_current_time s \<and>
     (\<forall>q y. h_session s' q = Some y \<longrightarrow>
        s_state y = ND_STATE_INCOMPLETE \<or> state_time y = nd_current_time s \<or>
        (\<exists>x. h_session s q = Some x \<and> s_state x = s_state y \<and> state_time x = state_time y))"

lemma clocked_same: "h_session s' = h_session s \<Longrightarrow> nd_current_time s' = nd_current_time s \<Longrightarrow> clocked s s'"
  by (simp add: clocked_def)

lemma clocked_trans: "clocked s s' \<Longrightarrow> clocked s' s'' \<Longrightarrow> clocked s s''"
  unfolding clocked_def by metis

lemma clocked_put:
  assumes "s_state y = ND_STATE_INCOMPLETE \<or> state_time y = nd_current_time s \<or>
    (\<exists>x. h_session s p = Some x \<and> s_state x = s_state y \<and> state_time x = state_time y)"
  shows "clocked s (put_session p y s)"
  using assms by (auto simp: clocked_def)

lemma send_ns_clocked: "nd_iface_send_ns iface tgt s = Some s' \<Longrightarrow> clocked s s'"
  by (auto simp: nd_iface_send_ns_def ndL_send_icmp6_def emit_def bind_eq_Some_conv intro!: clocked_same split: option.splits if_splits)

lemma send_na_clocked: "nd_iface_send_na iface dst dst_ll tgt tgt_ll router s = Some s' \<Longrightarrow> clocked s s'"
  by (auto simp: nd_iface_send_na_def ndL_send_icmp6_def emit_def bind_eq_Some_conv intro!: clocked_same split: option.splits if_splits)

lemma open_clocked: "nd_iface_open k name index pr s = Some (r, s') \<Longrightarrow> clocked s s'"
  by (intro clocked_same open_sessions open_keeps(2))

lemma start_probing_clocked: "start_probing p x s = Some s' \<Longrightarrow> clocked s s'"
  unfolding start_probing_def Let_def by (rule clocked_trans [OF clocked_put send_ns_clocked]) simp_all

lemma retry_route_clocked:
  assumes "retry_route k p s = Some s'"
  shows "clocked s s'"
proof -
  obtain x where "h_session s p = Some x" using assms by (auto simp: retry_route_def bind_eq_Some_conv)
  with assms show ?thesis
    by (rule retry_route_cases) (auto intro: clocked_same open_clocked clocked_trans [OF open_clocked start_probing_clocked])
qed

lemma probe_stale_clocked:
  assumes "probe_stale p s = Some s'"
  shows "clocked s s'"
proof -
  obtain x where x: "h_session s p = Some x" using assms by (auto simp: probe_stale_def bind_eq_Some_conv)
  let ?y = "x\<lparr>ons_count := (if ons_count x = 0 then 1 else ons_count x), ons_time := nd_current_time s\<rparr>"
  show ?thesis
  proof (cases "s_state x = ND_STATE_STALE \<and> s_iface x \<noteq> None \<and> nd_conf_retrans_time s \<le> nd_current_time s - ons_time x")
    case True
    then have send: "nd_iface_send_ns (s_iface x) (s_tgt_r x) (put_session p ?y s) = Some s'"
      using assms x by (simp add: probe_stale_def Let_def)
    have "clocked s (put_session p ?y s)" by (rule clocked_put) (simp add: x)
    then show ?thesis using send_ns_clocked [OF send] by (rule clocked_trans)
  next
    case False
    then have "s' = s" using assms x by (auto simp: probe_stale_def)
    then show ?thesis by (simp add: clocked_same)
  qed
qed

lemma queue_sub_clock: "queue_sub src ll x = Some x' \<Longrightarrow> s_state x' = s_state x \<and> state_time x' = state_time x"
  by (auto simp: queue_sub_def split: if_splits)

lemma answer_ns_clocked: "answer_ns x src src_ll s = Some s' \<Longrightarrow> clocked s s'"
  by (auto simp: answer_ns_def bind_eq_Some_conv dest: send_na_clocked split: option.splits if_splits)

lemma handle_ns_clocked:
  assumes "nd_session_handle_ns k p src src_ll s = Some s'"
  shows "clocked s s'"
proof -
  obtain x where x: "h_session s p = Some x" using assms by (auto simp: nd_session_handle_ns_def bind_eq_Some_conv)
  let ?s = "put_session p (x\<lparr>ins_time := nd_current_time s\<rparr>) s"
  have s: "clocked s ?s" by (rule clocked_put) (simp add: x)
  show ?thesis
  proof (cases "s_state x = ND_STATE_VALID")
    case True
    then have "answer_ns (x\<lparr>ins_time := nd_current_time s\<rparr>) src src_ll ?s = Some s'"
      using assms x by (simp add: nd_session_handle_ns_def Let_def)
    from clocked_trans [OF s answer_ns_clocked [OF this]] show ?thesis .
  next
    case False
    then consider "s' = ?s" | ll x' s2 where "queue_sub src ll (x\<lparr>ins_time := nd_current_time s\<rparr>) = Some x'"
        "retry_route k p (put_session p x' ?s) = Some s2" "probe_stale p s2 = Some s'"
      using assms x by (auto simp: nd_session_handle_ns_def Let_def bind_eq_Some_conv split: option.splits)
    then show ?thesis
    proof cases
      case 2
      have "clocked ?s (put_session p x' ?s)" by (rule clocked_put) (use queue_sub_clock [OF 2(1)] in simp)
      from clocked_trans [OF clocked_trans [OF clocked_trans [OF s this] retry_route_clocked [OF 2(2)]] probe_stale_clocked [OF 2(3)]]
      show ?thesis .
    qed (simp add: s)
  qed
qed

lemma up_clocked:
  assumes "ndL_up p s = Some s'"
  shows "clocked s s'"
proof -
  obtain x where x: "h_session s p = Some x" using assms by (auto simp: ndL_up_def bind_eq_Some_conv)
  consider "s' = s" | e where "s' = put_session p (x\<lparr>s_autowired := True\<rparr>) (emit e s)"
    using assms x by (auto simp: ndL_up_def bind_eq_Some_conv nd_rt_add_route_def split: option.splits if_splits)
  then show ?thesis
    by cases (auto simp: clocked_def emit_def x)
qed

lemma handle_na_clocked:
  assumes "nd_session_handle_na p s = Some s'"
  shows "clocked s s'"
proof -
  obtain x where x: "h_session s p = Some x" using assms by (auto simp: nd_session_handle_na_def bind_eq_Some_conv)
  show ?thesis
  proof (cases "s_state x = ND_STATE_VALID")
    case True
    then show ?thesis using assms x by (auto simp: nd_session_handle_na_def intro!: clocked_put)
  next
    case False
    then obtain s1 s3 y where s1: "foldM (notify_sub x) (s_subs x) s = Some s1" "ndL_up p (put_session p (x\<lparr>s_subs := []\<rparr>) s1) = Some s3"
      "h_session s3 p = Some y" "s' = put_session p (y\<lparr>s_state := ND_STATE_VALID, state_time := nd_current_time s3\<rparr>) s3"
      using assms x by (auto simp: nd_session_handle_na_def bind_eq_Some_conv Let_def)
    obtain l where l: "s1 = s\<lparr>out := l\<rparr>" using notify_out [OF s1(1)] by blast
    have "clocked s s1" unfolding l by (rule clocked_same) simp_all
    moreover have "clocked s1 (put_session p (x\<lparr>s_subs := []\<rparr>) s1)" by (rule clocked_put) (simp add: l x)
    moreover have "clocked (put_session p (x\<lparr>s_subs := []\<rparr>) s1) s3"
      by (rule up_clocked [OF s1(2)])
    moreover have "clocked s3 s'" unfolding s1(4) by (rule clocked_put) simp
    ultimately show ?thesis using clocked_trans by blast
  qed
qed

lemma init_session_clocked:
  assumes "init_session k p x r s = Some s'" "state_time x = nd_current_time s"
  shows "clocked s s'"
proof (cases "r_mode r = ND_MODE_AUTO")
  case True
  show ?thesis
  proof (cases "nd_rt_find_route (s_tgt x) (r_table r) s")
    case None
    then show ?thesis using assms True by (auto simp: init_session_def intro!: clocked_put)
  next
    case (Some route)
    have "s' = put_session p (x\<lparr>s_state := ND_STATE_INVALID\<rparr>) s \<or>
      (\<exists>io s1. nd_iface_open k None (rt_oif route) False s = Some (io, s1) \<and>
        (case io of None \<Rightarrow> Some (put_session p (x\<lparr>s_state := ND_STATE_INVALID\<rparr>) s1)
         | Some ip \<Rightarrow> start_probing p (x\<lparr>s_iface := Some ip\<rparr>) s1) = Some s')"
      using assms(1) True Some by (auto simp: init_session_def bind_eq_Some_conv split: if_splits)
    then consider "s' = put_session p (x\<lparr>s_state := ND_STATE_INVALID\<rparr>) s"
      | s1 where "nd_iface_open k None (rt_oif route) False s = Some (None, s1)" "s' = put_session p (x\<lparr>s_state := ND_STATE_INVALID\<rparr>) s1"
      | s1 ip where "nd_iface_open k None (rt_oif route) False s = Some (Some ip, s1)" "start_probing p (x\<lparr>s_iface := Some ip\<rparr>) s1 = Some s'"
      by (elim disjE exE conjE, blast) (metis (no_types, lifting) option.case_eq_if option.exhaust_sel option.inject)
    then show ?thesis
    proof cases
      case 1
      then show ?thesis using assms(2) by (auto intro!: clocked_put)
    next
      case (2 s1)
      have "clocked s1 s'" unfolding 2(2) using assms(2) open_keeps(2) [OF 2(1)] by (auto intro!: clocked_put)
      with open_clocked [OF 2(1)] show ?thesis by (rule clocked_trans)
    next
      case (3 s1 ip)
      show ?thesis by (rule clocked_trans [OF open_clocked [OF 3(1)] start_probing_clocked [OF 3(2)]])
    qed
  qed
next
  case False
  show ?thesis
  proof (cases "r_iface r")
    case None
    then show ?thesis using assms False
      by (cases "r_mode r") (auto simp: init_session_def clocked_same intro!: clocked_put)
  next
    case (Some ip)
    then obtain i where i: "h_iface s ip = Some i" using assms(1) False by (cases "r_mode r") (auto simp: init_session_def bind_eq_Some_conv)
    consider "s' = put_session p (x\<lparr>s_state := ND_STATE_VALID\<rparr>) s"
      | s1 where "iface_ref ip s = Some s1" "start_probing p (x\<lparr>s_iface := Some ip\<rparr>) s1 = Some s'"
      using assms(1) False Some i by (cases "r_mode r") (auto simp: init_session_def bind_eq_Some_conv split: if_splits)
    then show ?thesis
    proof cases
      case 1
      then show ?thesis using assms(2) by (auto intro!: clocked_put)
    next
      case (2 s1)
      have "clocked s s1" using 2(1) i by (auto simp: iface_ref_def intro!: clocked_same)
      from clocked_trans [OF this start_probing_clocked [OF 2(2)]] show ?thesis .
    qed
  qed
qed

lemma create_clocked:
  assumes "nd_session_create k rp tgt s = Some (res, s')"
  shows "clocked s s'"
proof (cases "ndL_session_count s \<ge> ND_SESSION_MAX")
  case True
  then show ?thesis using assms by (auto simp: nd_session_create_def intro: clocked_same)
next
  case False
  then obtain r where r: "h_rule s rp = Some r" using assms by (auto simp: nd_session_create_def bind_eq_Some_conv)
  let ?x = "\<lparr>s_rule = rp, s_tgt = tgt, s_tgt_r = nd_addr_combine host (r_rewrite_tgt r) tgt (r_rewrite_pflen r),
             ons_count = 0, ons_time = 0, ins_time = 0, state_time = nd_current_time s,
             s_state = ND_STATE_INCOMPLETE, s_iface = None, s_subs = [], s_autowired = False\<rparr>"
  let ?s = "link_session (heap_next s) ?x s"
  have "clocked s ?s" by (auto simp: clocked_def link_session_def Let_def)
  moreover have "init_session k (heap_next s) ?x r ?s = Some s'"
    using assms False r by (auto simp: nd_session_create_def Let_def bind_eq_Some_conv)
  then have "clocked ?s s'" by (rule init_session_clocked) (simp add: link_session_def Let_def)
  ultimately show ?thesis by (rule clocked_trans)
qed

lemma proxy_handle_ns_clocked:
  assumes "nd_proxy_handle_ns k pp src dst tgt src_ll s = Some s'"
  shows "clocked s s'"
proof -
  obtain found where f: "nd_session_find tgt pp s = Some found" using assms by (auto simp: nd_proxy_handle_ns_def bind_eq_Some_conv)
  show ?thesis
  proof (cases found)
    case (Some p)
    then show ?thesis using assms f by (simp add: nd_proxy_handle_ns_def handle_ns_clocked)
  next
    case None
    then obtain rule where r: "(case rule of None \<Rightarrow> Some s
        | Some rp \<Rightarrow> do { (new, s1) \<leftarrow> nd_session_create k rp tgt s;
             case new of None \<Rightarrow> Some s1 | Some p \<Rightarrow> nd_session_handle_ns k p src src_ll s1 }) = Some s'"
      using assms f by (auto simp: nd_proxy_handle_ns_def bind_eq_Some_conv)
    show ?thesis
    proof (cases rule)
      case (Some rp)
      then obtain new s1 where c: "nd_session_create k rp tgt s = Some (new, s1)"
        "(case new of None \<Rightarrow> Some s1 | Some p \<Rightarrow> nd_session_handle_ns k p src src_ll s1) = Some s'"
        using r by (auto simp: bind_eq_Some_conv)
      have "clocked s1 s'" using c(2) by (cases new) (simp_all add: clocked_same handle_ns_clocked)
      from clocked_trans [OF create_clocked [OF c(1)] this] show ?thesis .
    qed (use r in \<open>simp add: clocked_same\<close>)
  qed
qed

lemma handle_ns_frame_clocked:
  assumes "ndL_handle_ns k ip f i len s = Some s'"
  shows "clocked s s'"
proof -
  obtain ifc where ifc: "h_iface s ip = Some ifc" using assms by (auto simp: ndL_handle_ns_def bind_eq_Some_conv)
  show ?thesis
  proof (cases "if_proxy ifc")
    case (Some pp)
    then obtain r where r: "parse_ns f i len = Some r" using assms ifc by (auto simp: ndL_handle_ns_def bind_eq_Some_conv)
    show ?thesis using assms ifc Some r by (cases r) (auto simp: ndL_handle_ns_def clocked_same intro: proxy_handle_ns_clocked)
  qed (use assms ifc in \<open>simp add: ndL_handle_ns_def clocked_same\<close>)
qed

lemma handle_na_frame_clocked:
  assumes "ndL_handle_na ip f i len s = Some s'"
  shows "clocked s s'"
proof -
  obtain r where r: "parse_na f i len = Some r" using assms by (auto simp: ndL_handle_na_def bind_eq_Some_conv)
  show ?thesis
  proof (cases r)
    case (Some tgt)
    then obtain found where "nd_session_find_r tgt ip s = Some found" using assms r by (auto simp: ndL_handle_na_def bind_eq_Some_conv)
    then show ?thesis using assms r Some by (cases found) (simp_all add: ndL_handle_na_def clocked_same handle_na_clocked)
  qed (use assms r in \<open>simp add: ndL_handle_na_def clocked_same\<close>)
qed

lemma handle_msg_clocked:
  assumes "ndL_handle_msg k ip f s = Some s'"
  shows "clocked s s'"
proof -
  obtain v where v: "check_msg f = Some v" using assms by (auto simp: ndL_handle_msg_def bind_eq_Some_conv)
  show ?thesis
  proof (cases v)
    case (Icmp i len)
    then obtain ty where "read_byte f (54 + i) = Some ty" using assms v by (auto simp: ndL_handle_msg_def bind_eq_Some_conv)
    then show ?thesis using assms v Icmp handle_ns_frame_clocked handle_na_frame_clocked
      by (auto simp: ndL_handle_msg_def clocked_same split: if_splits)
  qed (use assms v in \<open>simp add: ndL_handle_msg_def clocked_same\<close>)
qed

lemma io_handler_clocked: "ndL_io_handler msgs s = Some s' \<Longrightarrow> clocked s s'"
proof (induction msgs arbitrary: s)
  case (Cons m msgs)
  obtain k idx f where m: "m = (k, idx, f)" by (cases m)
  show ?case
  proof (cases "length f = 0")
    case True
    then show ?thesis using Cons.prems m by (simp add: clocked_same)
  next
    case False
    then obtain found s1 where s1: "(case found of None \<Rightarrow> Some s | Some ip \<Rightarrow> if accept_frame f then ndL_handle_msg k ip f s else Some s) = Some s1"
      "ndL_io_handler msgs s1 = Some s'"
      using Cons.prems m by (auto simp: bind_eq_Some_conv)
    have "clocked s s1" using s1(1) by (cases found) (auto split: if_splits intro: clocked_same handle_msg_clocked)
    with Cons.IH [OF s1(2)] show ?thesis using clocked_trans by blast
  qed
qed (simp add: clocked_same)

lemma wired_clock: "s_state (wired s ip up x) = s_state x" "state_time (wired s ip up x) = state_time x"
  by (simp_all add: wired_def)

definition same_clock :: "'a session_state_scheme \<Rightarrow> 'a session_state_scheme \<Rightarrow> bool" where
  "same_clock s s' \<longleftrightarrow>
     (\<forall>q. map_option (\<lambda>x. (s_state x, state_time x)) (h_session s' q) = map_option (\<lambda>x. (s_state x, state_time x)) (h_session s q))"

lemma same_clock_refl: "same_clock s s"
  by (simp add: same_clock_def)

lemma same_clock_trans: "same_clock s s' \<Longrightarrow> same_clock s' s'' \<Longrightarrow> same_clock s s''"
  by (simp add: same_clock_def)

lemma same_clock_clocked:
  assumes "same_clock s s'" "nd_current_time s' = nd_current_time s"
  shows "clocked s s'"
  unfolding clocked_def
proof (intro conjI allI impI)
  fix q y
  assume "h_session s' q = Some y"
  then have "map_option (\<lambda>x. (s_state x, state_time x)) (h_session s q) = Some (s_state y, state_time y)"
    using assms(1) unfolding same_clock_def by (metis option.map(2))
  then show "s_state y = ND_STATE_INCOMPLETE \<or> state_time y = nd_current_time s \<or>
        (\<exists>x. h_session s q = Some x \<and> s_state x = s_state y \<and> state_time x = state_time y)" by auto
qed (rule assms(2))

lemma changed_same_clock:
  assumes "nd_session_iface_changed ip up s = Some s'"
  shows "same_clock s s'"
  using changed_buckets_effect [OF assms [unfolded nd_session_iface_changed_def]]
  by (simp add: same_clock_def option.map_comp o_def wired_clock)

lemma maybe_changed_same_clock: "(if b then nd_session_iface_changed ip up s else Some s) = Some s' \<Longrightarrow> same_clock s s'"
  by (cases b) (simp_all add: changed_same_clock same_clock_refl)

lemma update_iface_same_clock: "update_iface ip g s = Some s' \<Longrightarrow> same_clock s s'"
  by (auto simp: update_iface_def bind_eq_Some_conv same_clock_def)

lemma same_clock_emit [simp]: "same_clock s (emit e s') = same_clock s s'" "same_clock (emit e s) s' = same_clock s s'"
  by (simp_all add: same_clock_def emit_def)

lemma rebind_absent_same_clock: "rebind_absent ip i s = Some s' \<Longrightarrow> same_clock s s'"
  by (auto simp: rebind_absent_def bind_eq_Some_conv same_clock_refl split: if_splits
      intro: same_clock_trans [OF update_iface_same_clock changed_same_clock])

lemma rebind_present_same_clock:
  assumes "rebind_present k ip i cur s = Some s'"
  shows "same_clock s s'"
proof (cases "cur = if_index i \<and> if_up i")
  case True
  let ?up = "siocgifflags_up k (if_name i) = Some True"
  obtain s1 where s1: "(if ?up \<noteq> if_admin_up i then nd_session_iface_changed ip ?up s else Some s) = Some s1"
    "update_iface ip (\<lambda>i. i\<lparr>if_admin_up := ?up\<rparr>) s1 = Some s'"
    using assms True by (auto simp: rebind_present_def Let_def bind_eq_Some_conv)
  have "same_clock s s1" by (rule maybe_changed_same_clock [OF s1(1)])
  then show ?thesis using same_clock_trans update_iface_same_clock [OF s1(2)] by blast
next
  case False
  let ?mr = "mr_type_of (if_promiscuous i)"
  show ?thesis
  proof (cases "add_membership k cur ?mr")
    case True
    let ?s2 = "if if_index i \<noteq> 0 \<and> if_index i \<noteq> cur then emit (DropMembership (if_index i) ?mr) (emit (AddMembership cur ?mr) s)
               else emit (AddMembership cur ?mr) s"
    let ?up = "siocgifflags_up k (if_name i) = Some True"
    have "do { s3 \<leftarrow> (if if_up i then nd_session_iface_changed ip False ?s2 else Some ?s2);
               s4 \<leftarrow> update_iface ip (\<lambda>i. i\<lparr>if_index := cur, if_up := True\<rparr>) s3;
               s5 \<leftarrow> (if ?up then nd_session_iface_changed ip True s4 else Some s4);
               update_iface ip (\<lambda>i. i\<lparr>if_admin_up := ?up\<rparr>) s5 } = Some s'"
      using assms False True unfolding rebind_present_def Let_def by (simp only: if_False if_True simp_thms)
    then obtain s3 s4 s5 where s: "(if if_up i then nd_session_iface_changed ip False ?s2 else Some ?s2) = Some s3"
      "update_iface ip (\<lambda>i. i\<lparr>if_index := cur, if_up := True\<rparr>) s3 = Some s4"
      "(if ?up then nd_session_iface_changed ip True s4 else Some s4) = Some s5"
      "update_iface ip (\<lambda>i. i\<lparr>if_admin_up := ?up\<rparr>) s5 = Some s'"
      by (auto simp only: bind_eq_Some_conv)
    have "same_clock s ?s2" by (simp add: same_clock_refl)
    from same_clock_trans [OF this maybe_changed_same_clock [OF s(1)]] have "same_clock s s3" .
    from same_clock_trans [OF this update_iface_same_clock [OF s(2)]] have "same_clock s s4" .
    from same_clock_trans [OF this maybe_changed_same_clock [OF s(3)]] have "same_clock s s5" .
    from same_clock_trans [OF this update_iface_same_clock [OF s(4)]] show ?thesis .
  qed (use assms False in \<open>auto simp: rebind_present_def Let_def same_clock_refl\<close>)
qed

lemma rebind_one_same_clock:
  assumes "rebind_one k ip s = Some s'"
  shows "same_clock s s'"
proof -
  obtain i where i: "h_iface s ip = Some i" using assms by (auto simp: rebind_one_def bind_eq_Some_conv)
  show ?thesis
  proof (cases "if_nametoindex k (if_name i)")
    case (Inl e)
    then show ?thesis using assms i
      by (cases e) (auto simp: rebind_one_def same_clock_refl intro: rebind_absent_same_clock)
  next
    case (Inr cur)
    then obtain j s1 where "update_iface ip (\<lambda>_. j) s = Some s1" "rebind_present k ip j cur s1 = Some s'"
      using assms i by (auto simp: rebind_one_def bind_eq_Some_conv Let_def)
    then show ?thesis using same_clock_trans update_iface_same_clock rebind_present_same_clock by blast
  qed
qed

lemma rebind_all_same_clock:
  assumes "nd_iface_rebind_all k s = Some s'"
  shows "same_clock s s'"
proof (cases "ndL_io s")
  case True
  then have run: "foldM (rebind_one k) (ndL_first_iface s) s = Some s'" using assms by (simp add: nd_iface_rebind_all_def)
  show ?thesis
    by (rule foldM_rel [OF run, where R = same_clock])
      (auto intro: same_clock_refl rebind_one_same_clock elim: same_clock_trans)
qed (use assms in \<open>simp add: nd_iface_rebind_all_def same_clock_refl\<close>)

subsection \<open>No session outlives its time\<close>

definition same_ttls :: "'a session_state_scheme \<Rightarrow> 'a session_state_scheme \<Rightarrow> bool" where
  "same_ttls s s' \<longleftrightarrow> nd_conf_valid_ttl s' = nd_conf_valid_ttl s \<and> nd_conf_stale_ttl s' = nd_conf_stale_ttl s \<and>
     nd_conf_invalid_ttl s' = nd_conf_invalid_ttl s"

text \<open>What events keep, and the state of affairs since the last sweep.\<close>

definition kept :: "'a session_state_scheme \<Rightarrow> 'a session_state_scheme \<Rightarrow> bool" where
  "kept s s' \<longleftrightarrow> clocked s s' \<and> same_ttls s s'"

definition on_time :: "loop_vars \<Rightarrow> 'a session_state_scheme \<Rightarrow> bool" where
  "on_time v s \<longleftrightarrow> last_session_update v \<le> nd_current_time s \<and>
     (\<forall>p y. h_session s p = Some y \<longrightarrow> in_time (s\<lparr>nd_current_time := last_session_update v\<rparr>) y)"

lemma kept_trans: "kept s s' \<Longrightarrow> kept s' s'' \<Longrightarrow> kept s s''"
  using clocked_trans by (auto simp: kept_def same_ttls_def)

lemma kept_frame: "clocked s s' \<Longrightarrow> session_frame s s' \<Longrightarrow> kept s s'"
  by (simp add: kept_def same_ttls_def session_frame_def)

lemma kept_refl: "kept s s"
  by (simp add: kept_def same_ttls_def clocked_same)

lemma on_time_kept:
  assumes "kept s s'" "on_time v s" "ttls_positive s"
  shows "on_time v s'"
proof -
  have "in_time (s'\<lparr>nd_current_time := last_session_update v\<rparr>) y" if y: "h_session s' p = Some y" for p y
  proof -
    consider "s_state y = ND_STATE_INCOMPLETE" | "state_time y = nd_current_time s"
      | x where "h_session s p = Some x" "s_state x = s_state y" "state_time x = state_time y"
      using assms(1) y by (auto simp: kept_def clocked_def)
    then show ?thesis
    proof cases
      case 3
      then have "in_time (s\<lparr>nd_current_time := last_session_update v\<rparr>) x" using assms(2) by (simp add: on_time_def)
      then show ?thesis using 3 assms(1) by (auto simp: in_time_def kept_def same_ttls_def split: nd_state.splits)
    qed (use assms in \<open>auto simp: in_time_def kept_def same_ttls_def ttls_positive_def on_time_def split: nd_state.splits\<close>)
  qed
  then show ?thesis using assms(1,2) by (simp add: on_time_def kept_def clocked_def)
qed

lemma rebind_kept:
  assumes "rt_ok s" "nd_iface_rebind_all k s = Some s'"
  shows "kept s s'"
proof -
  have "daemon_inv s" using assms(1) by (simp add: rt_ok_def running_inv_def)
  then have f: "session_frame s s'" using rebind_all_safe [of s k] assms(2) by auto
  show ?thesis
    by (rule kept_frame [OF same_clock_clocked [OF rebind_all_same_clock [OF assms(2)]] f]) (use f in \<open>simp add: session_frame_def\<close>)
qed

lemma apply_nl_kept:
  assumes "rt_ok s" "apply_nl k m s = Some s'"
  shows "kept s s'"
proof (cases "nl_type m = 16 \<or> nl_type m = 17")
  case True
  then show ?thesis using assms(2) rebind_kept [OF assms(1)] by (auto simp: apply_nl_def)
next
  case False
  then have "h_session s' = h_session s \<and> nd_current_time s' = nd_current_time s \<and> same_ttls s s'"
    using assms(2) by (auto simp: apply_nl_def ndL_new_route_def ndL_delete_route_def ndL_new_addr_def ndL_delete_addr_def
        same_ttls_def split: if_splits option.splits prod.splits)
  then show ?thesis by (simp add: kept_def clocked_same)
qed

lemma apply_dgram_kept: "rt_ok s \<Longrightarrow> apply_dgram k ms s = Some s' \<Longrightarrow> kept s s'"
proof (induction ms arbitrary: s)
  case (Cons m ms)
  show ?case
  proof (cases "nl_type m = 3")
    case True
    then show ?thesis using Cons.prems by (auto simp: kept_def same_ttls_def clocked_same)
  next
    case False
    obtain s1 where s1: "apply_nl k m s = Some s1" "rt_ok s1" using apply_nl_safe [OF Cons.prems(1)] by blast
    then have "apply_dgram k ms s1 = Some s'" using False Cons.prems(2) by simp
    from kept_trans [OF apply_nl_kept [OF Cons.prems(1) s1(1)] Cons.IH [OF s1(2) this]] show ?thesis .
  qed
qed (simp add: kept_refl)

lemma rt_io_handler_kept:
  "rt_ok s \<Longrightarrow> \<forall>(k, b)\<in>set msgs. dgram_ok b \<Longrightarrow> rt_io_handler msgs s = Some s' \<Longrightarrow> kept s s'"
proof (induction msgs arbitrary: s)
  case (Cons m msgs)
  obtain k b where m: "m = (k, b)" by (cases m)
  obtain ms where ms: "list_all nl_ok ms" "b = dgram_bytes ms" using Cons.prems(2) m by (auto simp: dgram_ok_def)
  have ok: "\<forall>(k, b)\<in>set msgs. dgram_ok b" using Cons.prems(2) by simp
  obtain s1 where s1: "apply_dgram k ms s = Some s1" "rt_ok s1" using apply_dgram_safe [OF Cons.prems(1)] by blast
  then have "rt_io_handler msgs s1 = Some s'"
    using Cons.prems(3) m ms nlmsg_loop_dgram [OF ms(1), of k s] by (simp add: rt_io_handler_def)
  from kept_trans [OF apply_dgram_kept [OF Cons.prems(1) s1(1)] Cons.IH [OF s1(2) ok this]] show ?case .
qed (simp add: rt_io_handler_def kept_refl)

lemma io_dispatch_kept:
  assumes "rt_ok s" "event_ok e" "io_dispatch e s = Some s'"
  shows "kept s s'"
proof (cases e)
  case (PacketReady msgs)
  then have run: "ndL_io_handler msgs s = Some s'" "\<forall>(k, idx, f)\<in>set msgs. kernel_ok k" using assms by (simp_all add: io_dispatch_def)
  have "session_frame s s'" using ndL_io_handler_safe [of s msgs] assms(1) run by (auto simp: rt_ok_def)
  with io_handler_clocked [OF run(1)] show ?thesis by (rule kept_frame)
next
  case (NetlinkReady msgs)
  then show ?thesis using assms rt_io_handler_kept [OF assms(1), of msgs] by (simp add: io_dispatch_def)
qed

lemma poll_kept:
  "rt_ok s \<Longrightarrow> \<forall>e\<in>set es. event_ok e \<Longrightarrow> foldM io_dispatch es s = Some s' \<Longrightarrow> kept s s'"
proof (induction es arbitrary: s)
  case (Cons e es)
  obtain s1 where s1: "io_dispatch e s = Some s1" "rt_ok s1" using io_dispatch_ok [of s e] Cons.prems by auto
  then have "kept s1 s'" using Cons.IH [OF s1(2)] Cons.prems by simp
  from kept_trans [OF io_dispatch_kept [OF Cons.prems(1) _ s1(1)] this] Cons.prems(2) show ?case by simp
qed (simp add: kept_refl)

text \<open>The clock of a run: it never goes back, and no turn takes longer than \<open>d\<close>.\<close>

fun clock_runs :: "int \<Rightarrow> int \<Rightarrow> turn list \<Rightarrow> bool" where
  "clock_runs d now [] = True"
| "clock_runs d now (t # ts) = (now \<le> t_now t \<and> t_now t - now \<le> d \<and> clock_runs d (t_now t) ts)"

text \<open>A session no older than its time to live and \<open>extra\<close> milliseconds.\<close>

definition within :: "int \<Rightarrow> 'a session_state_scheme \<Rightarrow> nd_session \<Rightarrow> bool" where
  "within extra s x =
     (case s_state x of
        ND_STATE_VALID \<Rightarrow> nd_current_time s - state_time x < nd_conf_valid_ttl s + extra
      | ND_STATE_STALE \<Rightarrow> nd_current_time s - state_time x < nd_conf_stale_ttl s + extra
      | ND_STATE_INVALID \<Rightarrow> nd_current_time s - state_time x < nd_conf_invalid_ttl s + extra
      | ND_STATE_INCOMPLETE \<Rightarrow> True)"

lemma on_time_within:
  assumes "on_time v s" "nd_current_time s - last_session_update v \<le> extra" "h_session s p = Some y"
  shows "within extra s y"
proof -
  have "in_time (s\<lparr>nd_current_time := last_session_update v\<rparr>) y" using assms(1,3) by (simp add: on_time_def)
  then show ?thesis using assms(2) by (auto simp: within_def in_time_def split: nd_state.splits)
qed

lemma dump_check_kept:
  assumes "dump_check v s = (v', s')"
  shows "kept s s'" "last_session_update v' = last_session_update v"
proof -
  have rm: "kept s (fold (\<lambda>r s. if rt_owned r then nd_rt_remove_route (rt_dst r) (rt_pflen r) (rt_table r) s else s) rs s)"
    for rs and s :: "'a session_state_scheme"
  proof (induction rs arbitrary: s)
    case (Cons r rs)
    have "kept s (if rt_owned r then nd_rt_remove_route (rt_dst r) (rt_pflen r) (rt_table r) s else s)"
      by (simp add: kept_def same_ttls_def clocked_same nd_rt_remove_route_def emit_def)
    from kept_trans [OF this Cons.IH] show ?case by simp
  qed (simp add: kept_refl)
  have q: "kept s s' = kept s (snd (nd_rt_query_addresses s'))" for s s' :: "'a session_state_scheme"
    by (simp add: kept_def same_ttls_def clocked_def nd_rt_query_addresses_def emit_def)
  have z: "kept (s\<lparr>nd_rt_dump_timeout := z\<rparr>) s' = kept s s'" for z and s s' :: "'a session_state_scheme"
    by (simp add: kept_def same_ttls_def clocked_def)
  have z': "kept s (s'\<lparr>nd_rt_dump_timeout := z\<rparr>) = kept s s'" for z and s s' :: "'a session_state_scheme"
    by (simp add: kept_def same_ttls_def clocked_def)
  show "kept s s'" "last_session_update v' = last_session_update v"
    using assms rm [of s] rm [of "s\<lparr>nd_rt_dump_timeout := 0\<rparr>"]
    by (auto simp: dump_check_def Let_def nd_rt_remove_owned_routes_def q [symmetric] z z' kept_refl split: if_splits)
qed

lemma session_check_on_time:
  assumes "rt_ok s" "ttls_positive s" "on_time v s"
  shows "\<exists>v' s'. session_check v s = Some (v', s') \<and> rt_ok s' \<and> ttls_positive s' \<and> on_time v' s' \<and>
     nd_current_time s' = nd_current_time s \<and> nd_current_time s - last_session_update v' \<le> 100"
proof (cases "nd_current_time s - last_session_update v > 100")
  case True
  have inv: "daemon_inv s" using assms(1) by (simp add: rt_ok_def running_inv_def)
  obtain s' where s': "nd_session_update_all s = Some s'" "session_frame s s'"
    using nd_session_update_all_safe [OF inv] by blast
  have "rt_ok s'" using session_check_ok [OF assms(1), of v] True s'(1) by (auto simp: session_check_def)
  moreover have "on_time (v\<lparr>last_session_update := nd_current_time s'\<rparr>) s'"
    using update_all_in_time [OF inv assms(2) s'(1)] by (simp add: on_time_def)
  moreover have "ttls_positive s'" using in_time_frame(2) [OF s'(2)] assms(2) by simp
  ultimately show ?thesis using True s' by (auto simp: session_check_def session_frame_def)
qed (use assms in \<open>auto simp: session_check_def\<close>)

lemma iface_check_kept:
  assumes "rt_ok s"
  shows "\<exists>v' s'. iface_check k v s = Some (v', s') \<and> rt_ok s' \<and> kept s s' \<and> last_session_update v' = last_session_update v"
proof -
  obtain v' s' where s': "iface_check k v s = Some (v', s')" "rt_ok s'" using iface_check_ok [OF assms] by blast
  then have "kept s s' \<and> last_session_update v' = last_session_update v"
    using rebind_kept [OF assms] by (auto simp: iface_check_def bind_eq_Some_conv kept_refl split: if_splits)
  with s' show ?thesis by blast
qed

lemma on_time_later:
  assumes "on_time v s" "nd_current_time s \<le> t"
  shows "on_time v (s\<lparr>nd_current_time := t\<rparr>)"
  using assms by (auto simp: on_time_def in_time_def split: nd_state.splits)

lemma turn_on_time:
  assumes "rt_ok s" "ttls_positive s" "on_time v s" "turn_ok t" "nd_current_time s \<le> t_now t" "\<not> t_stop t"
  shows "\<exists>r v' s'. main_turn t (v, s) = Some (r, v', s') \<and> rt_ok s' \<and> ttls_positive s' \<and> on_time v' s' \<and>
     nd_current_time s - last_session_update v' \<le> 100 \<and>
     nd_current_time s' = (if r = None then t_now t else nd_current_time s)"
proof -
  obtain v1 s1 where d: "dump_check v s = (v1, s1)" by (cases "dump_check v s")
  note k1 = dump_check_kept [OF d]
  have ot: "on_time v1 s" using assms(3) k1(2) by (simp add: on_time_def)
  have pos: "ttls_positive s'" if "kept u s'" "ttls_positive u" for u s' :: "'a session_state_scheme"
    using that by (simp add: kept_def same_ttls_def ttls_positive_def)
  have s1: "rt_ok s1" "ttls_positive s1" "on_time v1 s1" "nd_current_time s1 = nd_current_time s"
    using dump_check_ok [OF assms(1), of v] d pos [OF k1(1) assms(2)] on_time_kept [OF k1(1) ot assms(2)] k1(1)
    by (simp_all add: kept_def clocked_def)
  obtain v2 s2 where s2: "session_check v1 s1 = Some (v2, s2)" "rt_ok s2" "ttls_positive s2" "on_time v2 s2"
    "nd_current_time s2 = nd_current_time s1" "nd_current_time s1 - last_session_update v2 \<le> 100"
    using session_check_on_time [OF s1(1-3)] by blast
  obtain v3 s3 where s3: "iface_check (t_kernel t) v2 s2 = Some (v3, s3)" "rt_ok s3" "kept s2 s3" "last_session_update v3 = last_session_update v2"
    using iface_check_kept [OF s2(2)] by blast
  have ot3: "on_time v3 s3" using on_time_kept [OF s3(3) s2(4,3)] s3(4) by (simp add: on_time_def)
  show ?thesis
  proof (cases "t_ready t")
    case None
    then have "main_turn t (v, s) = Some (Some 1, v3, s3)" using assms(6) d s2(1) s3(1) by (simp add: main_turn_def nd_io_poll_def)
    then show ?thesis using s1 s2 s3 ot3 pos [OF s3(3) s2(3)] by (simp add: kept_def clocked_def)
  next
    case (Some es)
    then have ok: "\<forall>e\<in>set es. event_ok e" using assms(4) by (simp add: turn_ok_def)
    obtain s4 where s4: "foldM io_dispatch es s3 = Some s4" "rt_ok s4"
      using nd_io_poll_ok [OF s3(2), of "Some es"] ok by (auto simp: nd_io_poll_def bind_eq_Some_conv)
    have k4: "kept s3 s4" by (rule poll_kept [OF s3(2) ok s4(1)])
    have "main_turn t (v, s) = Some (None, v3, s4\<lparr>nd_current_time := t_now t\<rparr>)"
      using assms(6) d s2(1) s3(1) s4(1) Some by (simp add: main_turn_def nd_io_poll_def)
    moreover have "on_time v3 s4" "nd_current_time s4 = nd_current_time s"
      using on_time_kept [OF k4 ot3 pos [OF s3(3) s2(3)]] k4 s3(3) s2(5) s1(4) by (simp_all add: kept_def clocked_def)
    moreover have "ttls_positive s4" by (rule pos [OF k4 pos [OF s3(3) s2(3)]])
    ultimately show ?thesis using s4(2) s1(4) s2(6) s3(4) on_time_later [of v3 s4 "t_now t"] assms(5)
      by (simp add: rt_ok_tables ttls_positive_def)
  qed
qed

lemma loop_on_time:
  assumes "rt_ok s" "ttls_positive s" "on_time v s" "h_session s = Map.empty \<or> nd_current_time s - last_session_update v \<le> 100 + d"
    "list_all turn_ok ts" "clock_runs d (nd_current_time s) ts" "0 \<le> d"
  shows "\<exists>r v' s'. main_loop ts (v, s) = Some (r, v', s') \<and> on_time v' s' \<and>
     (h_session s' = Map.empty \<or> nd_current_time s' - last_session_update v' \<le> 100 + d)"
  using assms
proof (induction ts arbitrary: v s)
  case (Cons t ts)
  show ?case
  proof (cases "t_stop t")
    case True
    then show ?thesis using Cons.prems by (simp add: main_turn_def)
  next
    case False
    obtain r v1 s1 where t: "main_turn t (v, s) = Some (r, v1, s1)" "rt_ok s1" "ttls_positive s1" "on_time v1 s1"
      "nd_current_time s - last_session_update v1 \<le> 100" "nd_current_time s1 = (if r = None then t_now t else nd_current_time s)"
      using turn_on_time [OF Cons.prems(1-3), of t] Cons.prems(5,6) False by auto
    have near: "nd_current_time s1 - last_session_update v1 \<le> 100 + d" using t(5,6) Cons.prems(6,7) by (simp split: if_splits)
    show ?thesis
    proof (cases r)
      case None
      then have "\<exists>r v' s'. main_loop ts (v1, s1) = Some (r, v', s') \<and> on_time v' s' \<and>
         (h_session s' = Map.empty \<or> nd_current_time s' - last_session_update v' \<le> 100 + d)"
        using Cons.prems(5-7) t(6) near by (intro Cons.IH [OF t(2-4)]) simp_all
      then show ?thesis using t(1) None by simp
    qed (use t near in simp)
  qed
qed simp

lemma wire_reqs_iff:
  "e \<in> set (wire_reqs s ip up q) \<longleftrightarrow>
     (\<exists>x i r. e = host_route (s_tgt x) (if_index i) (r_table r) \<and> up \<and> h_session s q = Some x \<and> s_iface x = Some ip \<and> s_state x = ND_STATE_VALID \<and>
        \<not> s_autowired x \<and> h_iface s ip = Some i \<and> if_up i \<and> h_rule s (s_rule x) = Some r \<and> r_autowire r)"
  (is "?l \<longleftrightarrow> ?r")
proof
  assume l: ?l
  have ne: "wire_reqs s ip up q \<noteq> []" using l by auto
  obtain x i r where c: "h_session s q = Some x" "up" "s_iface x = Some ip" "s_state x = ND_STATE_VALID" "\<not> s_autowired x"
      "h_iface s ip = Some i" "if_up i" "h_rule s (s_rule x) = Some r" "r_autowire r"
    using ne unfolding wire_reqs_def by (simp split: option.splits if_splits)
  then have "wire_reqs s ip up q = [host_route (s_tgt x) (if_index i) (r_table r)]" by (simp add: wire_reqs_def)
  with l have "e = host_route (s_tgt x) (if_index i) (r_table r)" by simp
  with c show ?r by blast
next
  assume ?r
  then obtain x i r where e: "e = host_route (s_tgt x) (if_index i) (r_table r)" and c: "up" "h_session s q = Some x" "s_iface x = Some ip"
    "s_state x = ND_STATE_VALID" "\<not> s_autowired x" "h_iface s ip = Some i" "if_up i" "h_rule s (s_rule x) = Some r" "r_autowire r" by blast
  have "wire_reqs s ip up q = [host_route (s_tgt x) (if_index i) (r_table r)]" using c by (simp add: wire_reqs_def)
  with e show ?l by simp
qed

subsection \<open>Properties\<close>


text \<open>A kernel that has replaced \<open>eth1\<close> by a new interface of the same name.\<close>

definition changed_kernel :: kernel where
  "changed_kernel = sample_kernel\<lparr>if_nametoindex := (\<lambda>nm. if nm = ''eth1'' then Inr 7 else Inl ENODEV),
     siocgifhwaddr := (\<lambda>nm. Some (Nd_lladdr 2 0 0 0 0 7))\<rparr>"


text \<open>
  C7: when an interface goes down, every session on it forgets that it installed a route (the kernel has dropped it) and nothing is sent;
  when it comes up, the route of exactly those VALID sessions on it that have none and whose rule has autowire is installed
  again.  No other session changes, and of these only the mark changes.
\<close>

theorem interface_change_rewires:
  assumes "daemon_inv s"
  shows "\<exists>s' new. nd_session_iface_changed ip up s = Some s' \<and> daemon_inv s' \<and>
     (\<forall>q. h_session s' q = map_option (wired s ip up) (h_session s q)) \<and> out s' = out s @ new \<and>
     set new = {host_route (s_tgt x) (if_index i) (r_table r) |q x i r.
       up \<and> h_session s q = Some x \<and> s_iface x = Some ip \<and> s_state x = ND_STATE_VALID \<and> \<not> s_autowired x \<and>
       h_iface s ip = Some i \<and> if_up i \<and> h_rule s (s_rule x) = Some r \<and> r_autowire r}"
proof -
  obtain s' where s': "nd_session_iface_changed ip up s = Some s'" "daemon_inv s'"
    using rebind_step_changed [OF assms, of ip up] by (auto simp: rebind_step_def)
  obtain new where new: "out s' = out s @ new" "set new = (\<Union>q. set (wire_reqs s ip up q))"
    using iface_changed_out [OF assms s'(1)] by blast
  have "set new = {host_route (s_tgt x) (if_index i) (r_table r) |q x i r.
       up \<and> h_session s q = Some x \<and> s_iface x = Some ip \<and> s_state x = ND_STATE_VALID \<and> \<not> s_autowired x \<and>
       h_iface s ip = Some i \<and> if_up i \<and> h_rule s (s_rule x) = Some r \<and> r_autowire r}"
    using wire_reqs_iff [of _ s ip up] unfolding new(2) by blast
  with s' new(1) iface_changed_effect(2) [OF assms s'(1)] show ?thesis by blast
qed

theorem interface_change_rewires_witness:
  "\<exists>s' new. nd_session_iface_changed 3 False (sample_as ND_STATE_VALID 990000) = Some s' \<and>
     out s' = out (sample_as ND_STATE_VALID 990000) @ new \<and> new = []"
  using interface_change_rewires [OF sample_as_inv, of 3 False ND_STATE_VALID 990000] by auto

text \<open>The request that removes a route.\<close>

definition unroute :: "nd_addr \<Rightarrow> nat \<Rightarrow> nat \<Rightarrow> effect" where
  "unroute dst pflen table =
     RouteReq \<lparr>nlmsg_type = 25, nlmsg_flags = 1, rtm_protocol = RTPROT_NDPPD, rtm_family = 10, rtm_dst_len = pflen mod 256,
               rtm_table = table mod 256, rtm_scope = 0, rta_oif = None, rta_dst = dst\<rparr>"

lemma querying_stays:
  assumes "\<not> querying_routes w" "main_turn t (w, u) = Some (r, w', u')"
  shows "\<not> querying_routes w'"
proof (cases "t_stop t")
  case False
  obtain w1 u1 where d: "dump_check w u = (w1, u1)" "\<not> querying_routes w1"
    using assms(1) by (cases "dump_check w u") (auto simp: dump_check_def Let_def split: if_splits)
  obtain w2 u2 where s: "session_check w1 u1 = Some (w2, u2)" using assms(2) False d by (auto simp: main_turn_def bind_eq_Some_conv)
  then have "\<not> querying_routes w2" using d(2) by (auto simp: session_check_def bind_eq_Some_conv split: if_splits)
  moreover obtain w3 u3 where i: "iface_check (t_kernel t) w2 u2 = Some (w3, u3)"
    using assms(2) False d s by (auto simp: main_turn_def bind_eq_Some_conv)
  ultimately have "\<not> querying_routes w3" by (auto simp: iface_check_def bind_eq_Some_conv split: if_splits)
  then show ?thesis using assms(2) False d s i by (auto simp: main_turn_def bind_eq_Some_conv split: if_splits)
qed (use assms in \<open>simp add: main_turn_def\<close>)


definition sample_leftover :: nd_rt_route where
  "sample_leftover = \<lparr>rt_dst = sample_target, rt_oif = 3, rt_pflen = 128, rt_table = 254, rt_owned = True\<rparr>"


end
