(* ===== verification/Libc_Text.thy ===== *)
theory Libc_Text
  imports Addr
begin

text \<open>
  The text functions of the C library that \<^verbatim>\<open>src/conf.c\<close> and \<^verbatim>\<open>src/ndppd.c\<close> use: character classes in the C locale, decimal
  numbers, IPv6 addresses (\<open>inet_pton\<close>) and link-layer addresses (\<open>ether_aton\<close>), as glibc reads them.  A C string is the
  list of its characters before the terminating NUL.
\<close>

subsection \<open>Characters\<close>

definition ord :: "char \<Rightarrow> nat" where
  "ord c = of_char c"

definition isspace :: "char \<Rightarrow> bool" where
  "isspace c \<longleftrightarrow> ord c = 32 \<or> 9 \<le> ord c \<and> ord c \<le> 13"

definition isdigit :: "char \<Rightarrow> bool" where
  "isdigit c \<longleftrightarrow> 48 \<le> ord c \<and> ord c \<le> 57"

definition isalpha :: "char \<Rightarrow> bool" where
  "isalpha c \<longleftrightarrow> 65 \<le> ord c \<and> ord c \<le> 90 \<or> 97 \<le> ord c \<and> ord c \<le> 122"

definition isalnum :: "char \<Rightarrow> bool" where
  "isalnum c \<longleftrightarrow> isalpha c \<or> isdigit c"

definition isxdigit :: "char \<Rightarrow> bool" where
  "isxdigit c \<longleftrightarrow> isdigit c \<or> 65 \<le> ord c \<and> ord c \<le> 70 \<or> 97 \<le> ord c \<and> ord c \<le> 102"

definition digit_value :: "char \<Rightarrow> nat" where
  "digit_value c = ord c - 48"

definition hex_value :: "char \<Rightarrow> nat" where
  "hex_value c = (if isdigit c then ord c - 48 else if 97 \<le> ord c then ord c - 87 else ord c - 55)"

text \<open>What a string function sees of a buffer, and \<open>strchr\<close>, which also finds the terminator.\<close>

definition cstr :: "string \<Rightarrow> string" where
  "cstr b = takeWhile (\<lambda>c. c \<noteq> CHR 0x00) b"

definition strchr :: "string \<Rightarrow> char \<Rightarrow> bool" where
  "strchr valid c \<longleftrightarrow> c \<in> set valid \<or> c = CHR 0x00"

subsection \<open>Numbers\<close>

definition decimal :: "string \<Rightarrow> int" where
  "decimal ds = fold (\<lambda>c n. 10 * n + int (digit_value c)) ds 0"

text \<open>
  \<open>strtoll\<close> in base 10: white space, a sign, digits.  The value saturates; the second component is what follows the number,
  the whole string when there is none.
\<close>

definition strtoll :: "string \<Rightarrow> int \<times> string" where
  "strtoll str =
     (let t = dropWhile isspace str;
          neg = (t \<noteq> [] \<and> hd t = CHR ''-'');
          u = (if t \<noteq> [] \<and> (hd t = CHR ''-'' \<or> hd t = CHR ''+'') then tl t else t);
          ds = takeWhile isdigit u;
          n = (if neg then - decimal ds else decimal ds)
      in if ds = [] then (0, str) else (max (- (2 ^ 63)) (min (2 ^ 63 - 1) n), dropWhile isdigit u))"

text \<open>
  \<open>strtoul\<close> in base 10, on a 64-bit \<^verbatim>\<open>unsigned long\<close>: the value, what follows the number, and whether the value was out of
  range.
\<close>

definition strtoul :: "string \<Rightarrow> nat \<times> string \<times> bool" where
  "strtoul str =
     (let t = dropWhile isspace str;
          neg = (t \<noteq> [] \<and> hd t = CHR ''-'');
          u = (if t \<noteq> [] \<and> (hd t = CHR ''-'' \<or> hd t = CHR ''+'') then tl t else t);
          ds = takeWhile isdigit u;
          n = nat (decimal ds)
      in if ds = [] then (0, str, False)
         else if n \<ge> 2 ^ 64 then (2 ^ 64 - 1, dropWhile isdigit u, True)
         else (if neg then (2 ^ 64 - n) mod 2 ^ 64 else n, dropWhile isdigit u, False))"

text \<open>
  The pieces in which \<open>fgets\<close> with a buffer of \<open>len\<close> bytes returns a file: up to a newline, which is kept, but at most
  \<open>len - 1\<close> characters.
\<close>

definition fgets_length :: "nat \<Rightarrow> string \<Rightarrow> nat" where
  "fgets_length len txt =
     (let k = length (takeWhile (\<lambda>c. c \<noteq> CHR 0x0A) txt) in min (len - 1) (if k < length txt then Suc k else k))"

lemma fgets_length_pos:
  assumes "txt \<noteq> []" "2 \<le> len"
  shows "0 < fgets_length len txt"
proof -
  have "0 < length txt" using assms(1) by simp
  then have "0 < (let k = length (takeWhile (\<lambda>c. c \<noteq> CHR 0x0A) txt) in if k < length txt then Suc k else k)"
    unfolding Let_def by (simp only: split: if_split) linarith
  then show ?thesis using assms(2) by (simp add: fgets_length_def Let_def)
qed

function fgets_lines :: "nat \<Rightarrow> string \<Rightarrow> string list" where
  "fgets_lines len txt =
     (if txt = [] \<or> len < 2 then []
      else take (fgets_length len txt) txt # fgets_lines len (drop (fgets_length len txt) txt))"
  by pat_completeness auto
termination
  by (relation "measure (\<lambda>(len, txt). length txt)") (use fgets_length_pos in \<open>auto simp: not_less\<close>)

subsection \<open>IPv6 addresses\<close>

text \<open>
  \<open>inet_pton4\<close>: the octets before the current one, the current one and whether it has a digit.  No octet has a leading
  zero or exceeds 255.
\<close>

fun inet_pton4 :: "string \<Rightarrow> nat list \<Rightarrow> nat \<Rightarrow> bool \<Rightarrow> nat list option" where
  "inet_pton4 [] ds cur saw = (if saw \<and> length ds = 3 then Some (ds @ [cur]) else None)"
| "inet_pton4 (c # cs) ds cur saw =
     (if isdigit c then
        (if saw \<and> cur = 0 \<or> cur * 10 + digit_value c > 255 then None
         else inet_pton4 cs ds (cur * 10 + digit_value c) True)
      else if c = CHR ''.'' \<and> saw \<and> length ds < 3 then inet_pton4 cs (ds @ [cur]) 0 False
      else None)"

text \<open>
  The loop of \<open>inet_pton6\<close>: the text from the current token on, the bytes written, where \<open>::\<close> was seen, and the digits
  and the value of the current group.
\<close>

fun pton6_loop :: "string \<Rightarrow> string \<Rightarrow> nat list \<Rightarrow> nat option \<Rightarrow> nat \<Rightarrow> nat \<Rightarrow> (nat list \<times> nat option \<times> nat \<times> nat) option" where
  "pton6_loop [] tok tp colon seen val = Some (tp, colon, seen, val)"
| "pton6_loop (c # cs) tok tp colon seen val =
     (if isxdigit c then
        (if seen = 4 then None else pton6_loop cs tok tp colon (Suc seen) (val * 16 + hex_value c))
      else if c = CHR '':'' then
        (if seen = 0 then (if colon \<noteq> None then None else pton6_loop cs cs tp (Some (length tp)) 0 val)
         else if cs = [] \<or> length tp + 2 > 16 then None
         else pton6_loop cs cs (tp @ [val div 256, val mod 256]) colon 0 0)
      else if c = CHR ''.'' \<and> length tp + 4 \<le> 16 then
        (case inet_pton4 tok [] 0 False of None \<Rightarrow> None | Some q \<Rightarrow> Some (tp @ q, colon, 0, 0))
      else None)"

definition pton6_finish :: "nat list \<times> nat option \<times> nat \<times> nat \<Rightarrow> nat list option" where
  "pton6_finish r =
     (case r of (tp, colon, seen, val) \<Rightarrow>
        if seen > 0 \<and> length tp + 2 > 16 then None
        else
          (let tp' = (if seen > 0 then tp @ [val div 256, val mod 256] else tp) in
           case colon of
             None \<Rightarrow> if length tp' = 16 then Some tp' else None
           | Some k \<Rightarrow> if length tp' = 16 then None
                       else Some (take k tp' @ replicate (16 - length tp') 0 @ drop k tp')))"

definition inet_pton :: "string \<Rightarrow> nd_addr option" where
  "inet_pton str =
     (case str of
        [] \<Rightarrow> None
      | c # cs \<Rightarrow>
          if c = CHR '':'' \<and> (cs = [] \<or> hd cs \<noteq> CHR '':'') then None
          else
            (let src = (if c = CHR '':'' then cs else str) in
             case pton6_loop src src [] None 0 0 of
               None \<Rightarrow> None
             | Some r \<Rightarrow> map_option (\<lambda>bs. addr_of_bytes LittleEndian (map of_nat bs)) (pton6_finish r)))"

subsection \<open>Link-layer addresses\<close>

text \<open>
  \<open>ether_aton\<close>: six groups of one or two hexadecimal digits.  What follows the second digit of the last group is not looked
  at.
\<close>

fun aton_loop :: "nat \<Rightarrow> string \<Rightarrow> nat list \<Rightarrow> nat list option" where
  "aton_loop 0 cs bs = Some bs"
| "aton_loop (Suc n) [] bs = None"
| "aton_loop (Suc n) (c # cs) bs =
     (if \<not> isxdigit c then None
      else case cs of
        [] \<Rightarrow> if n = 0 then Some (bs @ [hex_value c]) else None
      | d # ds \<Rightarrow>
          if n > 0 \<and> d = CHR '':'' then aton_loop n ds (bs @ [hex_value c])
          else if n = 0 \<and> isspace d then Some (bs @ [hex_value c])
          else if \<not> isxdigit d then None
          else if n = 0 then Some (bs @ [hex_value c * 16 + hex_value d])
          else if ds \<noteq> [] \<and> hd ds = CHR '':'' then aton_loop n (tl ds) (bs @ [hex_value c * 16 + hex_value d])
          else None)"

definition ether_aton :: "string \<Rightarrow> nd_lladdr option" where
  "ether_aton str = map_option (\<lambda>bs. lladdr_of_bytes (map of_nat bs)) (aton_loop 6 str [])"

end
