(* ===== verification/Conf.thy ===== *)
theory Conf
  imports Proxy Libc_Text
begin

text \<open>
  The configuration parser of \<^verbatim>\<open>src/conf.c\<close>, on the bytes of the file.  A parsing function gives \<open>None\<close> where the C code would
  read outside the file or write outside a buffer; otherwise \<open>Inl\<close> an error, after which the daemon exits, or
  \<open>Inr\<close> the new position and what was read.  The blocks of the file nest three deep (file, proxy, rule); the loop over the
  entries of a block, which calls itself for the inner block in C, is one definition over the callback of the entries.
\<close>

subsection \<open>State\<close>

record conf_state = session_state +
  nd_conf_renew :: int

record ndL_state =
  cf_data :: string
  cf_offset :: nat
  cf_length :: nat
  cf_line :: int
  cf_column :: int

datatype cf_scope = NDL_DEFAULT | NDL_PROXY | NDL_RULE

datatype cf_type = NDL_NONE | NDL_INT | NDL_BOOL | NDL_ADDR | NDL_NAME | NDL_LLADDR

text \<open>The variables and fields an entry can set, where the table has their addresses and offsets.\<close>

datatype cf_field =
    F_none | F_invalid_ttl | F_valid_ttl | F_renew | F_retrans_limit | F_retrans_time | F_keepalive
  | F_router | F_promiscuous | F_proxy_target | F_rule_target | F_autowire | F_table

datatype cf_cb = CB_parse_proxy | CB_parse_rule | CB_parse_rewrite | CB_parse_mode

record ndL_cfinfo =
  ci_key :: string
  ci_scope :: cf_scope
  ci_type :: cf_type
  ci_field :: cf_field
  ci_min :: int
  ci_max :: int
  ci_cb :: "cf_cb option"

definition cfinfo :: "string \<Rightarrow> cf_scope \<Rightarrow> cf_type \<Rightarrow> cf_field \<Rightarrow> int \<Rightarrow> int \<Rightarrow> cf_cb option \<Rightarrow> ndL_cfinfo" where
  "cfinfo key scope ty field mn mx cb =
     \<lparr>ci_key = key, ci_scope = scope, ci_type = ty, ci_field = field, ci_min = mn, ci_max = mx, ci_cb = cb\<rparr>"

definition ndL_cfinfo_table :: "ndL_cfinfo list" where
  "ndL_cfinfo_table =
    [cfinfo ''proxy'' NDL_DEFAULT NDL_NONE F_none 0 0 (Some CB_parse_proxy),
     cfinfo ''rule'' NDL_PROXY NDL_NONE F_none 0 0 (Some CB_parse_rule),
     cfinfo ''rewrite'' NDL_RULE NDL_NONE F_none 0 0 (Some CB_parse_rewrite),
     cfinfo ''invalid-ttl'' NDL_DEFAULT NDL_INT F_invalid_ttl 1000 3600000 None,
     cfinfo ''valid-ttl'' NDL_DEFAULT NDL_INT F_valid_ttl 10000 3600000 None,
     cfinfo ''renew'' NDL_DEFAULT NDL_INT F_renew 0 0 None,
     cfinfo ''retrans-limit'' NDL_DEFAULT NDL_INT F_retrans_limit 0 10 None,
     cfinfo ''retrans-time'' NDL_DEFAULT NDL_INT F_retrans_time 0 60000 None,
     cfinfo ''keepalive'' NDL_DEFAULT NDL_BOOL F_keepalive 0 0 None,
     cfinfo ''router'' NDL_PROXY NDL_BOOL F_router 0 0 None,
     cfinfo ''promiscuous'' NDL_PROXY NDL_BOOL F_promiscuous 0 0 None,
     cfinfo ''auto'' NDL_RULE NDL_NONE F_none 0 0 (Some CB_parse_mode),
     cfinfo ''static'' NDL_RULE NDL_NONE F_none 0 0 (Some CB_parse_mode),
     cfinfo ''autowire'' NDL_RULE NDL_BOOL F_autowire 0 0 None,
     cfinfo ''iface'' NDL_RULE NDL_NONE F_none 0 0 (Some CB_parse_mode),
     cfinfo ''target'' NDL_PROXY NDL_LLADDR F_proxy_target 0 0 None,
     cfinfo ''target'' NDL_RULE NDL_LLADDR F_rule_target 0 0 None,
     cfinfo ''table'' NDL_RULE NDL_INT F_table 0 255 None]"

datatype conf_error =
    Unreadable | Invalid_address | Expected_address | Expected_prefix | Mode_missing | Autowire_mode | Expected_ifname | Proxy_exists
  | Modes_exclusive | Expected_block | Unexpected_end | Expected_end | Expected_key | Expected_boolean | Expected_integer
  | Expected_lladdr | Expected_identifier | Expected_separator | Invalid_configuration

type_synonym 'x parsed = "(conf_error + ndL_state \<times> 'x) option"

subsection \<open>Characters and words\<close>

definition cf_char :: "ndL_state \<Rightarrow> char option" where
  "cf_char st = (if cf_offset st < length (cf_data st) then Some (cf_data st ! cf_offset st) else None)"

definition cf_next :: "ndL_state \<Rightarrow> ndL_state" where
  "cf_next st = st\<lparr>cf_offset := cf_offset st + 1, cf_column := cf_column st + 1\<rparr>"

definition ndL_eof :: "ndL_state \<Rightarrow> bool" where
  "ndL_eof st \<longleftrightarrow> cf_offset st \<ge> cf_length st"

function skip_loop :: "bool \<Rightarrow> ndL_state \<Rightarrow> ndL_state option" where
  "skip_loop comment st =
     (if cf_offset st < cf_length st then do {
        c \<leftarrow> cf_char st;
        let comment' = (comment \<or> c = CHR ''#'');
        if c = CHR 0x0A \<or> (\<not> comment' \<and> \<not> isspace c) then Some st
        else skip_loop comment' (cf_next st)
      } else Some st)"
  by pat_completeness auto
termination
  by (relation "measure (\<lambda>(comment, st). cf_length st - cf_offset st)") (auto simp: cf_next_def)

definition ndL_skip :: "ndL_state \<Rightarrow> ndL_state option" where
  "ndL_skip st = skip_loop False st"

text \<open>\<open>ndL_accept\<close> returns NUL when it did not accept, and also when it accepted a NUL.\<close>

definition ndL_accept :: "ndL_state \<Rightarrow> string \<Rightarrow> (char \<times> ndL_state) option" where
  "ndL_accept st valid =
     (if cf_offset st \<ge> cf_length st then Some (CHR 0x00, st)
      else do {
        c \<leftarrow> cf_char st;
        if \<not> strchr valid c then Some (CHR 0x00, st)
        else Some (c, if c = CHR 0x0A
                      then st\<lparr>cf_offset := cf_offset st + 1, cf_column := 1, cf_line := cf_line st + 1\<rparr>
                      else cf_next st)
      })"

text \<open>
  The loop that \<open>ndL_accept_int\<close>, \<open>ndL_accept_addr\<close> and \<open>ndL_accept_lladdr\<close> share: copy the characters of a class to a
  buffer of 64 bytes.
\<close>

function copy_loop :: "(char \<Rightarrow> bool) \<Rightarrow> ndL_state \<Rightarrow> string \<Rightarrow> (ndL_state \<times> string) option" where
  "copy_loop ok tmp buf =
     (if length buf < 64 \<and> cf_offset tmp < cf_length tmp then do {
        c \<leftarrow> cf_char tmp;
        if \<not> ok c then Some (tmp, buf)
        else copy_loop ok (cf_next tmp) (buf @ [c])
      } else Some (tmp, buf))"
  by pat_completeness auto
termination
  by (relation "measure (\<lambda>(ok, tmp, buf). cf_length tmp - cf_offset tmp)") (auto simp: cf_next_def)

definition ndL_accept_int :: "ndL_state \<Rightarrow> int \<Rightarrow> int \<Rightarrow> (ndL_state \<times> int) option option" where
  "ndL_accept_int st mn mx = do {
     (tmp, buf) \<leftarrow> copy_loop (\<lambda>c. isdigit c \<or> c = CHR ''-'') st [];
     if length buf = 64 \<or> cf_offset tmp = cf_offset st then Some None
     else do {
       require (length buf < 64);
       let (v, endptr) = strtoll buf;
       if endptr \<noteq> [] \<or> v > mx \<or> v < mn then Some None else Some (Some (tmp, v))
     }
   }"

definition ndL_accept_addr :: "ndL_state \<Rightarrow> (ndL_state \<times> nd_addr) option option" where
  "ndL_accept_addr st = do {
     (tmp, buf) \<leftarrow> copy_loop (\<lambda>c. isxdigit c \<or> c = CHR ''.'' \<or> c = CHR '':'') st [];
     if length buf = 64 \<or> cf_offset tmp = cf_offset st then Some None
     else do {
       require (length buf < 64);
       Some (map_option (\<lambda>a. (tmp, a)) (inet_pton buf))
     }
   }"

definition ndL_accept_lladdr :: "ndL_state \<Rightarrow> (ndL_state \<times> nd_lladdr) option option" where
  "ndL_accept_lladdr st = do {
     (tmp, buf) \<leftarrow> copy_loop (\<lambda>c. isxdigit c \<or> c = CHR '':'') st [];
     if length buf = 64 \<or> cf_offset tmp = cf_offset st then Some None
     else do {
       require (length buf < 64);
       Some (map_option (\<lambda>a. (tmp, a)) (ether_aton buf))
     }
   }"

text \<open>
  The loop of \<open>ndL_accept_name\<close>: \<open>cap\<close> is the size of the caller's buffer, \<open>room\<close> what the loop believes is left of it.  A
  character is written behind those written so far, which has to be inside the buffer.
\<close>

definition name_valid :: string where
  "name_valid = ''$-_.''"

function name_loop :: "nat \<Rightarrow> nat \<Rightarrow> nat \<Rightarrow> ndL_state \<Rightarrow> string \<Rightarrow> (nat \<times> ndL_state \<times> string) option" where
  "name_loop cap start room tmp str =
     (if room > 1 \<and> cf_offset tmp < cf_length tmp then do {
        c \<leftarrow> cf_char tmp;
        if cf_offset tmp = start \<and> \<not> isalpha c \<or> cf_offset tmp > start \<and> \<not> isalnum c \<and> \<not> strchr name_valid c
        then Some (room, tmp, str)
        else do {
          require (length str < cap);
          name_loop cap start (room - 1) (cf_next tmp) (str @ [c])
        }
      } else Some (room, tmp, str))"
  by pat_completeness auto
termination
  by (relation "measure (\<lambda>(cap, start, room, tmp, str). cf_length tmp - cf_offset tmp)") (auto simp: cf_next_def)

definition ndL_accept_name :: "ndL_state \<Rightarrow> nat \<Rightarrow> (ndL_state \<times> string) option option" where
  "ndL_accept_name st cap = do {
     (room, tmp, str) \<leftarrow> name_loop cap (cf_offset st) cap st [];
     if cf_offset tmp = cf_offset st then Some None
     else do {
       truncated \<leftarrow> (if room \<le> 1 \<and> cf_offset tmp < cf_length tmp
                      then do { c \<leftarrow> cf_char tmp; Some (isalnum c \<or> strchr name_valid c) } else Some False);
       if truncated then Some None
       else do {
         require (length str < cap);
         Some (Some (tmp, cstr str))
       }
     }
   }"

definition ndL_accept_bool :: "ndL_state \<Rightarrow> (ndL_state \<times> bool) option option" where
  "ndL_accept_bool st = do {
     r \<leftarrow> ndL_accept_name st 16;
     case r of
       None \<Rightarrow> Some (Some (st, True))
     | Some (tmp, buf) \<Rightarrow>
         if buf = ''yes'' \<or> buf = ''true'' then Some (Some (tmp, True))
         else if buf = ''no'' \<or> buf = ''false'' then Some (Some (tmp, False))
         else Some None
   }"

subsection \<open>Values\<close>

definition set_int :: "cf_field \<Rightarrow> ptr \<Rightarrow> int \<Rightarrow> conf_state \<Rightarrow> conf_state option" where
  "set_int f p v s =
     (case f of
        F_invalid_ttl \<Rightarrow> Some (s\<lparr>nd_conf_invalid_ttl := v\<rparr>)
      | F_valid_ttl \<Rightarrow> Some (s\<lparr>nd_conf_valid_ttl := v\<rparr>)
      | F_renew \<Rightarrow> Some (s\<lparr>nd_conf_renew := v\<rparr>)
      | F_retrans_limit \<Rightarrow> Some (s\<lparr>nd_conf_retrans_limit := v\<rparr>)
      | F_retrans_time \<Rightarrow> Some (s\<lparr>nd_conf_retrans_time := v\<rparr>)
      | F_table \<Rightarrow> do { r \<leftarrow> h_rule s p; Some (s\<lparr>h_rule := (h_rule s)(p \<mapsto> r\<lparr>r_table := nat v\<rparr>)\<rparr>) }
      | _ \<Rightarrow> None)"

definition set_bool :: "cf_field \<Rightarrow> ptr \<Rightarrow> bool \<Rightarrow> conf_state \<Rightarrow> conf_state option" where
  "set_bool f p v s =
     (case f of
        F_keepalive \<Rightarrow> Some (s\<lparr>nd_conf_keepalive := v\<rparr>)
      | F_router \<Rightarrow> do { x \<leftarrow> h_proxy s p; Some (s\<lparr>h_proxy := (h_proxy s)(p \<mapsto> x\<lparr>p_router := v\<rparr>)\<rparr>) }
      | F_promiscuous \<Rightarrow> do { x \<leftarrow> h_proxy s p; Some (s\<lparr>h_proxy := (h_proxy s)(p \<mapsto> x\<lparr>p_promiscuous := v\<rparr>)\<rparr>) }
      | F_autowire \<Rightarrow> do { r \<leftarrow> h_rule s p; Some (s\<lparr>h_rule := (h_rule s)(p \<mapsto> r\<lparr>r_autowire := v\<rparr>)\<rparr>) }
      | _ \<Rightarrow> None)"

definition set_lladdr :: "cf_field \<Rightarrow> ptr \<Rightarrow> nd_lladdr \<Rightarrow> conf_state \<Rightarrow> conf_state option" where
  "set_lladdr f p v s =
     (case f of
        F_proxy_target \<Rightarrow> do { x \<leftarrow> h_proxy s p; Some (s\<lparr>h_proxy := (h_proxy s)(p \<mapsto> x\<lparr>p_target := v\<rparr>)\<rparr>) }
      | F_rule_target \<Rightarrow> do { r \<leftarrow> h_rule s p; Some (s\<lparr>h_rule := (h_rule s)(p \<mapsto> r\<lparr>r_target := v\<rparr>)\<rparr>) }
      | _ \<Rightarrow> None)"

text \<open>
  The switch on the type of an entry.  No entry of the table has an address or a name as its value, so those two
  branches have no field to write to.
\<close>

definition store :: "('v \<Rightarrow> conf_state \<Rightarrow> conf_state option) \<Rightarrow> conf_error \<Rightarrow> (ndL_state \<times> 'v) option option \<Rightarrow> conf_state \<Rightarrow> conf_state parsed" where
  "store set_field e res s = do {
     r \<leftarrow> res;
     case r of
       None \<Rightarrow> Some (Inl e)
     | Some (st, v) \<Rightarrow> do { s' \<leftarrow> set_field v s; Some (Inr (st, s')) }
   }"

definition accept_value :: "ndL_cfinfo \<Rightarrow> ptr \<Rightarrow> ndL_state \<Rightarrow> conf_state \<Rightarrow> conf_state parsed" where
  "accept_value t p st s =
     (case ci_type t of
        NDL_NONE \<Rightarrow> Some (Inr (st, s))
      | NDL_BOOL \<Rightarrow> store (set_bool (ci_field t) p) Expected_boolean (ndL_accept_bool st) s
      | NDL_INT \<Rightarrow> store (set_int (ci_field t) p) Expected_integer (ndL_accept_int st (ci_min t) (ci_max t)) s
      | NDL_ADDR \<Rightarrow> store (\<lambda>_ _. None) Expected_address (ndL_accept_addr st) s
      | NDL_NAME \<Rightarrow> store (\<lambda>_ _. None) Expected_identifier (ndL_accept_name st (nat (ci_max t))) s
      | NDL_LLADDR \<Rightarrow> store (set_lladdr (ci_field t) p) Expected_lladdr (ndL_accept_lladdr st) s)"

subsection \<open>Blocks\<close>

text \<open>
  The callback of an entry gets the entry, the pointer of the block, the position and the state.  One turn of the loop
  over the entries of a block ends the loop (\<open>Inr (Inr _)\<close>), goes on (\<open>Inr (Inl _)\<close>) or fails.
\<close>

type_synonym callback = "cf_cb \<Rightarrow> ndL_cfinfo \<Rightarrow> ptr \<Rightarrow> ndL_state \<Rightarrow> conf_state \<Rightarrow> conf_state parsed"

definition run_entry :: "callback \<Rightarrow> ndL_cfinfo \<Rightarrow> ptr \<Rightarrow> ndL_state \<Rightarrow> conf_state \<Rightarrow> conf_state parsed" where
  "run_entry cb t p st s = do {
     v \<leftarrow> accept_value t p st s;
     case v of
       Inl e \<Rightarrow> Some (Inl e)
     | Inr (st1, s1) \<Rightarrow>
         (case ci_cb t of
            None \<Rightarrow> Some (Inr (st1, s1))
          | Some c \<Rightarrow> do { st2 \<leftarrow> ndL_skip st1; cb c t p st2 s1 })
   }"

definition end_entry :: "ndL_state \<Rightarrow> (ndL_state \<times> bool) option" where
  "end_entry st = do {
     st1 \<leftarrow> ndL_skip st;
     if ndL_eof st1 then Some (st1, True)
     else do { c \<leftarrow> cf_char st1; Some (st1, c = CHR ''}'' \<or> c = CHR 0x0A) }
   }"

definition block_turn ::
  "callback \<Rightarrow> cf_scope \<Rightarrow> ptr \<Rightarrow> ndL_state \<times> conf_state \<Rightarrow>
   (conf_error + ((ndL_state \<times> conf_state) + (ndL_state \<times> conf_state))) option" where
  "block_turn cb scope p x = do {
     let (st, s) = x;
     st1 \<leftarrow> ndL_skip st;
     (c, st2) \<leftarrow> ndL_accept st1 [CHR 0x0A, CHR ''}''];
     if c = CHR ''}'' then Some (if scope = NDL_DEFAULT then Inl Unexpected_end else Inr (Inr (st2, s)))
     else if c = CHR 0x0A then Some (Inr (Inl (st2, s)))
     else if ndL_eof st2 then Some (if scope \<noteq> NDL_DEFAULT then Inl Expected_end else Inr (Inr (st2, s)))
     else do {
       k \<leftarrow> ndL_accept_name st2 32;
       case k of
         None \<Rightarrow> Some (Inl Expected_key)
       | Some (st3, key) \<Rightarrow> do {
           st4 \<leftarrow> ndL_skip st3;
           case find (\<lambda>t. ci_scope t = scope \<and> ci_key t = key) ndL_cfinfo_table of
             None \<Rightarrow> Some (Inl Invalid_configuration)
           | Some t \<Rightarrow> do {
               r \<leftarrow> run_entry cb t p st4 s;
               case r of
                 Inl e \<Rightarrow> Some (Inl e)
               | Inr (st5, s5) \<Rightarrow> do {
                   (st6, ok) \<leftarrow> end_entry st5;
                   Some (if ok then Inr (Inl (st6, s5)) else Inl Expected_separator)
                 }
             }
         }
     }
   }"

partial_function (option) block_loop ::
  "('x \<Rightarrow> ('e + ('x + 'y)) option) \<Rightarrow> 'x \<Rightarrow> ('e + 'y) option" where
  "block_loop body x = do {
     r \<leftarrow> body x;
     case r of
       Inl e \<Rightarrow> Some (Inl e)
     | Inr c \<Rightarrow> (case c of Inl x' \<Rightarrow> block_loop body x' | Inr y \<Rightarrow> Some (Inr y))
   }"

definition ndL_parse_block :: "callback \<Rightarrow> cf_scope \<Rightarrow> ptr \<Rightarrow> ndL_state \<Rightarrow> conf_state \<Rightarrow> conf_state parsed" where
  "ndL_parse_block cb scope p st s = do {
     st1 \<leftarrow> ndL_skip st;
     (open_ok, st2) \<leftarrow> (if scope \<noteq> NDL_DEFAULT
                        then do { (c, st') \<leftarrow> ndL_accept st1 ''{''; Some (c \<noteq> CHR 0x00, st') }
                        else Some (True, st1));
     if \<not> open_ok then Some (Inl Expected_block)
     else block_loop (block_turn cb scope p) (st2, s)
   }"

subsection \<open>Rules\<close>

text \<open>An optional prefix length, 128 when there is none.\<close>

definition accept_prefix :: "ndL_state \<Rightarrow> (ndL_state \<times> nat) option option" where
  "accept_prefix st = do {
     (c, st1) \<leftarrow> ndL_accept st ''/'';
     if c \<noteq> CHR 0x00 then do {
       r \<leftarrow> ndL_accept_int st1 0 128;
       Some (map_option (\<lambda>(st2, v). (st2, nat v)) r)
     } else Some (Some (st1, 128))
   }"

definition ndL_parse_rewrite :: "ndL_state \<Rightarrow> ptr \<Rightarrow> conf_state \<Rightarrow> conf_state parsed" where
  "ndL_parse_rewrite st rp s = do {
     a \<leftarrow> ndL_accept_addr st;
     case a of
       None \<Rightarrow> Some (Inl Invalid_address)
     | Some (st1, addr) \<Rightarrow> do {
         n \<leftarrow> accept_prefix st1;
         case n of
           None \<Rightarrow> Some (Inl Expected_prefix)
         | Some (st2, pflen) \<Rightarrow> do {
             r \<leftarrow> h_rule s rp;
             Some (Inr (st2, s\<lparr>h_rule := (h_rule s)(rp \<mapsto> r\<lparr>r_rewrite_tgt := addr, r_rewrite_pflen := pflen\<rparr>)\<rparr>))
           }
       }
   }"

definition ndL_parse_mode :: "ndL_state \<Rightarrow> ndL_cfinfo \<Rightarrow> ptr \<Rightarrow> conf_state \<Rightarrow> conf_state parsed" where
  "ndL_parse_mode st info rp s = do {
     r \<leftarrow> h_rule s rp;
     if r_mode r \<noteq> ND_MODE_UNKNOWN then Some (Inl Modes_exclusive)
     else if ci_key info = ''auto'' then Some (Inr (st, s\<lparr>h_rule := (h_rule s)(rp \<mapsto> r\<lparr>r_mode := ND_MODE_AUTO\<rparr>)\<rparr>))
     else if ci_key info = ''static'' then Some (Inr (st, s\<lparr>h_rule := (h_rule s)(rp \<mapsto> r\<lparr>r_mode := ND_MODE_STATIC\<rparr>)\<rparr>))
     else do {
       n \<leftarrow> ndL_accept_name st IF_NAMESIZE;
       case n of
         None \<Rightarrow> Some (Inl Expected_ifname)
       | Some (st1, nm) \<Rightarrow>
           Some (Inr (st1, s\<lparr>h_rule := (h_rule s)(rp \<mapsto> r\<lparr>r_ifname := nm, r_mode := ND_MODE_IFACE\<rparr>)\<rparr>))
     }
   }"

definition rule_cb :: callback where
  "rule_cb c t p st s =
     (case c of
        CB_parse_rewrite \<Rightarrow> ndL_parse_rewrite st p s
      | CB_parse_mode \<Rightarrow> ndL_parse_mode st t p s
      | _ \<Rightarrow> None)"

definition check_rule :: "ndL_state \<Rightarrow> ptr \<Rightarrow> conf_state \<Rightarrow> conf_state parsed" where
  "check_rule st rp s = do {
     r \<leftarrow> h_rule s rp;
     if r_mode r = ND_MODE_UNKNOWN then Some (Inl Mode_missing)
     else if r_autowire r \<and> r_mode r \<noteq> ND_MODE_IFACE then Some (Inl Autowire_mode)
     else Some (Inr (st, s))
   }"

definition ndL_parse_rule :: "ndL_state \<Rightarrow> ptr \<Rightarrow> conf_state \<Rightarrow> conf_state parsed" where
  "ndL_parse_rule st pp s = do {
     (rp, s1) \<leftarrow> nd_rule_create pp s;
     a \<leftarrow> ndL_accept_addr st;
     case a of
       None \<Rightarrow> Some (Inl Expected_address)
     | Some (st1, addr) \<Rightarrow> do {
         n \<leftarrow> accept_prefix st1;
         case n of
           None \<Rightarrow> Some (Inl Expected_prefix)
         | Some (st2, pflen) \<Rightarrow> do {
             r \<leftarrow> h_rule s1 rp;
             b \<leftarrow> ndL_parse_block rule_cb NDL_RULE rp st2
                   (s1\<lparr>h_rule := (h_rule s1)(rp \<mapsto> r\<lparr>r_addr := addr, r_prefix := pflen, r_table := 254\<rparr>)\<rparr>);
             case b of Inl e \<Rightarrow> Some (Inl e) | Inr (st3, s3) \<Rightarrow> check_rule st3 rp s3
           }
       }
   }"

subsection \<open>Proxies and the file\<close>

definition proxy_cb :: callback where
  "proxy_cb c t p st s = (case c of CB_parse_rule \<Rightarrow> ndL_parse_rule st p s | _ \<Rightarrow> None)"

definition ndL_parse_proxy :: "ndL_state \<Rightarrow> conf_state \<Rightarrow> conf_state parsed" where
  "ndL_parse_proxy st s = do {
     n \<leftarrow> ndL_accept_name st IF_NAMESIZE;
     case n of
       None \<Rightarrow> Some (Inl Expected_ifname)
     | Some (st1, ifname) \<Rightarrow> do {
         (proxy, s1) \<leftarrow> nd_proxy_create ifname s;
         case proxy of
           None \<Rightarrow> Some (Inl Proxy_exists)
         | Some pp \<Rightarrow> ndL_parse_block proxy_cb NDL_PROXY pp st1 s1
       }
   }"

definition default_cb :: callback where
  "default_cb c t p st s = (case c of CB_parse_proxy \<Rightarrow> ndL_parse_proxy st s | _ \<Rightarrow> None)"

text \<open>
  \<open>file\<close> is the contents of the file, \<open>None\<close> when it cannot be opened or read.  Reading an empty file as one block of
  zero bytes reads no block, so an empty file is an error too.
\<close>

definition nd_conf_load :: "string option \<Rightarrow> conf_state \<Rightarrow> (conf_error + conf_state) option" where
  "nd_conf_load file s =
     (case file of
        None \<Rightarrow> Some (Inl Unreadable)
      | Some buf \<Rightarrow>
          if buf = [] then Some (Inl Unreadable)
          else do {
            r \<leftarrow> ndL_parse_block default_cb NDL_DEFAULT 0
                  \<lparr>cf_data = buf, cf_offset = 0, cf_length = length buf, cf_line = 1, cf_column = 0\<rparr> s;
            case r of Inl e \<Rightarrow> Some (Inl e) | Inr (st, s') \<Rightarrow> Some (Inr s')
          })"

text \<open>The state the file is read into: nothing but the initial values of the variables.\<close>

definition initial_state :: "int \<Rightarrow> 32 word \<Rightarrow> conf_state" where
  "initial_state now seed =
    \<lparr>nd_current_time = now, out = [], ndL_routes = [], ndL_addrs = [], nd_rt_dump_timeout = 0,
     h_iface = Map.empty, ndL_first_iface = [], ndL_io = False, nd_iface_no_restore_flags = False, heap_next = 0,
     h_session = Map.empty, h_rule = Map.empty, h_proxy = Map.empty, ndL_proxies = [],
     ndL_sessions = replicate NDPPD_SESSION_BUCKETS [], ndL_sessions_r = replicate NDPPD_SESSION_BUCKETS [],
     ndL_session_count = 0, ndL_hash_seed = seed, nd_conf_invalid_ttl = 10000, nd_conf_valid_ttl = 30000,
     nd_conf_stale_ttl = 30000, nd_conf_retrans_limit = 3, nd_conf_retrans_time = 1000, nd_conf_keepalive = False,
     nd_conf_renew = 5000\<rparr>"

end
