(* ===== verification/Conf_Text.thy ===== *)
theory Conf_Text
  imports Conf
begin

text \<open>
  The reading functions of the configuration parser in terms of the text that is left to read: each implements a function on
  strings, never reads outside the file and never writes outside its buffer.
\<close>

subsection \<open>The text that is left\<close>

definition reads :: "string \<Rightarrow> ndL_state \<Rightarrow> string \<Rightarrow> bool" where
  "reads d st r \<longleftrightarrow> cf_data st = d \<and> cf_length st = length d \<and> cf_offset st \<le> length d \<and> drop (cf_offset st) d = r"

lemma reads_offset: "reads d st r \<Longrightarrow> cf_offset st = length d - length r \<and> length r \<le> length d"
  by (auto simp: reads_def)

lemma reads_same_offset: "reads d st r \<Longrightarrow> reads d st' r' \<Longrightarrow> cf_offset st' = cf_offset st \<longleftrightarrow> length r' = length r"
  using reads_offset [of d st r] reads_offset [of d st' r'] by arith

lemma reads_offset_less: "reads d st r \<Longrightarrow> reads d st' r' \<Longrightarrow> cf_offset st < cf_offset st' \<longleftrightarrow> length r' < length r"
  using reads_offset [of d st r] reads_offset [of d st' r'] by arith

lemma reads_eof: "reads d st r \<Longrightarrow> ndL_eof st \<longleftrightarrow> r = []"
  by (auto simp: reads_def ndL_eof_def)

lemma reads_more: "reads d st r \<Longrightarrow> cf_offset st < cf_length st \<longleftrightarrow> r \<noteq> []"
  by (auto simp: reads_def)

lemma reads_Cons:
  assumes "reads d st (c # r)"
  shows "cf_offset st < length d" "d ! cf_offset st = c" "drop (Suc (cf_offset st)) d = r"
proof -
  have e: "drop (cf_offset st) d = c # r" using assms by (simp add: reads_def)
  then show less: "cf_offset st < length d" by (metis drop_eq_Nil leI list.discI)
  from Cons_nth_drop_Suc [OF less] e show "d ! cf_offset st = c" "drop (Suc (cf_offset st)) d = r" by simp_all
qed

lemma reads_char: "reads d st (c # r) \<Longrightarrow> cf_char st = Some c"
  using reads_Cons [of d st c r] by (auto simp: reads_def cf_char_def)

lemma reads_next: "reads d st (c # r) \<Longrightarrow> reads d (cf_next st) r"
  using reads_Cons [of d st c r] by (auto simp: reads_def cf_next_def)

lemma reads_line: "reads d st r \<Longrightarrow> reads d (st\<lparr>cf_column := a, cf_line := b\<rparr>) r"
  by (simp add: reads_def)

subsection \<open>What the functions accept\<close>

fun skip_text :: "bool \<Rightarrow> string \<Rightarrow> string" where
  "skip_text comment [] = []"
| "skip_text comment (c # cs) =
     (let comment' = (comment \<or> c = CHR ''#'')
      in if c = CHR 0x0A \<or> (\<not> comment' \<and> \<not> isspace c) then c # cs else skip_text comment' cs)"

declare skip_loop.simps [simp del] copy_loop.simps [simp del] name_loop.simps [simp del]

lemma skip_text_length: "length (skip_text comment r) \<le> length r"
  by (induction comment r rule: skip_text.induct) (auto simp: Let_def)

lemma skip_loop_reads: "reads d st r \<Longrightarrow> \<exists>st'. skip_loop comment st = Some st' \<and> reads d st' (skip_text comment r)"
proof (induction comment r arbitrary: st rule: skip_text.induct)
  case (1 comment)
  then show ?case using reads_more [OF 1] by (simp add: skip_loop.simps [of comment st])
next
  case (2 comment c cs)
  then show ?case
    using reads_more [OF "2.prems"] reads_char [OF "2.prems"] reads_next [OF "2.prems"] "2.IH" [OF refl _ reads_next [OF "2.prems"]]
    by (auto simp: skip_loop.simps [of comment st] Let_def)
qed

lemma skip_reads: "reads d st r \<Longrightarrow> \<exists>st'. ndL_skip st = Some st' \<and> reads d st' (skip_text False r)"
  unfolding ndL_skip_def by (rule skip_loop_reads)

definition accept_text :: "string \<Rightarrow> string \<Rightarrow> char \<times> string" where
  "accept_text valid r = (case r of [] \<Rightarrow> (CHR 0x00, []) | c # cs \<Rightarrow> if strchr valid c then (c, cs) else (CHR 0x00, r))"

lemma accept_reads:
  assumes "reads d st r"
  shows "\<exists>st'. ndL_accept st valid = Some (fst (accept_text valid r), st') \<and> reads d st' (snd (accept_text valid r))"
proof (cases r)
  case Nil
  then show ?thesis using assms reads_more [OF assms] by (auto simp: ndL_accept_def accept_text_def)
next
  case (Cons c cs)
  have n: "reads d (cf_next st) cs" by (rule reads_next) (use assms Cons in simp)
  then have "reads d (st\<lparr>cf_offset := cf_offset st + 1, cf_column := 1, cf_line := cf_line st + 1\<rparr>) cs"
    by (simp add: reads_def cf_next_def)
  then show ?thesis using assms Cons n reads_more [OF assms] reads_char [of d st c cs] by (auto simp: ndL_accept_def accept_text_def)
qed

lemma copy_loop_reads:
  assumes "reads d st r" "length buf \<le> 64"
  shows "\<exists>st'. copy_loop ok st buf = Some (st', buf @ take (64 - length buf) (takeWhile ok r)) \<and>
     reads d st' (drop (length (take (64 - length buf) (takeWhile ok r))) r)"
  using assms
proof (induction r arbitrary: st buf)
  case Nil
  then show ?case using reads_more [OF Nil(1)] by (simp add: copy_loop.simps [of ok st])
next
  case (Cons c r)
  show ?case
  proof (cases "length buf < 64 \<and> ok c")
    case True
    obtain st' where "copy_loop ok (cf_next st) (buf @ [c]) = Some (st', (buf @ [c]) @ take (64 - length (buf @ [c])) (takeWhile ok r))"
      "reads d st' (drop (length (take (64 - length (buf @ [c])) (takeWhile ok r))) r)"
      using Cons.IH [OF reads_next [OF Cons.prems(1)], of "buf @ [c]"] True by auto
    moreover have "64 - length buf = Suc (64 - length (buf @ [c]))" using True by auto
    ultimately show ?thesis
      using True reads_more [OF Cons.prems(1)] reads_char [OF Cons.prems(1)] by (simp add: copy_loop.simps [of ok st buf])
  next
    case False
    then show ?thesis using Cons.prems reads_more [OF Cons.prems(1)] reads_char [OF Cons.prems(1)]
      by (auto simp: copy_loop.simps [of ok st buf])
  qed
qed

text \<open>\<open>refines d res t\<close>: the reading function returned \<open>res\<close>, which is what \<open>t\<close> says of the text left.\<close>

definition refines :: "string \<Rightarrow> (ndL_state \<times> 'v) option option \<Rightarrow> (string \<times> 'v) option \<Rightarrow> bool" where
  "refines d res t \<longleftrightarrow> (case t of None \<Rightarrow> res = Some None | Some (r, v) \<Rightarrow> \<exists>st. res = Some (Some (st, v)) \<and> reads d st r)"

definition word_text :: "(char \<Rightarrow> bool) \<Rightarrow> (string \<Rightarrow> 'v option) \<Rightarrow> string \<Rightarrow> (string \<times> 'v) option" where
  "word_text ok conv r =
     (let w = takeWhile ok r
      in if w = [] \<or> 64 \<le> length w then None else map_option (\<lambda>v. (drop (length w) r, v)) (conv w))"

definition int_text :: "int \<Rightarrow> int \<Rightarrow> string \<Rightarrow> (string \<times> int) option" where
  "int_text mn mx = word_text (\<lambda>c. isdigit c \<or> c = CHR ''-'')
     (\<lambda>w. let (v, e) = strtoll w in if e \<noteq> [] \<or> v > mx \<or> v < mn then None else Some v)"

definition addr_text :: "string \<Rightarrow> (string \<times> nd_addr) option" where
  "addr_text = word_text (\<lambda>c. isxdigit c \<or> c = CHR ''.'' \<or> c = CHR '':'') inet_pton"

definition lladdr_text :: "string \<Rightarrow> (string \<times> nd_lladdr) option" where
  "lladdr_text = word_text (\<lambda>c. isxdigit c \<or> c = CHR '':'') ether_aton"

lemma word_reads:
  assumes "reads d st r"
  shows "refines d
     (do { (tmp, buf) \<leftarrow> copy_loop ok st [];
           if length buf = 64 \<or> cf_offset tmp = cf_offset st then Some None
           else do { require (length buf < 64); Some (map_option (\<lambda>v. (tmp, v)) (conv buf)) } })
     (word_text ok conv r)"
proof -
  let ?w = "takeWhile ok r"
  obtain st' where st': "copy_loop ok st [] = Some (st', take 64 ?w)" "reads d st' (drop (length (take 64 ?w)) r)"
    using copy_loop_reads [OF assms, of "[]" ok] by auto
  have len: "length ?w \<le> length r" by (rule length_takeWhile_le)
  have off: "cf_offset st' = cf_offset st \<longleftrightarrow> ?w = []"
    using reads_same_offset [OF assms st'(2)] len by (cases "?w") auto
  show ?thesis
  proof (cases "?w = [] \<or> 64 \<le> length ?w")
    case True
    then show ?thesis using st'(1) off by (auto simp: refines_def word_text_def min_def)
  next
    case False
    then show ?thesis using st' off by (cases "conv ?w") (auto simp: refines_def word_text_def)
  qed
qed

lemma accept_int_reads:
  assumes "reads d st r"
  shows "refines d (ndL_accept_int st mn mx) (int_text mn mx r)"
proof -
  have eq: "ndL_accept_int st mn mx =
     do { (tmp, buf) \<leftarrow> copy_loop (\<lambda>c. isdigit c \<or> c = CHR ''-'') st [];
          if length buf = 64 \<or> cf_offset tmp = cf_offset st then Some None
          else do { require (length buf < 64);
            Some (map_option (\<lambda>v. (tmp, v)) (let (v, e) = strtoll buf in if e \<noteq> [] \<or> v > mx \<or> v < mn then None else Some v)) } }"
    unfolding ndL_accept_int_def by (intro arg_cong2 [where f = Option.bind] refl ext) (auto split: prod.split)
  show ?thesis unfolding int_text_def eq by (rule word_reads [OF assms])
qed

lemma accept_addr_reads: "reads d st r \<Longrightarrow> refines d (ndL_accept_addr st) (addr_text r)"
  unfolding ndL_accept_addr_def addr_text_def by (rule word_reads)

lemma accept_lladdr_reads: "reads d st r \<Longrightarrow> refines d (ndL_accept_lladdr st) (lladdr_text r)"
  unfolding ndL_accept_lladdr_def lladdr_text_def by (rule word_reads)

subsection \<open>Names\<close>

definition idchar :: "char \<Rightarrow> bool" where
  "idchar c \<longleftrightarrow> isalnum c \<or> strchr name_valid c"

definition ident :: "string \<Rightarrow> string" where
  "ident r = (case r of [] \<Rightarrow> [] | c # cs \<Rightarrow> if isalpha c then c # takeWhile idchar cs else [])"

definition name_text :: "nat \<Rightarrow> string \<Rightarrow> (string \<times> string) option" where
  "name_text cap r = (let w = ident r in if w = [] \<or> cap \<le> length w then None else Some (drop (length w) r, cstr w))"

lemma name_loop_reads:
  assumes "reads d st r" "start < cf_offset st" "length str + room = cap" "1 \<le> room"
  defines "w \<equiv> take (room - 1) (takeWhile idchar r)"
  shows "\<exists>st'. name_loop cap start room st str = Some (room - length w, st', str @ w) \<and> reads d st' (drop (length w) r)"
  using assms(1-4) unfolding w_def
proof (induction r arbitrary: st str room)
  case Nil
  then show ?case using reads_more [OF Nil(1)] by (simp add: name_loop.simps [of cap start room st str])
next
  case (Cons c r)
  show ?case
  proof (cases "1 < room \<and> idchar c")
    case True
    have n: "start < cf_offset (cf_next st)" "length (str @ [c]) + (room - 1) = cap" "1 \<le> room - 1"
      using Cons.prems(2-4) True by (auto simp: cf_next_def)
    have "name_loop cap start room st str = name_loop cap start (room - 1) (cf_next st) (str @ [c])"
      by (subst name_loop.simps) (use True Cons.prems(2,3) reads_more [OF Cons.prems(1)] reads_char [OF Cons.prems(1)] in \<open>auto simp: idchar_def\<close>)
    moreover obtain st' where st': "name_loop cap start (room - 1) (cf_next st) (str @ [c]) =
        Some (room - 1 - length (take (room - 1 - 1) (takeWhile idchar r)), st', (str @ [c]) @ take (room - 1 - 1) (takeWhile idchar r))"
      "reads d st' (drop (length (take (room - 1 - 1) (takeWhile idchar r))) r)"
      using Cons.IH [OF reads_next [OF Cons.prems(1)] n] by blast
    moreover have "take (room - 1) (takeWhile idchar (c # r)) = c # take (room - 1 - 1) (takeWhile idchar r)"
      using True by (cases "room - 1") auto
    ultimately show ?thesis by simp
  next
    case False
    then have w: "take (room - 1) (takeWhile idchar (c # r)) = []" by (cases "idchar c") auto
    have "name_loop cap start room st str = Some (room, st, str)"
      by (subst name_loop.simps) (use False Cons.prems(2,3) reads_more [OF Cons.prems(1)] reads_char [OF Cons.prems(1)] in \<open>auto simp: idchar_def\<close>)
    then show ?thesis using Cons.prems(1) unfolding w by simp
  qed
qed

lemma accept_name_reads:
  assumes "reads d st r" "2 \<le> cap"
  shows "refines d (ndL_accept_name st cap) (name_text cap r)"
proof (cases "ident r = []")
  case True
  have "name_loop cap (cf_offset st) cap st [] = Some (cap, st, [])"
  proof (cases r)
    case Nil
    then show ?thesis using reads_more [OF assms(1)] by (simp add: name_loop.simps [of cap _ cap st])
  next
    case (Cons c cs)
    then show ?thesis using True assms(2) reads_more [OF assms(1)] reads_char [of d st c cs] assms(1)
      by (auto simp: name_loop.simps [of cap _ cap st] ident_def split: if_splits)
  qed
  then show ?thesis using True by (simp add: ndL_accept_name_def name_text_def refines_def)
next
  case False
  then obtain c cs where r: "r = c # cs" "isalpha c" by (cases r) (auto simp: ident_def split: if_splits)
  let ?w = "takeWhile idchar cs"
  have w: "ident r = c # ?w" using r by (simp add: ident_def)
  have nx: "reads d (cf_next st) cs" using reads_next assms(1) r(1) by blast
  obtain k where k: "cap = Suc (Suc k)" using assms(2) by (metis add_2_eq_Suc le_Suc_ex)
  obtain st' where st': "name_loop cap (cf_offset st) (cap - 1) (cf_next st) [c] =
      Some (cap - 1 - length (take k ?w), st', [c] @ take k ?w)" "reads d st' (drop (length (take k ?w)) cs)"
    using name_loop_reads [OF nx, of "cf_offset st" "[c]" "cap - 1" cap] k by (auto simp: cf_next_def)
  have loop: "name_loop cap (cf_offset st) cap st [] = Some (cap - 1 - length (take k ?w), st', c # take k ?w)"
    using st'(1) k r assms(1) reads_more [OF assms(1)] reads_char [of d st c cs] by (subst name_loop.simps) simp
  have ne: "cf_offset st' \<noteq> cf_offset st" using reads_same_offset [OF assms(1) st'(2)] r by auto
  show ?thesis
  proof (cases "cap \<le> length (ident r)")
    case True
    then have long: "k < length ?w" using w k by simp
    then have "k < length cs" using length_takeWhile_le [of idchar cs] by simp
    then obtain e es where e: "drop k cs = e # es" by (cases "drop k cs") auto
    have "e = takeWhile idchar cs ! k" using nth_via_drop [OF e] takeWhile_nth [OF long] by simp
    then have id: "idchar e" using long nth_mem set_takeWhileD by metis
    have take: "length (take k ?w) = k" using long by simp
    have rd: "reads d st' (e # es)" using st'(2) unfolding take e .
    have "min (length ?w) k = k" using long by simp
    then show ?thesis using ne True w id reads_char [OF rd] reads_more [OF rd] k
      by (simp add: ndL_accept_name_def name_text_def refines_def loop [unfolded k] idchar_def)
  next
    case False
    then have short: "length ?w \<le> k" using w k by simp
    have tr: "\<not> idchar e" if "drop (length ?w) cs = e # es" for e es
      using that hd_dropWhile [of idchar cs] by (simp add: dropWhile_eq_drop)
    have take: "take k ?w = ?w" using short by simp
    have rd: "reads d st' (drop (length ?w) cs)" using st'(2) unfolding take .
    have m: "min (length ?w) k = length ?w" using short by simp
    have "c # ?w \<noteq> []" "\<not> cap \<le> length (c # ?w)" using short k by simp_all
    then have nt: "name_text cap r = Some (drop (length ?w) cs, cstr (c # ?w))" using w r(1) by (simp add: name_text_def)
    have "ndL_accept_name st cap = Some (Some (st', cstr (c # ?w)))"
    proof (cases "drop (length ?w) cs")
      case Nil
      then have "\<not> cf_offset st' < cf_length st'" using reads_more [OF rd] by simp
      then show ?thesis using ne short k by (simp add: ndL_accept_name_def loop [unfolded k] take)
    next
      case (Cons e es)
      then have "cf_char st' = Some e" "\<not> (isalnum e \<or> strchr name_valid e)"
        using tr [OF Cons] reads_char [of d st' e es] rd by (simp_all add: idchar_def)
      then show ?thesis using ne short k by (simp add: ndL_accept_name_def loop [unfolded k] take)
    qed
    with rd show ?thesis by (simp add: refines_def nt)
  qed
qed

subsection \<open>Booleans, prefix lengths and the end of an entry\<close>

definition bool_text :: "string \<Rightarrow> (string \<times> bool) option" where
  "bool_text r =
     (case name_text 16 r of
        None \<Rightarrow> Some (r, True)
      | Some (r', w) \<Rightarrow>
          if w = ''yes'' \<or> w = ''true'' then Some (r', True)
          else if w = ''no'' \<or> w = ''false'' then Some (r', False)
          else None)"

lemma refines_cases:
  assumes "refines d res t"
  obtains "t = None" "res = Some None" | st r v where "t = Some (r, v)" "res = Some (Some (st, v))" "reads d st r"
  using assms unfolding refines_def by (cases t) auto

lemma accept_bool_reads:
  assumes "reads d st r"
  shows "refines d (ndL_accept_bool st) (bool_text r)"
proof -
  have "refines d (ndL_accept_name st 16) (name_text 16 r)" using assms by (rule accept_name_reads) simp
  then show ?thesis
    by (cases rule: refines_cases) (use assms in \<open>auto simp: ndL_accept_bool_def bool_text_def refines_def\<close>)
qed

definition prefix_text :: "string \<Rightarrow> (string \<times> nat) option" where
  "prefix_text r =
     (case accept_text ''/'' r of
        (c, r') \<Rightarrow> if c \<noteq> CHR 0x00 then map_option (\<lambda>(r'', v). (r'', nat v)) (int_text 0 128 r') else Some (r', 128))"

lemma accept_prefix_reads:
  assumes "reads d st r"
  shows "refines d (accept_prefix st) (prefix_text r)"
proof -
  obtain c r' where a: "accept_text ''/'' r = (c, r')" by (cases "accept_text ''/'' r")
  obtain st' where st': "ndL_accept st ''/'' = Some (c, st')" "reads d st' r'"
    using accept_reads [OF assms, of "''/''"] a by auto
  show ?thesis
  proof (cases "c = CHR 0x00")
    case True
    then show ?thesis using st' a by (simp add: accept_prefix_def prefix_text_def refines_def)
  next
    case False
    from accept_int_reads [OF st'(2)] have "refines d (ndL_accept_int st' 0 128) (int_text 0 128 r')" .
    then show ?thesis
      by (cases rule: refines_cases) (use st' a False in \<open>auto simp: accept_prefix_def prefix_text_def refines_def\<close>)
  qed
qed

definition end_text :: "string \<Rightarrow> bool" where
  "end_text r \<longleftrightarrow> r = [] \<or> hd r = CHR ''}'' \<or> hd r = CHR 0x0A"

lemma end_entry_reads:
  assumes "reads d st r"
  shows "\<exists>st'. end_entry st = Some (st', end_text (skip_text False r)) \<and> reads d st' (skip_text False r)"
proof -
  obtain st' where st': "ndL_skip st = Some st'" "reads d st' (skip_text False r)" using skip_reads [OF assms] by blast
  show ?thesis
  proof (cases "skip_text False r")
    case Nil
    then show ?thesis using st' reads_eof [OF st'(2)] by (simp add: end_entry_def end_text_def)
  next
    case (Cons c cs)
    then have "cf_char st' = Some c" using reads_char [of d st' c cs] st'(2) by simp
    then show ?thesis using st' Cons reads_eof [OF st'(2)] by (simp add: end_entry_def end_text_def)
  qed
qed

subsection \<open>No reading function goes back\<close>

lemma accept_text_length: "length (snd (accept_text valid r)) \<le> length r"
  by (cases r) (auto simp: accept_text_def)

lemma accept_text_length_less: "fst (accept_text valid r) \<noteq> CHR 0x00 \<Longrightarrow> length (snd (accept_text valid r)) < length r"
  by (cases r) (auto simp: accept_text_def split: if_splits)

lemma word_text_length: "word_text ok conv r = Some (r', v) \<Longrightarrow> length r' < length r"
  by (cases r) (auto simp: word_text_def Let_def split: if_splits)

lemma name_text_length: "name_text cap r = Some (r', v) \<Longrightarrow> length r' < length r"
  by (cases r) (auto simp: name_text_def ident_def Let_def split: if_splits)

lemma bool_text_length: "bool_text r = Some (r', v) \<Longrightarrow> length r' \<le> length r"
  using name_text_length [of 16 r] by (fastforce simp: bool_text_def split: option.splits if_splits)

lemma prefix_text_length:
  assumes "prefix_text r = Some (r', v)"
  shows "length r' \<le> length r"
  using assms accept_text_length [of "''/''" r] word_text_length
  by (cases "accept_text ''/'' r") (fastforce simp: prefix_text_def int_text_def split: if_splits)

lemma prefix_text_bound: "prefix_text r = Some (r', v) \<Longrightarrow> v \<le> 128"
  by (cases "accept_text ''/'' r")
    (auto simp: prefix_text_def int_text_def word_text_def Let_def split: if_splits prod.splits)

lemma int_text_bounds: "int_text mn mx r = Some (r', v) \<Longrightarrow> mn \<le> v \<and> v \<le> mx"
  by (auto simp: int_text_def word_text_def Let_def split: if_splits prod.splits)

text \<open>What a name that was read looks like.\<close>

lemma name_text_name:
  assumes "name_text cap r = Some (r', w)"
  shows "w \<noteq> [] \<and> length w < cap \<and> CHR 0x00 \<notin> set w"
proof -
  have w: "w = cstr (ident r)" "ident r \<noteq> []" "length (ident r) < cap"
    using assms by (auto simp: name_text_def Let_def split: if_splits)
  obtain c cs where c: "ident r = c # cs" "isalpha c" using w(2) by (cases r) (auto simp: ident_def split: if_splits)
  then have "c \<noteq> CHR 0x00" by (auto simp: isalpha_def ord_def)
  moreover have "length (cstr (ident r)) \<le> length (ident r)" by (simp add: cstr_def length_takeWhile_le)
  moreover have "CHR 0x00 \<notin> set (cstr (ident r))" by (auto simp: cstr_def dest: set_takeWhileD)
  ultimately show ?thesis using w c by (auto simp: cstr_def)
qed

subsection \<open>The reading functions as functions on text\<close>

text \<open>
  C14: the reading functions of the parser do what the functions on text say, at every place in every file: they accept the longest
  run of the characters of their class, refuse one that does not fit the buffer instead of cutting it short, and stop right behind
  it.  None of them reads outside the file or writes outside its buffer.
\<close>

theorem readers_exact:
  assumes "reads d st r" "2 \<le> cap"
  shows "refines d (ndL_accept_name st cap) (name_text cap r) \<and> refines d (ndL_accept_int st mn mx) (int_text mn mx r) \<and>
     refines d (ndL_accept_addr st) (addr_text r) \<and> refines d (ndL_accept_lladdr st) (lladdr_text r) \<and>
     refines d (ndL_accept_bool st) (bool_text r)"
  using accept_name_reads [OF assms] accept_int_reads [OF assms(1)] accept_addr_reads [OF assms(1)] accept_lladdr_reads [OF assms(1)]
    accept_bool_reads [OF assms(1)] by blast

theorem readers_exact_witness:
  "\<exists>st. ndL_accept_name \<lparr>cf_data = ''eth0 {'', cf_offset = 0, cf_length = 6, cf_line = 1, cf_column = 0\<rparr> 16 = Some (Some (st, ''eth0'')) \<and>
     reads ''eth0 {'' st '' {''"
proof -
  have "reads ''eth0 {'' \<lparr>cf_data = ''eth0 {'', cf_offset = 0, cf_length = 6, cf_line = 1, cf_column = 0\<rparr> ''eth0 {''"
    by (simp add: reads_def)
  moreover have "name_text 16 ''eth0 {'' = Some ('' {'', ''eth0'')"
    by code_simp
  ultimately show ?thesis using readers_exact [of "''eth0 {''" _ "''eth0 {''" 16] by (auto simp: refines_def)
qed

end
