(* ===== verification/Conf_Safe.thy ===== *)
theory Conf_Safe
  imports Conf_Text
begin

text \<open>
  The configuration parser reads every file to its end or to an error, inside the file and inside its buffers, and what it
  accepts is a configuration the daemon can start from.  The locale \<open>block_entries\<close> is what a block asks of the entries it can
  hold; it is interpreted on the three kinds of block.
\<close>

subsection \<open>Results of the parsing functions\<close>

text \<open>\<open>goes d r I res\<close>: no undefined behaviour, and on success the text left is no longer than \<open>r\<close> and the state satisfies \<open>I\<close>.\<close>

definition goes :: "string \<Rightarrow> string \<Rightarrow> (conf_state \<Rightarrow> bool) \<Rightarrow> conf_state parsed \<Rightarrow> bool" where
  "goes d r I res \<longleftrightarrow>
     (\<exists>e. res = Some (Inl e)) \<or> (\<exists>st' s' r'. res = Some (Inr (st', s')) \<and> reads d st' r' \<and> length r' \<le> length r \<and> I s')"

lemma goes_error [simp, intro]: "goes d r I (Some (Inl e))"
  by (simp add: goes_def)

lemma goes_ok: "reads d st' r' \<Longrightarrow> length r' \<le> length r \<Longrightarrow> I s' \<Longrightarrow> goes d r I (Some (Inr (st', s')))"
  by (auto simp: goes_def)

lemma goes_mono: "goes d r I res \<Longrightarrow> length r \<le> length r' \<Longrightarrow> (\<And>s. I s \<Longrightarrow> J s) \<Longrightarrow> goes d r' J res"
  unfolding goes_def using le_trans by blast

lemma goes_cases:
  assumes "goes d r I res"
  obtains e where "res = Some (Inl e)"
  | st' s' r' where "res = Some (Inr (st', s'))" "reads d st' r'" "length r' \<le> length r" "I s'"
  using assms unfolding goes_def by blast

lemma store_goes:
  assumes "refines d res t" "\<And>r' v. t = Some (r', v) \<Longrightarrow> length r' \<le> length r \<and> (\<exists>s'. set_field v s = Some s' \<and> I s')"
  shows "goes d r I (store set_field e res s)"
  using assms(1)
proof (cases rule: refines_cases)
  case 1
  then show ?thesis by (simp add: store_def)
next
  case (2 st r' v)
  with assms(2) [OF 2(1)] show ?thesis by (auto simp: store_def intro: goes_ok)
qed

lemma int_text_length: "int_text mn mx r = Some (r', v) \<Longrightarrow> length r' \<le> length r"
  unfolding int_text_def by (drule word_text_length) simp

lemma addr_text_length: "addr_text r = Some (r', v) \<Longrightarrow> length r' \<le> length r"
  unfolding addr_text_def by (drule word_text_length) simp

lemma lladdr_text_length: "lladdr_text r = Some (r', v) \<Longrightarrow> length r' \<le> length r"
  unfolding lladdr_text_def by (drule word_text_length) simp

subsection \<open>Blocks\<close>

locale block_entries =
  fixes cb :: callback and scope :: cf_scope and p :: ptr and I :: "conf_state \<Rightarrow> bool"
  assumes entry: "t \<in> set ndL_cfinfo_table \<Longrightarrow> ci_scope t = scope \<Longrightarrow> reads d st r \<Longrightarrow> I s \<Longrightarrow> goes d r I (run_entry cb t p st s)"
begin

text \<open>A turn of the loop that goes on has read something.\<close>

lemma block_turn_goes:
  assumes "reads d st r" "I s"
  shows "(\<exists>e. block_turn cb scope p (st, s) = Some (Inl e)) \<or>
     (\<exists>st' s' r'. block_turn cb scope p (st, s) = Some (Inr (Inl (st', s'))) \<and> reads d st' r' \<and> length r' < length r \<and> I s') \<or>
     (\<exists>st' s' r'. block_turn cb scope p (st, s) = Some (Inr (Inr (st', s'))) \<and> reads d st' r' \<and> length r' \<le> length r \<and> I s')"
proof -
  obtain st1 where st1: "ndL_skip st = Some st1" "reads d st1 (skip_text False r)" using skip_reads [OF assms(1)] by blast
  define c where "c = fst (accept_text [CHR 0x0A, CHR ''}''] (skip_text False r))"
  define r2 where "r2 = snd (accept_text [CHR 0x0A, CHR ''}''] (skip_text False r))"
  obtain st2 where st2: "ndL_accept st1 [CHR 0x0A, CHR ''}''] = Some (c, st2)" "reads d st2 r2"
    using accept_reads [OF st1(2)] unfolding c_def r2_def by blast
  have len: "length r2 \<le> length r" using accept_text_length skip_text_length unfolding r2_def by (rule order_trans)
  show ?thesis
  proof (cases "c = CHR ''}'' \<or> c = CHR 0x0A \<or> r2 = []")
    case True
    have "length r2 < length r" if "c = CHR 0x0A"
      using accept_text_length_less [of "[CHR 0x0A, CHR ''}'']" "skip_text False r"] that skip_text_length [of False r]
      unfolding c_def r2_def by simp
    then show ?thesis using True st1(1) st2 len assms(2) reads_eof [OF st2(2)] by (auto simp: block_turn_def)
  next
    case False
    have "refines d (ndL_accept_name st2 32) (name_text 32 r2)" by (rule accept_name_reads [OF st2(2)]) simp
    then show ?thesis
    proof (cases rule: refines_cases)
      case 1
      then show ?thesis using False st1(1) st2 reads_eof [OF st2(2)] by (simp add: block_turn_def)
    next
      case (2 st3 r3 key)
      obtain st4 where st4: "ndL_skip st3 = Some st4" "reads d st4 (skip_text False r3)" using skip_reads [OF 2(3)] by blast
      have less: "length (skip_text False r3) < length r"
        using name_text_length [OF 2(1)] skip_text_length [of False r3] len by simp
      define found where "found = find (\<lambda>t. ci_scope t = scope \<and> ci_key t = key) ndL_cfinfo_table"
      have eq: "block_turn cb scope p (st, s) =
         (case found of None \<Rightarrow> Some (Inl Invalid_configuration)
          | Some t \<Rightarrow> do { r \<leftarrow> run_entry cb t p st4 s;
               case r of Inl e \<Rightarrow> Some (Inl e)
               | Inr (st5, s5) \<Rightarrow> do { (st6, ok) \<leftarrow> end_entry st5; Some (if ok then Inr (Inl (st6, s5)) else Inl Expected_separator) } })"
        using False st1(1) st2 2(2) st4(1) reads_eof [OF st2(2)] by (simp add: block_turn_def found_def)
      show ?thesis
      proof (cases found)
        case (Some t)
        then have "t \<in> set ndL_cfinfo_table" "ci_scope t = scope" unfolding found_def by (auto simp: find_Some_iff)
        from entry [OF this st4(2) assms(2)] show ?thesis
        proof (cases rule: goes_cases)
          case (2 st5 s5 r5)
          then obtain st6 where "end_entry st5 = Some (st6, end_text (skip_text False r5))" "reads d st6 (skip_text False r5)"
            using end_entry_reads by blast
          moreover have "length (skip_text False r5) < length r" using skip_text_length [of False r5] 2(3) less by linarith
          ultimately show ?thesis using eq Some 2 by auto
        qed (simp add: eq Some)
      qed (simp add: eq)
    qed
  qed
qed

lemma block_loop_goes: "reads d st r \<Longrightarrow> I s \<Longrightarrow> goes d r I (block_loop (block_turn cb scope p) (st, s))"
proof (induction r arbitrary: st s rule: length_induct)
  case (1 r)
  show ?case
    using block_turn_goes [OF 1(2,3)]
  proof (elim disjE exE conjE)
    fix st' s' r'
    assume a: "block_turn cb scope p (st, s) = Some (Inr (Inl (st', s')))" "reads d st' r'" "length r' < length r" "I s'"
    then have "goes d r' I (block_loop (block_turn cb scope p) (st', s'))" using 1(1) by blast
    then have "goes d r I (block_loop (block_turn cb scope p) (st', s'))" by (rule goes_mono) (use a(3) in simp_all)
    then show ?thesis by (subst block_loop.simps) (simp add: a(1))
  qed (subst block_loop.simps, auto simp: goes_ok)+
qed

lemma block_goes:
  assumes "reads d st r" "I s"
  shows "goes d r I (ndL_parse_block cb scope p st s)"
proof -
  obtain st1 where st1: "ndL_skip st = Some st1" "reads d st1 (skip_text False r)" using skip_reads [OF assms(1)] by blast
  define c where "c = fst (accept_text ''{'' (skip_text False r))"
  define r2 where "r2 = snd (accept_text ''{'' (skip_text False r))"
  obtain st2 where st2: "ndL_accept st1 ''{'' = Some (c, st2)" "reads d st2 r2"
    using accept_reads [OF st1(2)] unfolding c_def r2_def by blast
  have "length r2 \<le> length r" using accept_text_length skip_text_length unfolding r2_def by (rule order_trans)
  then have "goes d r I (block_loop (block_turn cb scope p) (st2, s))"
    by (rule goes_mono [OF block_loop_goes [OF st2(2) assms(2)]])
  moreover have "goes d r I (block_loop (block_turn cb scope p) (st1, s))"
    by (rule goes_mono [OF block_loop_goes [OF st1(2) assms(2)] skip_text_length])
  ultimately show ?thesis using st1(1) st2(1) by (auto simp: ndL_parse_block_def)
qed

end

subsection \<open>The state while the file is read\<close>

definition rule_ranges :: "nd_rule \<Rightarrow> bool" where
  "rule_ranges r \<longleftrightarrow> r_prefix r \<le> 128 \<and> r_rewrite_pflen r \<le> 128 \<and> r_table r \<le> 255 \<and> (r_mode r = ND_MODE_IFACE \<longrightarrow> r_ifname r \<noteq> [])"

definition rule_done :: "nd_rule \<Rightarrow> bool" where
  "rule_done r \<longleftrightarrow> rule_ranges r \<and> r_mode r \<noteq> ND_MODE_UNKNOWN \<and> (r_autowire r \<longrightarrow> r_mode r = ND_MODE_IFACE)"

definition conf_ranges :: "conf_state \<Rightarrow> bool" where
  "conf_ranges s \<longleftrightarrow>
     1000 \<le> nd_conf_invalid_ttl s \<and> nd_conf_invalid_ttl s \<le> 3600000 \<and> 10000 \<le> nd_conf_valid_ttl s \<and> nd_conf_valid_ttl s \<le> 3600000 \<and>
     nd_conf_stale_ttl s = 30000 \<and> 0 \<le> nd_conf_retrans_limit s \<and> nd_conf_retrans_limit s \<le> 10 \<and>
     0 \<le> nd_conf_retrans_time s \<and> nd_conf_retrans_time s \<le> 60000"

definition conf_part :: "conf_state \<Rightarrow> bool" where
  "conf_part s \<longleftrightarrow> config_inv s \<and> all_pending s \<and> distinct_names s \<and> conf_ranges s \<and> ndL_routes s = []"

definition conf_inv :: "conf_state \<Rightarrow> bool" where
  "conf_inv s \<longleftrightarrow> conf_part s \<and> (\<forall>rp r. h_rule s rp = Some r \<longrightarrow> rule_done r)"

definition proxy_inv :: "ptr \<Rightarrow> conf_state \<Rightarrow> bool" where
  "proxy_inv pp s \<longleftrightarrow> conf_inv s \<and> h_proxy s pp \<noteq> None"

definition rule_inv :: "ptr \<Rightarrow> ptr \<Rightarrow> conf_state \<Rightarrow> bool" where
  "rule_inv pp rp s \<longleftrightarrow>
     conf_part s \<and> (\<exists>r. h_rule s rp = Some r \<and> r_proxy r = pp \<and> rule_ranges r) \<and>
     (\<forall>q r. q \<noteq> rp \<longrightarrow> h_rule s q = Some r \<longrightarrow> rule_done r)"

lemma config_wfD:
  assumes "config_wf s"
  shows "h_proxy s pp = Some px \<Longrightarrow> pp < heap_next s \<and> length (p_ifname px) < IF_NAMESIZE \<and> distinct (p_rules px)"
    and "h_proxy s pp = Some px \<Longrightarrow> rp \<in> set (p_rules px) \<Longrightarrow> \<exists>r. h_rule s rp = Some r \<and> r_proxy r = pp"
    and "h_rule s rp = Some r \<Longrightarrow> rp < heap_next s \<and> length (r_ifname r) < IF_NAMESIZE"
    and "h_rule s rp = Some r \<Longrightarrow> \<exists>px. h_proxy s (r_proxy r) = Some px \<and> rp \<in> set (p_rules px)"
  using assms unfolding config_wf_def by blast+

lemma config_wf_rule_update:
  assumes "config_wf s" "h_rule s rp = Some r" "r_proxy r' = r_proxy r" "length (r_ifname r') < IF_NAMESIZE"
  shows "config_wf (s\<lparr>h_rule := (h_rule s)(rp \<mapsto> r')\<rparr>)"
  unfolding config_wf_def
proof (intro conjI allI impI ballI, goal_cases)
  case (7 pp px q)
  then obtain r0 where "h_rule s q = Some r0" "r_proxy r0 = pp" using config_wfD(2) [OF assms(1), of pp px q] by auto
  then show ?case using assms(2,3) by (cases "q = rp") auto
next
  case (8 q x)
  then show ?case using config_wfD(3) [OF assms(1)] assms(2) by (cases "q = rp") auto
next
  case (9 q x)
  then show ?case using config_wfD(3) [OF assms(1)] assms(4) by (cases "q = rp") auto
next
  case (10 q x)
  then show ?case using config_wfD(4) [OF assms(1)] assms(2,3) by (cases "q = rp") auto
qed (use assms(1) config_wfD(1) [OF assms(1)] in \<open>auto simp: config_wf_def\<close>)

lemma config_wf_proxy_update:
  assumes "config_wf s" "h_proxy s pp = Some px" "p_ifname px' = p_ifname px" "p_rules px' = p_rules px"
  shows "config_wf (s\<lparr>h_proxy := (h_proxy s)(pp \<mapsto> px')\<rparr>)"
  unfolding config_wf_def
proof (intro conjI allI impI ballI, goal_cases)
  case 3
  then show ?case using assms(1,2) by (auto simp: config_wf_def)
next
  case (4 q x)
  then show ?case using config_wfD(1) [OF assms(1)] assms(2) by (cases "q = pp") auto
next
  case (5 q x)
  then show ?case using config_wfD(1) [OF assms(1)] assms(2,3) by (cases "q = pp") auto
next
  case (6 q x)
  then show ?case using config_wfD(1) [OF assms(1)] assms(2,4) by (cases "q = pp") auto
next
  case (7 q x rp)
  then show ?case using config_wfD(2) [OF assms(1)] assms(2,4) by (cases "q = pp") auto
next
  case (10 q x)
  then show ?case using config_wfD(4) [OF assms(1), of q x] assms(2,4) by (cases "r_proxy x = pp") auto
qed (use assms(1) config_wfD(3) [OF assms(1)] in \<open>auto simp: config_wf_def\<close>)

lemma conf_rule_update:
  assumes "conf_part s" "h_rule s rp = Some r" "r_proxy r' = r_proxy r" "r_iface r' = r_iface r" "length (r_ifname r') < IF_NAMESIZE"
  shows "conf_part (s\<lparr>h_rule := (h_rule s)(rp \<mapsto> r')\<rparr>)"
proof -
  let ?s = "s\<lparr>h_rule := (h_rule s)(rp \<mapsto> r')\<rparr>"
  have c: "config_inv s" "all_pending s" "distinct_names s" using assms(1) by (simp_all add: conf_part_def)
  note wf = config_invD(1) [OF c(1)]
  have "config_wf ?s" by (rule config_wf_rule_update [OF wf assms(2,3,5)])
  moreover have pend: "all_pending ?s" using c(2) assms(2,4) by (auto simp: all_pending_def)
  moreover have "no_sessions ?s" using config_invD(2) [OF c(1)] by (simp add: no_sessions_def)
  ultimately have "config_inv ?s" by (rule config_heaps_changed [OF c(1,2)]) simp_all
  moreover have "distinct_names ?s" "conf_ranges ?s" "ndL_routes ?s = []"
    using assms(1) by (simp_all add: conf_part_def distinct_names_def conf_ranges_def)
  ultimately show ?thesis using pend by (simp add: conf_part_def)
qed

lemma conf_proxy_update:
  assumes "conf_part s" "h_proxy s pp = Some px" "p_ifname px' = p_ifname px" "p_iface px' = p_iface px" "p_rules px' = p_rules px"
  shows "conf_part (s\<lparr>h_proxy := (h_proxy s)(pp \<mapsto> px')\<rparr>)"
proof -
  let ?s = "s\<lparr>h_proxy := (h_proxy s)(pp \<mapsto> px')\<rparr>"
  have c: "config_inv s" "all_pending s" "distinct_names s" using assms(1) by (simp_all add: conf_part_def)
  note wf = config_invD(1) [OF c(1)]
  have "config_wf ?s" by (rule config_wf_proxy_update [OF wf assms(2,3,5)])
  moreover have pend: "all_pending ?s" using c(2) assms(2,4) by (auto simp: all_pending_def)
  moreover have "no_sessions ?s" using config_invD(2) [OF c(1)] by (simp add: no_sessions_def)
  ultimately have "config_inv ?s" by (rule config_heaps_changed [OF c(1,2)]) auto
  moreover have "distinct_names ?s" using c(3) assms(2,3) unfolding distinct_names_def by (auto split: if_splits)
  moreover have "conf_ranges ?s" "ndL_routes ?s = []" using assms(1) by (simp_all add: conf_part_def conf_ranges_def)
  ultimately show ?thesis using pend by (simp add: conf_part_def)
qed

subsection \<open>Entries of a rule\<close>

lemma rule_invE:
  assumes "rule_inv pp rp s"
  obtains r where "h_rule s rp = Some r" "r_proxy r = pp" "rule_ranges r" "conf_part s" "length (r_ifname r) < IF_NAMESIZE"
proof -
  obtain r where r: "h_rule s rp = Some r" "r_proxy r = pp" "rule_ranges r" "conf_part s" using assms by (auto simp: rule_inv_def)
  then have "config_wf s" by (simp add: conf_part_def config_inv_def)
  from config_wfD(3) [OF this r(1)] r that show ?thesis by blast
qed

lemma rule_inv_update:
  assumes "rule_inv pp rp s" "h_rule s rp = Some r" "r_proxy r' = r_proxy r" "r_iface r' = r_iface r" "length (r_ifname r') < IF_NAMESIZE"
    "rule_ranges r'"
  shows "rule_inv pp rp (s\<lparr>h_rule := (h_rule s)(rp \<mapsto> r')\<rparr>)"
proof -
  have "conf_part s" using assms(1) by (simp add: rule_inv_def)
  from conf_rule_update [OF this assms(2-5)] show ?thesis using assms by (auto simp: rule_inv_def)
qed

lemma run_entry_value:
  assumes "ci_cb t = None" "goes d r I (accept_value t p st s)"
  shows "goes d r I (run_entry cb t p st s)"
  using assms(2) by (cases rule: goes_cases) (auto simp: run_entry_def assms(1) intro: goes_ok)

lemma entry_bool:
  assumes "ci_cb t = None" "ci_type t = NDL_BOOL" "reads d st r" "\<And>v. \<exists>s'. set_bool (ci_field t) p v s = Some s' \<and> I s'"
  shows "goes d r I (run_entry cb t p st s)"
  by (rule run_entry_value [OF assms(1)], simp only: accept_value_def assms(2) cf_type.case)
    (rule store_goes [OF accept_bool_reads [OF assms(3)]], use assms(4) bool_text_length in blast)

lemma entry_lladdr:
  assumes "ci_cb t = None" "ci_type t = NDL_LLADDR" "reads d st r" "\<And>v. \<exists>s'. set_lladdr (ci_field t) p v s = Some s' \<and> I s'"
  shows "goes d r I (run_entry cb t p st s)"
  by (rule run_entry_value [OF assms(1)], simp only: accept_value_def assms(2) cf_type.case)
    (rule store_goes [OF accept_lladdr_reads [OF assms(3)]], use assms(4) lladdr_text_length in blast)

lemma entry_int:
  assumes "ci_cb t = None" "ci_type t = NDL_INT" "reads d st r"
    "\<And>v. ci_min t \<le> v \<Longrightarrow> v \<le> ci_max t \<Longrightarrow> \<exists>s'. set_int (ci_field t) p v s = Some s' \<and> I s'"
  shows "goes d r I (run_entry cb t p st s)"
  by (rule run_entry_value [OF assms(1)], simp only: accept_value_def assms(2) cf_type.case)
    (rule store_goes [OF accept_int_reads [OF assms(3)]], use assms(4) int_text_length int_text_bounds in blast)

lemma run_entry_callback:
  assumes "ci_cb t = Some c" "ci_type t = NDL_NONE" "reads d st r"
    and "\<And>st r. reads d st r \<Longrightarrow> goes d r I (cb c t p st s)"
  shows "goes d r I (run_entry cb t p st s)"
proof -
  obtain st' where "ndL_skip st = Some st'" "reads d st' (skip_text False r)" using skip_reads [OF assms(3)] by blast
  moreover from assms(4) [OF this(2)] have "goes d r I (cb c t p st' s)" by (rule goes_mono) (rule skip_text_length)
  ultimately show ?thesis by (simp add: run_entry_def accept_value_def assms(1,2))
qed

lemma parse_rewrite_goes:
  assumes "reads d st r" "rule_inv pp rp s"
  shows "goes d r (rule_inv pp rp) (ndL_parse_rewrite st rp s)"
proof -
  from assms(2) obtain x where x: "h_rule s rp = Some x" "rule_ranges x" "length (r_ifname x) < IF_NAMESIZE" by (rule rule_invE)
  from accept_addr_reads [OF assms(1)] show ?thesis
  proof (cases rule: refines_cases)
    case 1
    then show ?thesis by (simp add: ndL_parse_rewrite_def)
  next
    case (2 st1 r1 a)
    have l1: "length r1 \<le> length r" by (rule addr_text_length [OF 2(1)])
    from accept_prefix_reads [OF 2(3)] show ?thesis
    proof (cases rule: refines_cases)
      case 1
      then show ?thesis using 2 by (simp add: ndL_parse_rewrite_def)
    next
      case (2 st2 r2 n)
      let ?s = "s\<lparr>h_rule := (h_rule s)(rp \<mapsto> x\<lparr>r_rewrite_tgt := a, r_rewrite_pflen := n\<rparr>)\<rparr>"
      have "rule_inv pp rp ?s"
        by (rule rule_inv_update [OF assms(2) x(1)]) (use x prefix_text_bound [OF 2(1)] in \<open>auto simp: rule_ranges_def\<close>)
      with 2 l1 prefix_text_length [OF 2(1)] \<open>ndL_accept_addr st = Some (Some (st1, a))\<close> x(1)
      show ?thesis by (auto simp: ndL_parse_rewrite_def intro: goes_ok)
    qed
  qed
qed

lemma parse_mode_goes:
  assumes "reads d st r" "rule_inv pp rp s"
  shows "goes d r (rule_inv pp rp) (ndL_parse_mode st t rp s)"
proof -
  from assms(2) obtain x where x: "h_rule s rp = Some x" "rule_ranges x" "length (r_ifname x) < IF_NAMESIZE" by (rule rule_invE)
  have mode: "rule_inv pp rp (s\<lparr>h_rule := (h_rule s)(rp \<mapsto> x\<lparr>r_mode := m\<rparr>)\<rparr>)" if "m \<noteq> ND_MODE_IFACE" for m
    by (rule rule_inv_update [OF assms(2) x(1)]) (use x that in \<open>auto simp: rule_ranges_def\<close>)
  have "refines d (ndL_accept_name st IF_NAMESIZE) (name_text IF_NAMESIZE r)"
    by (rule accept_name_reads [OF assms(1)]) (simp add: IF_NAMESIZE_def)
  then show ?thesis
  proof (cases rule: refines_cases)
    case 1
    then show ?thesis using x(1) assms(1) by (auto simp: ndL_parse_mode_def intro!: goes_ok mode)
  next
    case (2 st' r' nm)
    have "rule_inv pp rp (s\<lparr>h_rule := (h_rule s)(rp \<mapsto> x\<lparr>r_ifname := nm, r_mode := ND_MODE_IFACE\<rparr>)\<rparr>)"
      by (rule rule_inv_update [OF assms(2) x(1)]) (use x name_text_name [OF 2(1)] in \<open>auto simp: rule_ranges_def\<close>)
    with 2 name_text_length [OF 2(1)] x(1) assms(1) show ?thesis by (auto simp: ndL_parse_mode_def intro!: goes_ok mode)
  qed
qed

lemma rule_entries_table:
  assumes "t \<in> set ndL_cfinfo_table" "ci_scope t = NDL_RULE"
  shows "ci_type t = NDL_NONE \<and> ci_cb t \<in> {Some CB_parse_rewrite, Some CB_parse_mode} \<or>
     ci_cb t = None \<and> (ci_type t = NDL_BOOL \<and> ci_field t = F_autowire \<or> ci_type t = NDL_LLADDR \<and> ci_field t = F_rule_target \<or>
       ci_type t = NDL_INT \<and> ci_field t = F_table \<and> ci_min t = 0 \<and> ci_max t = 255)"
proof -
  have "list_all (\<lambda>t. ci_scope t = NDL_RULE \<longrightarrow> (ci_type t = NDL_NONE \<and> ci_cb t \<in> {Some CB_parse_rewrite, Some CB_parse_mode} \<or>
     ci_cb t = None \<and> (ci_type t = NDL_BOOL \<and> ci_field t = F_autowire \<or> ci_type t = NDL_LLADDR \<and> ci_field t = F_rule_target \<or>
       ci_type t = NDL_INT \<and> ci_field t = F_table \<and> ci_min t = 0 \<and> ci_max t = 255))) ndL_cfinfo_table"
    by (simp add: ndL_cfinfo_table_def cfinfo_def)
  then show ?thesis using assms by (simp add: list_all_iff)
qed

lemma rule_entry_goes:
  assumes "t \<in> set ndL_cfinfo_table" "ci_scope t = NDL_RULE" "reads d st r" "rule_inv pp rp s"
  shows "goes d r (rule_inv pp rp) (run_entry rule_cb t rp st s)"
  using rule_entries_table [OF assms(1,2)]
proof (elim disjE conjE)
  assume a: "ci_type t = NDL_NONE" "ci_cb t \<in> {Some CB_parse_rewrite, Some CB_parse_mode}"
  then obtain c where c: "ci_cb t = Some c" "c \<in> {CB_parse_rewrite, CB_parse_mode}" by auto
  from c(1) a(1) assms(3) show ?thesis
  proof (rule run_entry_callback)
    fix st r
    assume "reads d st r"
    with c(2) parse_rewrite_goes [OF _ assms(4)] parse_mode_goes [OF _ assms(4)]
    show "goes d r (rule_inv pp rp) (rule_cb c t rp st s)" by (auto simp: rule_cb_def)
  qed
next
  from assms(4) obtain x where x: "h_rule s rp = Some x" "rule_ranges x" "length (r_ifname x) < IF_NAMESIZE" by (rule rule_invE)
  note upd = rule_inv_update [OF assms(4) x(1)]
  {
    assume t: "ci_cb t = None" "ci_type t = NDL_BOOL" "ci_field t = F_autowire"
    show ?thesis
      by (rule entry_bool [OF t(1,2) assms(3)]) (use x in \<open>auto simp: set_bool_def t(3) rule_ranges_def intro!: upd\<close>)
  next
    assume t: "ci_cb t = None" "ci_type t = NDL_LLADDR" "ci_field t = F_rule_target"
    show ?thesis
      by (rule entry_lladdr [OF t(1,2) assms(3)]) (use x in \<open>auto simp: set_lladdr_def t(3) rule_ranges_def intro!: upd\<close>)
  next
    assume t: "ci_cb t = None" "ci_type t = NDL_INT" "ci_field t = F_table" "ci_min t = 0" "ci_max t = 255"
    show ?thesis
      by (rule entry_int [OF t(1,2) assms(3)]) (use x t(4,5) in \<open>auto simp: set_int_def t(3) rule_ranges_def intro!: upd\<close>)
  }
qed

interpretation rule_block: block_entries rule_cb NDL_RULE rp "rule_inv pp rp" for pp rp
  by unfold_locales (rule rule_entry_goes)

subsection \<open>Entries of a proxy\<close>

lemma rule_checked:
  assumes "reads d st r" "rule_inv pp rp s"
  shows "goes d r (proxy_inv pp) (check_rule st rp s)"
proof -
  from assms(2) obtain x where x: "h_rule s rp = Some x" "r_proxy x = pp" "rule_ranges x" "conf_part s" by (rule rule_invE)
  have "config_wf s" using x(4) by (simp add: conf_part_def config_inv_def)
  from config_wfD(4) [OF this x(1)] x(2) have "h_proxy s pp \<noteq> None" by auto
  moreover have "conf_inv s" if "rule_done x"
    using assms(2) that x(1) unfolding conf_inv_def rule_inv_def by (metis option.inject)
  ultimately show ?thesis using x assms(1) by (auto simp: check_rule_def rule_done_def proxy_inv_def intro!: goes_ok)
qed

lemma rule_created:
  assumes "proxy_inv pp s"
  shows "\<exists>rp s' r. nd_rule_create pp s = Some (rp, s') \<and> h_rule s' rp = Some r \<and>
     (\<forall>a n. n \<le> 128 \<longrightarrow> rule_inv pp rp (s'\<lparr>h_rule := (h_rule s')(rp \<mapsto> r\<lparr>r_addr := a, r_prefix := n, r_table := 254\<rparr>)\<rparr>))"
proof -
  have c: "config_inv s" "all_pending s" "distinct_names s" "conf_ranges s" "ndL_routes s = []"
    using assms by (simp_all add: proxy_inv_def conf_inv_def conf_part_def)
  obtain px where px: "h_proxy s pp = Some px" using assms by (auto simp: proxy_inv_def)
  obtain rp s' r where s': "nd_rule_create pp s = Some (rp, s')" "config_inv s'" "all_pending s'" "distinct_names s'"
    "h_rule s rp = None" "h_rule s' = (h_rule s)(rp \<mapsto> r)" "r_proxy r = pp"
    using nd_rule_create_ok [OF c(1-3) px] by blast
  have same: "nd_conf_invalid_ttl s' = nd_conf_invalid_ttl s" "nd_conf_valid_ttl s' = nd_conf_valid_ttl s"
    "nd_conf_stale_ttl s' = nd_conf_stale_ttl s" "nd_conf_retrans_limit s' = nd_conf_retrans_limit s"
    "nd_conf_retrans_time s' = nd_conf_retrans_time s" "ndL_routes s' = ndL_routes s"
    using s'(1) px by (auto simp: nd_rule_create_def Let_def)
  have new: "h_rule s' rp = Some r" "r_rewrite_pflen r = 0" "r_mode r = ND_MODE_UNKNOWN" "r_ifname r = []"
    using s'(1,6) px by (auto simp: nd_rule_create_def Let_def fun_eq_iff split: if_splits)
  have part: "conf_part s'" using c s' same by (simp add: conf_part_def conf_ranges_def)
  have "rule_inv pp rp (s'\<lparr>h_rule := (h_rule s')(rp \<mapsto> r\<lparr>r_addr := a, r_prefix := n, r_table := 254\<rparr>)\<rparr>)" if "n \<le> 128" for a n
  proof -
    have "conf_part (s'\<lparr>h_rule := (h_rule s')(rp \<mapsto> r\<lparr>r_addr := a, r_prefix := n, r_table := 254\<rparr>)\<rparr>)"
      by (rule conf_rule_update [OF part new(1)]) (simp_all add: new(4) IF_NAMESIZE_def)
    then show ?thesis using assms that new s'(6,7) by (auto simp: rule_inv_def rule_ranges_def proxy_inv_def conf_inv_def)
  qed
  then show ?thesis using s'(1) new(1) by blast
qed

lemma parse_rule_goes:
  assumes "reads d st r" "proxy_inv pp s"
  shows "goes d r (proxy_inv pp) (ndL_parse_rule st pp s)"
proof -
  obtain rp s1 x where s1: "nd_rule_create pp s = Some (rp, s1)" "h_rule s1 rp = Some x"
    "\<And>a n. n \<le> 128 \<Longrightarrow> rule_inv pp rp (s1\<lparr>h_rule := (h_rule s1)(rp \<mapsto> x\<lparr>r_addr := a, r_prefix := n, r_table := 254\<rparr>)\<rparr>)"
    using rule_created [OF assms(2)] by blast
  from accept_addr_reads [OF assms(1)] show ?thesis
  proof (cases rule: refines_cases)
    case 1
    then show ?thesis using s1(1) by (simp add: ndL_parse_rule_def)
  next
    case a: (2 st1 r1 a)
    from accept_prefix_reads [OF a(3)] show ?thesis
    proof (cases rule: refines_cases)
      case 1
      then show ?thesis using s1(1) a by (simp add: ndL_parse_rule_def)
    next
      case n: (2 st2 r2 n)
      have len: "length r2 \<le> length r" using prefix_text_length [OF n(1)] addr_text_length [OF a(1)] by simp
      let ?s = "s1\<lparr>h_rule := (h_rule s1)(rp \<mapsto> x\<lparr>r_addr := a, r_prefix := n, r_table := 254\<rparr>)\<rparr>"
      have "goes d r2 (rule_inv pp rp) (ndL_parse_block rule_cb NDL_RULE rp st2 ?s)"
        by (rule rule_block.block_goes [OF n(3) s1(3)]) (rule prefix_text_bound [OF n(1)])
      then show ?thesis
      proof (cases rule: goes_cases)
        case (1 e)
        then show ?thesis using s1(1,2) a n by (simp add: ndL_parse_rule_def)
      next
        case (2 st3 s3 r3)
        from rule_checked [OF 2(2,4)] have "goes d r (proxy_inv pp) (check_rule st3 rp s3)"
          by (rule goes_mono) (use 2(3) len in simp_all)
        then show ?thesis using s1(1,2) a n 2(1) by (simp add: ndL_parse_rule_def)
      qed
    qed
  qed
qed

lemma proxy_entries_table:
  assumes "t \<in> set ndL_cfinfo_table" "ci_scope t = NDL_PROXY"
  shows "ci_type t = NDL_NONE \<and> ci_cb t = Some CB_parse_rule \<or>
     ci_cb t = None \<and> (ci_type t = NDL_BOOL \<and> ci_field t = F_router \<or> ci_type t = NDL_BOOL \<and> ci_field t = F_promiscuous \<or>
       ci_type t = NDL_LLADDR \<and> ci_field t = F_proxy_target)"
proof -
  have "list_all (\<lambda>t. ci_scope t = NDL_PROXY \<longrightarrow> (ci_type t = NDL_NONE \<and> ci_cb t = Some CB_parse_rule \<or>
     ci_cb t = None \<and> (ci_type t = NDL_BOOL \<and> ci_field t = F_router \<or> ci_type t = NDL_BOOL \<and> ci_field t = F_promiscuous \<or>
       ci_type t = NDL_LLADDR \<and> ci_field t = F_proxy_target))) ndL_cfinfo_table"
    by (simp add: ndL_cfinfo_table_def cfinfo_def)
  then show ?thesis using assms by (simp add: list_all_iff)
qed

lemma proxy_inv_update:
  assumes "proxy_inv pp s" "h_proxy s pp = Some px" "p_ifname px' = p_ifname px" "p_iface px' = p_iface px" "p_rules px' = p_rules px"
  shows "proxy_inv pp (s\<lparr>h_proxy := (h_proxy s)(pp \<mapsto> px')\<rparr>)"
proof -
  have "conf_part s" using assms(1) by (simp add: proxy_inv_def conf_inv_def)
  from conf_proxy_update [OF this assms(2-5)] show ?thesis using assms by (simp add: proxy_inv_def conf_inv_def)
qed

lemma proxy_entry_goes:
  assumes "t \<in> set ndL_cfinfo_table" "ci_scope t = NDL_PROXY" "reads d st r" "proxy_inv pp s"
  shows "goes d r (proxy_inv pp) (run_entry proxy_cb t pp st s)"
proof -
  obtain px where px: "h_proxy s pp = Some px" using assms(4) by (auto simp: proxy_inv_def)
  note upd = proxy_inv_update [OF assms(4) px]
  have "goes d r (proxy_inv pp) (run_entry proxy_cb t pp st s)" if t: "ci_cb t = None" "ci_type t = NDL_BOOL" "ci_field t \<in> {F_router, F_promiscuous}"
    by (rule entry_bool [OF t(1,2) assms(3)]) (use px t(3) in \<open>auto simp: set_bool_def intro!: upd\<close>)
  moreover have "goes d r (proxy_inv pp) (run_entry proxy_cb t pp st s)" if t: "ci_cb t = None" "ci_type t = NDL_LLADDR" "ci_field t = F_proxy_target"
    by (rule entry_lladdr [OF t(1,2) assms(3)]) (use px t(3) in \<open>auto simp: set_lladdr_def intro!: upd\<close>)
  moreover have "goes d r (proxy_inv pp) (run_entry proxy_cb t pp st s)" if "ci_type t = NDL_NONE" "ci_cb t = Some CB_parse_rule"
    using that(2,1) assms(3) by (rule run_entry_callback) (simp add: proxy_cb_def parse_rule_goes [OF _ assms(4)])
  ultimately show ?thesis using proxy_entries_table [OF assms(1,2)] by auto
qed

interpretation proxy_block: block_entries proxy_cb NDL_PROXY pp "proxy_inv pp" for pp
  by unfold_locales (rule proxy_entry_goes)

subsection \<open>Entries of the file\<close>

lemma parse_proxy_goes:
  assumes "reads d st r" "conf_inv s"
  shows "goes d r conf_inv (ndL_parse_proxy st s)"
proof -
  have c: "config_inv s" "all_pending s" "distinct_names s" "conf_ranges s" "ndL_routes s = []"
    using assms by (simp_all add: conf_inv_def conf_part_def)
  have "refines d (ndL_accept_name st IF_NAMESIZE) (name_text IF_NAMESIZE r)"
    by (rule accept_name_reads [OF assms(1)]) (simp add: IF_NAMESIZE_def)
  then show ?thesis
  proof (cases rule: refines_cases)
    case 1
    then show ?thesis by (simp add: ndL_parse_proxy_def)
  next
    case (2 st1 r1 nm)
    then have "length nm < IF_NAMESIZE" using name_text_name by blast
    from nd_proxy_create_ok [OF c(1-3) this] obtain new s1 where s1: "nd_proxy_create nm s = Some (new, s1)" "config_inv s1" "all_pending s1"
      "distinct_names s1" "\<forall>pp. new = Some pp \<longrightarrow> h_proxy s1 pp \<noteq> None"
      by (fastforce split: option.splits)
    have "proxy_inv pp s1" if "new = Some pp" for pp
      using that s1 assms(2) c by (auto simp: proxy_inv_def conf_inv_def conf_part_def conf_ranges_def nd_proxy_create_def Let_def
          bind_eq_Some_conv split: option.splits)
    moreover have "proxy_inv pp s \<Longrightarrow> conf_inv s" for pp s by (simp add: proxy_inv_def)
    ultimately have "goes d r1 conf_inv (ndL_parse_block proxy_cb NDL_PROXY pp st1 s1)" if "new = Some pp" for pp
      using goes_mono [OF proxy_block.block_goes [OF 2(3)]] that by blast
    then show ?thesis
      using 2 s1(1) goes_mono [of d r1 conf_inv _ r conf_inv] name_text_length [OF 2(1)] by (auto simp: ndL_parse_proxy_def split: option.splits)
  qed
qed

lemma default_entries_table:
  assumes "t \<in> set ndL_cfinfo_table" "ci_scope t = NDL_DEFAULT"
  shows "ci_type t = NDL_NONE \<and> ci_cb t = Some CB_parse_proxy \<or>
     ci_cb t = None \<and> (ci_type t = NDL_BOOL \<and> ci_field t = F_keepalive \<or> ci_type t = NDL_INT \<and>
       (ci_field t, ci_min t, ci_max t) \<in> {(F_invalid_ttl, 1000, 3600000), (F_valid_ttl, 10000, 3600000), (F_renew, 0, 0),
          (F_retrans_limit, 0, 10), (F_retrans_time, 0, 60000)})"
proof -
  have "list_all (\<lambda>t. ci_scope t = NDL_DEFAULT \<longrightarrow> (ci_type t = NDL_NONE \<and> ci_cb t = Some CB_parse_proxy \<or>
     ci_cb t = None \<and> (ci_type t = NDL_BOOL \<and> ci_field t = F_keepalive \<or> ci_type t = NDL_INT \<and>
       (ci_field t, ci_min t, ci_max t) \<in> {(F_invalid_ttl, 1000, 3600000), (F_valid_ttl, 10000, 3600000), (F_renew, 0, 0),
          (F_retrans_limit, 0, 10), (F_retrans_time, 0, 60000)}))) ndL_cfinfo_table"
    by (simp add: ndL_cfinfo_table_def cfinfo_def)
  then show ?thesis using assms by (simp add: list_all_iff)
qed

lemma conf_variables [simp]:
  fixes s :: conf_state
  shows
  "config_inv (s\<lparr>nd_conf_invalid_ttl := v0\<rparr>) = config_inv s"
  "config_inv (s\<lparr>nd_conf_valid_ttl := v1\<rparr>) = config_inv s"
  "config_inv (s\<lparr>nd_conf_renew := v2\<rparr>) = config_inv s"
  "config_inv (s\<lparr>nd_conf_retrans_limit := v3\<rparr>) = config_inv s"
  "config_inv (s\<lparr>nd_conf_retrans_time := v4\<rparr>) = config_inv s"
  "config_inv (s\<lparr>nd_conf_keepalive := v5\<rparr>) = config_inv s"
  "all_pending (s\<lparr>nd_conf_invalid_ttl := v0\<rparr>) = all_pending s"
  "all_pending (s\<lparr>nd_conf_valid_ttl := v1\<rparr>) = all_pending s"
  "all_pending (s\<lparr>nd_conf_renew := v2\<rparr>) = all_pending s"
  "all_pending (s\<lparr>nd_conf_retrans_limit := v3\<rparr>) = all_pending s"
  "all_pending (s\<lparr>nd_conf_retrans_time := v4\<rparr>) = all_pending s"
  "all_pending (s\<lparr>nd_conf_keepalive := v5\<rparr>) = all_pending s"
  "distinct_names (s\<lparr>nd_conf_invalid_ttl := v0\<rparr>) = distinct_names s"
  "distinct_names (s\<lparr>nd_conf_valid_ttl := v1\<rparr>) = distinct_names s"
  "distinct_names (s\<lparr>nd_conf_renew := v2\<rparr>) = distinct_names s"
  "distinct_names (s\<lparr>nd_conf_retrans_limit := v3\<rparr>) = distinct_names s"
  "distinct_names (s\<lparr>nd_conf_retrans_time := v4\<rparr>) = distinct_names s"
  "distinct_names (s\<lparr>nd_conf_keepalive := v5\<rparr>) = distinct_names s"
  by (simp_all add: config_inv_def config_wf_def no_sessions_def iface_inv_def refs_of_def [abs_def] iface_proxies_ok_def
      all_pending_def distinct_names_def)

lemma default_entry_goes:
  assumes "t \<in> set ndL_cfinfo_table" "ci_scope t = NDL_DEFAULT" "reads d st r" "conf_inv s"
  shows "goes d r conf_inv (run_entry default_cb t p st s)"
proof -
  note inv = assms(4) [unfolded conf_inv_def conf_part_def conf_ranges_def]
  have "goes d r conf_inv (run_entry default_cb t p st s)" if t: "ci_cb t = None" "ci_type t = NDL_BOOL" "ci_field t = F_keepalive"
    by (rule entry_bool [OF t(1,2) assms(3)]) (use t(3) inv in \<open>auto simp: set_bool_def conf_inv_def conf_part_def conf_ranges_def\<close>)
  moreover have "goes d r conf_inv (run_entry default_cb t p st s)" if t: "ci_cb t = None" "ci_type t = NDL_INT"
    "(ci_field t, ci_min t, ci_max t) \<in> {(F_invalid_ttl, 1000, 3600000), (F_valid_ttl, 10000, 3600000), (F_renew, 0, 0),
          (F_retrans_limit, 0, 10), (F_retrans_time, 0, 60000)}"
    by (rule entry_int [OF t(1,2) assms(3)]) (use t(3) inv in \<open>auto simp: set_int_def conf_inv_def conf_part_def conf_ranges_def\<close>)
  moreover have "goes d r conf_inv (run_entry default_cb t p st s)" if "ci_type t = NDL_NONE" "ci_cb t = Some CB_parse_proxy"
    using that(2,1) assms(3) by (rule run_entry_callback) (simp add: default_cb_def parse_proxy_goes [OF _ assms(4)])
  ultimately show ?thesis using default_entries_table [OF assms(1,2)] by argo
qed

interpretation file_block: block_entries default_cb NDL_DEFAULT p conf_inv for p
  by unfold_locales (rule default_entry_goes)

subsection \<open>Loading a file\<close>

lemma initial_conf_inv: "conf_inv (initial_state now seed)"
  by (simp add: conf_inv_def conf_part_def conf_ranges_def config_inv_def config_wf_def no_sessions_def iface_inv_def iface_proxies_ok_def
      iface_entry_ok_def refs_of_def [abs_def] heap_count_def all_pending_def distinct_names_def initial_state_def)

lemma conf_load_inv:
  assumes "conf_inv s"
  shows "\<exists>r. nd_conf_load file s = Some r \<and> (\<forall>s'. r = Inr s' \<longrightarrow> conf_inv s')"
proof (cases "file = None \<or> file = Some []")
  case True
  then show ?thesis by (auto simp: nd_conf_load_def)
next
  case False
  then obtain buf where buf: "file = Some buf" "buf \<noteq> []" by auto
  let ?st = "\<lparr>cf_data = buf, cf_offset = 0, cf_length = length buf, cf_line = 1, cf_column = 0\<rparr>"
  have "reads buf ?st buf" by (simp add: reads_def)
  from file_block.block_goes [OF this assms, of 0] show ?thesis
    by (cases rule: goes_cases) (auto simp: nd_conf_load_def buf)
qed

declare block_loop.simps [code]

definition sample_file :: string where
  "sample_file =
     ''proxy eth0 {'' @ [CHR 0x0A] @ ''  rule 2001:db8::/32 { # downstream'' @ [CHR 0x0A] @
     ''    iface eth1'' @ [CHR 0x0A] @ ''    autowire'' @ [CHR 0x0A] @ ''  }'' @ [CHR 0x0A] @ ''}'' @ [CHR 0x0A]"

lemma sample_file_loads:
  "case nd_conf_load (Some sample_file) (initial_state 0 1) of
     Some (Inr s) \<Rightarrow>
       ndL_proxies s = [0] \<and>
       h_proxy s 0 = Some \<lparr>p_ifname = ''eth0'', p_target = zero_lladdr, p_iface = None, p_rules = [1], p_router = False, p_promiscuous = False\<rparr> \<and>
       h_rule s 1 = Some \<lparr>r_proxy = 0, r_ifname = ''eth1'', r_target = zero_lladdr, r_addr = Nd_addr 0xb80d0120 0 0 0, r_prefix = 32,
           r_rewrite_tgt = zero_addr, r_rewrite_pflen = 0, r_iface = None, r_autowire = True, r_table = 254,
           r_mode = ND_MODE_IFACE\<rparr>
   | _ \<Rightarrow> False"
  by code_simp



end
