(* ===== verification/Libc_Print.thy ===== *)
theory Libc_Print
  imports Libc_Text
begin

text \<open>
  Text that the functions of \<open>Libc_Text\<close> read back: decimal numerals, IPv6 addresses and link-layer addresses in full.  The
  statements about configuration files and the user database are in terms of these.
\<close>

subsection \<open>Decimal numerals\<close>

definition digit_char :: "nat \<Rightarrow> char" where
  "digit_char n = char_of (48 + n)"

fun numeral_text :: "nat \<Rightarrow> string" where
  "numeral_text n = (if n < 10 then [digit_char n] else numeral_text (n div 10) @ [digit_char (n mod 10)])"

declare numeral_text.simps [simp del]

lemma ord_char_of: "n < 256 \<Longrightarrow> ord (char_of n) = n"
  by (simp add: ord_def)

lemma digit_char: "n < 10 \<Longrightarrow> isdigit (digit_char n) \<and> digit_value (digit_char n) = n"
  by (simp add: digit_char_def isdigit_def digit_value_def ord_char_of)

lemma numeral_text_digits: "numeral_text n \<noteq> [] \<and> list_all isdigit (numeral_text n)"
proof (induction n rule: numeral_text.induct)
  case (1 n)
  then show ?case using digit_char [of n] digit_char [of "n mod 10"] by (simp add: numeral_text.simps [of n])
qed

lemma decimal_snoc: "decimal (ds @ [c]) = 10 * decimal ds + int (digit_value c)"
  by (simp add: decimal_def)

lemma decimal_numeral: "decimal (numeral_text n) = int n"
proof (induction n rule: numeral_text.induct)
  case (1 n)
  show ?case
  proof (cases "n < 10")
    case True
    then show ?thesis using digit_char [of n] by (simp add: numeral_text.simps [of n] decimal_def)
  next
    case False
    then have "decimal (numeral_text n) = 10 * int (n div 10) + int (n mod 10)"
      using 1 digit_char [of "n mod 10"] by (simp add: numeral_text.simps [of n] decimal_snoc)
    then show ?thesis by presburger
  qed
qed

lemma numeral_text_length: "n < 10 ^ k \<Longrightarrow> 0 < k \<Longrightarrow> length (numeral_text n) \<le> k"
proof (induction n arbitrary: k rule: numeral_text.induct)
  case (1 n)
  show ?case
  proof (cases "n < 10")
    case True
    then show ?thesis using 1 by (simp add: numeral_text.simps [of n])
  next
    case False
    obtain j where j: "k = Suc j" using \<open>0 < k\<close> by (cases k) auto
    with False \<open>n < 10 ^ k\<close> have "0 < j" "n div 10 < 10 ^ j" by (cases j; auto)+
    then have "length (numeral_text (n div 10)) \<le> j" using 1(1) False by simp
    then show ?thesis using False j by (simp add: numeral_text.simps [of n])
  qed
qed

lemma digit_not_space: "isdigit c \<Longrightarrow> \<not> isspace c \<and> c \<noteq> CHR ''-'' \<and> c \<noteq> CHR ''+'' \<and> c \<noteq> CHR '':''"
  by (auto simp: isdigit_def isspace_def ord_def)

lemma strtoll_digits:
  assumes "ds \<noteq> []" "list_all isdigit ds"
  shows "strtoll ds = (min (2 ^ 63 - 1) (decimal ds), [])"
proof -
  obtain c cs where ds: "ds = c # cs" "isdigit c" "list_all isdigit cs" using assms by (cases ds) auto
  have all: "takeWhile isdigit ds = ds" "dropWhile isdigit ds = []" using assms(2) by (simp_all add: takeWhile_eq_all_conv list_all_iff)
  have "0 \<le> fold (\<lambda>c n. 10 * n + int (digit_value c)) ds n" if "0 \<le> n" for n
    using that by (induction ds arbitrary: n) auto
  then have "0 \<le> decimal ds" by (simp add: decimal_def)
  moreover have "dropWhile isspace ds = ds" "hd ds \<noteq> CHR ''-''" "hd ds \<noteq> CHR ''+''" using digit_not_space [OF ds(2)] by (simp_all add: ds(1))
  ultimately show ?thesis using assms(1) unfolding strtoll_def Let_def by (simp add: all max_def)
qed

lemma strtoll_numeral: "n < 2 ^ 63 \<Longrightarrow> strtoll (numeral_text n) = (int n, [])"
  using strtoll_digits [of "numeral_text n"] numeral_text_digits [of n] by (simp add: decimal_numeral)

subsection \<open>Hexadecimal digits\<close>

definition hex_char :: "nat \<Rightarrow> char" where
  "hex_char n = char_of (if n < 10 then 48 + n else 87 + n)"

lemma hex_char:
  assumes "n < 16"
  shows "isxdigit (hex_char n)" "hex_value (hex_char n) = n" "hex_char n \<noteq> CHR '':''"
proof -
  have "ord (hex_char n) = (if n < 10 then 48 + n else 87 + n)" using assms by (simp add: hex_char_def ord_char_of)
  moreover have "ord (CHR '':'') = 58" by (simp add: ord_def)
  ultimately show "isxdigit (hex_char n)" "hex_value (hex_char n) = n" "hex_char n \<noteq> CHR '':''"
    using assms by (auto simp: isxdigit_def isdigit_def hex_value_def split: if_splits)
qed

definition byte_text :: "u8 \<Rightarrow> string" where
  "byte_text b = [hex_char (unat b div 16), hex_char (unat b mod 16)]"

lemma unat_byte: "unat (b :: u8) < 256"
  using unsigned_less [of b] by simp

lemma byte_digits: "unat (b :: u8) div 16 < 16" "unat b mod 16 < 16"
  using unat_byte [of b] by simp_all

lemma byte_value: "unat (b :: u8) div 16 * 16 + unat b mod 16 = unat b"
  by presburger

subsection \<open>Link-layer addresses\<close>

text \<open>The bytes with a separator in front of each but the first.\<close>

definition lladdr_full :: "nd_lladdr \<Rightarrow> string" where
  "lladdr_full l = tl (concat (map (\<lambda>b. CHR '':'' # byte_text b) (lladdr_bytes l)))"

lemma aton_step:
  "0 < n \<Longrightarrow> aton_loop (Suc n) (byte_text b @ CHR '':'' # cs) bs = aton_loop n cs (bs @ [unat b])"
  using hex_char [OF byte_digits(1) [of b]] hex_char [OF byte_digits(2) [of b]] byte_value [of b] by (simp add: byte_text_def)

lemma aton_last: "aton_loop (Suc 0) (byte_text b) bs = Some (bs @ [unat b])"
  using hex_char [OF byte_digits(1) [of b]] hex_char [OF byte_digits(2) [of b]] byte_value [of b]
  by (auto simp: byte_text_def isspace_def isxdigit_def isdigit_def)

lemma ether_aton_full: "ether_aton (lladdr_full l) = Some l"
proof -
  have bs: "lladdr_bytes l = [ll0 l, ll1 l, ll2 l, ll3 l, ll4 l, ll5 l]" by (rule lladdr_bytes_def)
  have six: "6 = Suc (Suc (Suc (Suc (Suc (Suc 0)))))" by simp
  have "aton_loop 6 (lladdr_full l) [] = Some (map unat (lladdr_bytes l))"
    unfolding lladdr_full_def bs six by (simp add: aton_step aton_last)
  then show ?thesis by (simp add: ether_aton_def o_def)
qed

subsection \<open>IPv6 addresses\<close>

definition group_text :: "u8 \<times> u8 \<Rightarrow> string" where
  "group_text g = byte_text (fst g) @ byte_text (snd g)"

definition group_value :: "u8 \<times> u8 \<Rightarrow> nat" where
  "group_value g = unat (fst g) * 256 + unat (snd g)"

definition groups_text :: "(u8 \<times> u8) list \<Rightarrow> string" where
  "groups_text gs = concat (map (\<lambda>g. CHR '':'' # group_text g) gs)"

definition addr_groups :: "nd_addr \<Rightarrow> (u8 \<times> u8) list" where
  "addr_groups a = map (\<lambda>i. (au8 LittleEndian a (2 * i), au8 LittleEndian a (2 * i + 1))) [0..<8]"

definition addr_full :: "nd_addr \<Rightarrow> string" where
  "addr_full a = tl (groups_text (addr_groups a))"

lemma pton6_group: "pton6_loop (group_text g @ cs) tok tp colon 0 0 = pton6_loop cs tok tp colon 4 (group_value g)"
proof -
  note h = hex_char [OF byte_digits(1)] hex_char [OF byte_digits(2)]
  have "((unat (fst g) div 16 * 16 + unat (fst g) mod 16) * 16 + unat (snd g) div 16) * 16 + unat (snd g) mod 16 = group_value g"
    using byte_value [of "fst g"] byte_value [of "snd g"] by (simp add: group_value_def)
  then have "pton6_loop (group_text g @ cs) tok tp colon 0 0 = pton6_loop cs tok tp colon (Suc (Suc (Suc (Suc 0)))) (group_value g)"
    using h by (simp add: group_text_def byte_text_def)
  then show ?thesis by (simp add: eval_nat_numeral)
qed

lemma group_value_bytes: "group_value g div 256 = unat (fst g)" "group_value g mod 256 = unat (snd g)"
  using unat_byte [of "snd g"] by (simp_all add: group_value_def)

definition group_bytes :: "(u8 \<times> u8) list \<Rightarrow> nat list" where
  "group_bytes gs = concat (map (\<lambda>g. [unat (fst g), unat (snd g)]) gs)"

lemma groups_text_Cons: "groups_text (g # gs) = CHR '':'' # group_text g @ groups_text gs"
  by (simp add: groups_text_def)

lemma pton6_groups:
  "length tp + 2 * length gs \<le> 14 \<Longrightarrow>
     pton6_loop (groups_text gs) tok tp None 4 (group_value g) =
     Some (tp @ group_bytes (butlast (g # gs)), None, 4, group_value (last (g # gs)))"
proof (induction gs arbitrary: tok tp g)
  case Nil
  then show ?case by (simp add: groups_text_def group_bytes_def)
next
  case (Cons h gs)
  have "\<not> isxdigit (CHR '':'')" "group_text h \<noteq> []" by (simp_all add: isxdigit_def isdigit_def ord_def group_text_def byte_text_def)
  then have "pton6_loop (groups_text (h # gs)) tok tp None 4 (group_value g) =
     pton6_loop (group_text h @ groups_text gs) (group_text h @ groups_text gs) (tp @ [unat (fst g), unat (snd g)]) None 0 0"
    using Cons.prems by (simp add: groups_text_Cons group_value_bytes)
  also have "\<dots> = pton6_loop (groups_text gs) (group_text h @ groups_text gs) (tp @ [unat (fst g), unat (snd g)]) None 4 (group_value h)"
    by (rule pton6_group)
  also have "\<dots> = Some ((tp @ [unat (fst g), unat (snd g)]) @ group_bytes (butlast (h # gs)), None, 4, group_value (last (h # gs)))"
    by (rule Cons.IH) (use Cons.prems in simp)
  finally show ?case by (simp add: group_bytes_def)
qed

lemma group_bytes_snoc: "gs \<noteq> [] \<Longrightarrow> group_bytes (butlast gs) @ [unat (fst (last gs)), unat (snd (last gs))] = group_bytes gs"
  by (induction gs rule: rev_induct) (simp_all add: group_bytes_def)

lemma inet_pton_full: "inet_pton (addr_full a) = Some a"
proof -
  obtain g gs where g: "addr_groups a = g # gs" "length gs = 7" by (simp add: addr_groups_def upt_rec)
  have full: "addr_full a = group_text g @ groups_text gs" by (simp add: addr_full_def g(1) groups_text_Cons)
  then obtain c cs where c: "addr_full a = c # cs" "c \<noteq> CHR '':''"
    using hex_char(3) [OF byte_digits(1), of "fst g"] by (simp add: group_text_def byte_text_def)
  have loop: "pton6_loop (addr_full a) (addr_full a) [] None 0 0 =
     Some (group_bytes (butlast (g # gs)), None, 4, group_value (last (g # gs)))"
    unfolding full pton6_group using pton6_groups [of "[]" gs] g(2) by simp
  have "length (group_bytes xs) = 2 * length xs" for xs by (induction xs) (simp_all add: group_bytes_def)
  then have "pton6_finish (group_bytes (butlast (g # gs)), None, 4, group_value (last (g # gs))) = Some (group_bytes (g # gs))"
    using g(2) group_bytes_snoc [of "g # gs"] by (simp add: pton6_finish_def group_value_bytes del: butlast.simps last.simps)
  moreover have "map of_nat (group_bytes (g # gs)) = addr_bytes LittleEndian a"
    unfolding g(1) [symmetric] by (simp add: addr_groups_def group_bytes_def addr_bytes_def upt_rec) (simp add: eval_nat_numeral)
  ultimately show ?thesis using c loop by (simp add: inet_pton_def)
qed

end
