(* ===== verification/Userspec.thy ===== *)
theory Userspec
  imports Libc_Print
begin

text \<open>
  Giving up root in \<^verbatim>\<open>src/ndppd.c\<close>: the argument of \<^verbatim>\<open>--user\<close>, looked up in \<^verbatim>\<open>/etc/passwd\<close> and \<^verbatim>\<open>/etc/group\<close> without
  the C library's user database, and the system calls that follow.  A file is its contents, \<open>None\<close> when it cannot be opened; a
  function that returns \<^verbatim>\<open>false\<close> gives \<open>None\<close>.
\<close>

subsection \<open>Fields of a line\<close>

definition ndL_all_digits :: "string \<Rightarrow> bool" where
  "ndL_all_digits s \<longleftrightarrow> s \<noteq> [] \<and> list_all (\<lambda>c. 48 \<le> ord c \<and> ord c \<le> 57) s"

primrec field_start :: "nat \<Rightarrow> string \<Rightarrow> string option" where
  "field_start 0 start = Some start"
| "field_start (Suc i) start =
     (case dropWhile (\<lambda>c. c \<noteq> CHR '':'') start of [] \<Rightarrow> None | c # start' \<Rightarrow> field_start i start')"

definition strip_line_end :: "string \<Rightarrow> string" where
  "strip_line_end f = rev (dropWhile (\<lambda>c. c = CHR 0x0A \<or> c = CHR 0x0D) (rev f))"

definition ndL_split_field :: "string \<Rightarrow> nat \<Rightarrow> nat \<Rightarrow> string option" where
  "ndL_split_field line n out_size = do {
     start \<leftarrow> field_start n line;
     let f = strip_line_end (takeWhile (\<lambda>c. c \<noteq> CHR '':'') start);
     if length f \<ge> out_size then None else Some f
   }"

subsection \<open>Users and groups\<close>

text \<open>What follows the match of a name ends the search, with or without a result.\<close>

definition user_entry :: "string \<Rightarrow> (u32 \<times> u32) option" where
  "user_entry line = do {
     uid_str \<leftarrow> ndL_split_field line 2 32;
     gid_str \<leftarrow> ndL_split_field line 3 32;
     if \<not> ndL_all_digits uid_str \<or> \<not> ndL_all_digits gid_str then None
     else Some (of_nat (fst (strtoul uid_str)), of_nat (fst (strtoul gid_str)))
   }"

definition group_entry :: "string \<Rightarrow> u32 option" where
  "group_entry line = do {
     gid_str \<leftarrow> ndL_split_field line 2 32;
     if \<not> ndL_all_digits gid_str then None else Some (of_nat (fst (strtoul gid_str)))
   }"

primrec lookup_loop :: "(string \<Rightarrow> 'e option) \<Rightarrow> string \<Rightarrow> string list \<Rightarrow> 'e option" where
  "lookup_loop entry name [] = None"
| "lookup_loop entry name (line # ls) =
     (case ndL_split_field (cstr line) 0 128 of
        None \<Rightarrow> lookup_loop entry name ls
      | Some field \<Rightarrow> if field \<noteq> name then lookup_loop entry name ls else entry (cstr line))"

definition ndL_lookup_user :: "string option \<Rightarrow> string \<Rightarrow> (u32 \<times> u32) option" where
  "ndL_lookup_user passwd name = do { txt \<leftarrow> passwd; lookup_loop user_entry name (fgets_lines 512 txt) }"

definition ndL_lookup_group :: "string option \<Rightarrow> string \<Rightarrow> u32 option" where
  "ndL_lookup_group grp name = do { txt \<leftarrow> grp; lookup_loop group_entry name (fgets_lines 512 txt) }"

definition ndL_parse_ulong :: "string \<Rightarrow> nat \<Rightarrow> nat option" where
  "ndL_parse_ulong s mx =
     (case strtoul s of (v, rest, erange) \<Rightarrow> if rest \<noteq> [] \<or> (v = 2 ^ 64 - 1 \<and> erange) \<or> v > mx then None else Some v)"

subsection \<open>The specification of a user\<close>

definition id_max :: nat where "id_max = 0xFFFFFFFE"

definition resolve_user :: "string option \<Rightarrow> string \<Rightarrow> (u32 \<times> u32) option" where
  "resolve_user passwd user_part =
     (if ndL_all_digits user_part then do { v \<leftarrow> ndL_parse_ulong user_part id_max; Some (of_nat v, of_nat v) }
      else ndL_lookup_user passwd user_part)"

definition resolve_group :: "string option \<Rightarrow> string \<Rightarrow> u32 option" where
  "resolve_group grp group_part =
     (if ndL_all_digits group_part then do { v \<leftarrow> ndL_parse_ulong group_part id_max; Some (of_nat v) }
      else ndL_lookup_group grp group_part)"

definition split_userspec :: "string \<Rightarrow> (string \<times> string option) option" where
  "split_userspec spec =
     (if spec = [] then None
      else case dropWhile (\<lambda>c. c \<noteq> CHR '':'') spec of
        [] \<Rightarrow> if length spec \<ge> 128 then None else Some (spec, None)
      | c # group_part \<Rightarrow>
          (let n = length (takeWhile (\<lambda>c. c \<noteq> CHR '':'') spec) in
           if CHR '':'' \<in> set group_part \<or> n = 0 \<or> n \<ge> 128 \<or> group_part = [] then None
           else Some (take n spec, Some group_part)))"

definition ndL_parse_userspec :: "string option \<Rightarrow> string option \<Rightarrow> string \<Rightarrow> (u32 \<times> u32) option" where
  "ndL_parse_userspec passwd grp spec = do {
     (user_part, group_part) \<leftarrow> split_userspec spec;
     (uid, gid) \<leftarrow> resolve_user passwd user_part;
     case group_part of
       None \<Rightarrow> Some (uid, gid)
     | Some g \<Rightarrow> do { gid' \<leftarrow> resolve_group grp g; Some (uid, gid') }
   }"

subsection \<open>Dropping privileges\<close>

text \<open>
  The calls in the order they are made, and \<open>sys\<close>, which says for a call whether the kernel accepts it.  The first refusal ends
  the function.
\<close>

datatype priv_call =
    Prctl_keepcaps
  | Setgroups "u32 list"
  | Setresgid u32 u32 u32
  | Setresuid u32 u32 u32
  | Capset u32 u32 u32   \<comment> \<open>effective, permitted, inheritable\<close>

definition CAP_NET_ADMIN :: nat where "CAP_NET_ADMIN = 12"
definition CAP_NET_RAW :: nat where "CAP_NET_RAW = 13"

definition cap_mask :: u32 where
  "cap_mask = push_bit CAP_NET_RAW 1 OR push_bit CAP_NET_ADMIN 1"

primrec run_calls :: "(priv_call \<Rightarrow> bool) \<Rightarrow> priv_call list \<Rightarrow> bool \<times> priv_call list" where
  "run_calls sys [] = (True, [])"
| "run_calls sys (c # cs) = (if \<not> sys c then (False, [c]) else (case run_calls sys cs of (ok, made) \<Rightarrow> (ok, c # made)))"

definition ndL_drop_privileges :: "(priv_call \<Rightarrow> bool) \<Rightarrow> string option \<Rightarrow> string option \<Rightarrow> string \<Rightarrow> bool \<times> priv_call list" where
  "ndL_drop_privileges sys passwd grp userspec =
     (case ndL_parse_userspec passwd grp userspec of
        None \<Rightarrow> (False, [])
      | Some (uid, gid) \<Rightarrow>
          if uid = 0 then (False, [])
          else run_calls sys
            [Prctl_keepcaps, Setgroups [gid], Setresgid gid gid gid, Setresuid uid uid uid, Capset cap_mask cap_mask 0])"

subsection \<open>The user database\<close>

text \<open>The files as the lines of their entries; a line has to fit the buffer of 512 bytes.\<close>

record pw_entry =
  pw_name :: string
  pw_passwd :: string
  pw_uid :: nat
  pw_gid :: nat
  pw_rest :: string

record gr_entry =
  gr_name :: string
  gr_passwd :: string
  gr_gid :: nat
  gr_rest :: string

definition pw_line :: "pw_entry \<Rightarrow> string" where
  "pw_line e = pw_name e @ CHR '':'' # pw_passwd e @ CHR '':'' # numeral_text (pw_uid e) @ CHR '':'' # numeral_text (pw_gid e) @
     CHR '':'' # pw_rest e"

definition gr_line :: "gr_entry \<Rightarrow> string" where
  "gr_line e = gr_name e @ CHR '':'' # gr_passwd e @ CHR '':'' # numeral_text (gr_gid e) @ CHR '':'' # gr_rest e"

definition field_ok :: "string \<Rightarrow> bool" where
  "field_ok f \<longleftrightarrow> list_all (\<lambda>c. c \<notin> {CHR 0x00, CHR 0x0A, CHR 0x0D, CHR '':''}) f"

definition pw_ok :: "pw_entry \<Rightarrow> bool" where
  "pw_ok e \<longleftrightarrow> field_ok (pw_name e) \<and> length (pw_name e) < 128 \<and> field_ok (pw_passwd e) \<and> pw_uid e < 2 ^ 32 \<and> pw_gid e < 2 ^ 32 \<and>
     CHR 0x00 \<notin> set (pw_rest e) \<and> CHR 0x0A \<notin> set (pw_rest e) \<and> length (pw_line e) < 511"

definition gr_ok :: "gr_entry \<Rightarrow> bool" where
  "gr_ok e \<longleftrightarrow> field_ok (gr_name e) \<and> length (gr_name e) < 128 \<and> field_ok (gr_passwd e) \<and> gr_gid e < 2 ^ 32 \<and>
     CHR 0x00 \<notin> set (gr_rest e) \<and> CHR 0x0A \<notin> set (gr_rest e) \<and> length (gr_line e) < 511"

definition file_text :: "('e \<Rightarrow> string) \<Rightarrow> 'e list \<Rightarrow> string" where
  "file_text line es = concat (map (\<lambda>e. line e @ [CHR 0x0A]) es)"

declare fgets_lines.simps [simp del]

lemma field_okD:
  assumes "field_ok f"
  shows "CHR '':'' \<notin> set f" "CHR 0x0A \<notin> set f" "CHR 0x00 \<notin> set f" "CHR 0x0D \<notin> set f"
  using assms by (auto simp: field_ok_def list_all_iff)

lemma digits_field_ok: "list_all isdigit f \<Longrightarrow> field_ok f"
  by (auto simp: field_ok_def list_all_iff isdigit_def ord_def)

lemma numeral_field_ok: "field_ok (numeral_text n)"
  using numeral_text_digits digits_field_ok by blast

lemma until_colon:
  assumes "CHR '':'' \<notin> set f"
  shows "takeWhile (\<lambda>c. c \<noteq> CHR '':'') (f @ CHR '':'' # r) = f" "dropWhile (\<lambda>c. c \<noteq> CHR '':'') (f @ CHR '':'' # r) = CHR '':'' # r"
  using assms by (induction f) auto

lemma field_start_next: "CHR '':'' \<notin> set f \<Longrightarrow> field_start (Suc n) (f @ CHR '':'' # r) = field_start n r"
  by (simp add: until_colon)

lemma split_this_field:
  assumes "field_ok f" "length f < m" "field_start n line = Some (f @ CHR '':'' # r)"
  shows "ndL_split_field line n m = Some f"
proof -
  have "takeWhile (\<lambda>c. c \<noteq> CHR '':'') (f @ CHR '':'' # r) = f"
    by (rule until_colon(1) [OF field_okD(1) [OF assms(1)]])
  moreover have "dropWhile (\<lambda>c. c = CHR 0x0A \<or> c = CHR 0x0D) (rev f) = rev f"
    using field_okD(2,4) [OF assms(1)] hd_in_set [of "rev f"] by (auto simp: dropWhile_eq_self_iff simp del: hd_rev)
  then have "strip_line_end f = f" by (simp add: strip_line_end_def)
  ultimately show ?thesis using assms(2,3) by (simp add: ndL_split_field_def Let_def)
qed

lemma strtoul_digits:
  assumes "ds \<noteq> []" "list_all isdigit ds"
  shows "strtoul ds = (if 2 ^ 64 \<le> nat (decimal ds) then (2 ^ 64 - 1, [], True) else (nat (decimal ds), [], False))"
proof -
  obtain c cs where ds: "ds = c # cs" "isdigit c" using assms by (cases ds) auto
  have all: "takeWhile isdigit ds = ds" "dropWhile isdigit ds = []" using assms(2) by (simp_all add: takeWhile_eq_all_conv list_all_iff)
  have "dropWhile isspace ds = ds" "hd ds \<noteq> CHR ''-''" "hd ds \<noteq> CHR ''+''" using digit_not_space [OF ds(2)] by (simp_all add: ds(1))
  then show ?thesis using assms(1) unfolding strtoul_def Let_def by (simp add: all)
qed

lemma strtoul_numeral: "n < 2 ^ 64 \<Longrightarrow> strtoul (numeral_text n) = (n, [], False)"
  using strtoul_digits [of "numeral_text n"] numeral_text_digits [of n] by (simp add: decimal_numeral)

lemma all_digits_numeral: "ndL_all_digits (numeral_text n)"
  using numeral_text_digits [of n] by (simp add: ndL_all_digits_def isdigit_def [abs_def])

lemma numeral_short: "n < 2 ^ 32 \<Longrightarrow> length (numeral_text n) < 32"
  using numeral_text_length [of n 10] by simp

lemma user_entry_line:
  assumes "pw_ok e"
  shows "user_entry (pw_line e @ x) = Some (of_nat (pw_uid e), of_nat (pw_gid e))" "ndL_split_field (pw_line e @ x) 0 128 = Some (pw_name e)"
proof -
  have ok: "field_ok (pw_name e)" "field_ok (pw_passwd e)" "length (pw_name e) < 128" "pw_uid e < 2 ^ 32" "pw_gid e < 2 ^ 32"
    using assms by (simp_all add: pw_ok_def)
  have two: "2 = Suc (Suc 0)" and three: "3 = Suc (Suc (Suc 0))" by simp_all
  note start = field_start_next [OF field_okD(1) [OF ok(1)]] field_start_next [OF field_okD(1) [OF ok(2)]]
    field_start_next [OF field_okD(1) [OF numeral_field_ok]]
  show "ndL_split_field (pw_line e @ x) 0 128 = Some (pw_name e)"
    by (rule split_this_field [OF ok(1,3)]) (simp add: pw_line_def)
  have "ndL_split_field (pw_line e @ x) 2 32 = Some (numeral_text (pw_uid e))"
    by (rule split_this_field [OF numeral_field_ok numeral_short [OF ok(4)]]) (simp only: pw_line_def append_assoc append_Cons two start field_start.simps(1))
  moreover have "ndL_split_field (pw_line e @ x) 3 32 = Some (numeral_text (pw_gid e))"
    by (rule split_this_field [OF numeral_field_ok numeral_short [OF ok(5)]]) (simp only: pw_line_def append_assoc append_Cons three start field_start.simps(1))
  ultimately show "user_entry (pw_line e @ x) = Some (of_nat (pw_uid e), of_nat (pw_gid e))"
    using ok(4,5) by (simp add: user_entry_def all_digits_numeral strtoul_numeral)
qed

lemma group_entry_line:
  assumes "gr_ok e"
  shows "group_entry (gr_line e @ x) = Some (of_nat (gr_gid e))" "ndL_split_field (gr_line e @ x) 0 128 = Some (gr_name e)"
proof -
  have ok: "field_ok (gr_name e)" "field_ok (gr_passwd e)" "length (gr_name e) < 128" "gr_gid e < 2 ^ 32"
    using assms by (simp_all add: gr_ok_def)
  have two: "2 = Suc (Suc 0)" by simp
  note start = field_start_next [OF field_okD(1) [OF ok(1)]] field_start_next [OF field_okD(1) [OF ok(2)]]
  show "ndL_split_field (gr_line e @ x) 0 128 = Some (gr_name e)"
    by (rule split_this_field [OF ok(1,3)]) (simp add: gr_line_def)
  have "ndL_split_field (gr_line e @ x) 2 32 = Some (numeral_text (gr_gid e))"
    by (rule split_this_field [OF numeral_field_ok numeral_short [OF ok(4)]]) (simp only: gr_line_def append_assoc append_Cons two start field_start.simps(1))
  then show "group_entry (gr_line e @ x) = Some (of_nat (gr_gid e))"
    using ok(4) by (simp add: group_entry_def all_digits_numeral strtoul_numeral)
qed

text \<open>What the lookup needs of a kind of file, and what it then finds.\<close>

locale line_database =
  fixes line :: "'e \<Rightarrow> string" and name :: "'e \<Rightarrow> string" and entry :: "string \<Rightarrow> 'v option" and val :: "'e \<Rightarrow> 'v" and ok :: "'e \<Rightarrow> bool"
  assumes line_name: "ok e \<Longrightarrow> ndL_split_field (line e @ x) 0 128 = Some (name e)"
    and line_entry: "ok e \<Longrightarrow> entry (line e @ x) = Some (val e)"
    and line_text: "ok e \<Longrightarrow> CHR 0x00 \<notin> set (line e) \<and> CHR 0x0A \<notin> set (line e) \<and> length (line e) < 511"
begin

lemma first_line:
  assumes "ok e"
  shows "fgets_lines 512 (file_text line (e # es)) = (line e @ [CHR 0x0A]) # fgets_lines 512 (file_text line es)"
    and "cstr (line e @ [CHR 0x0A]) = line e @ [CHR 0x0A]"
proof -
  have t: "CHR 0x00 \<notin> set (line e)" "CHR 0x0A \<notin> set (line e)" "length (line e) < 511" using line_text [OF assms] by simp_all
  let ?txt = "line e @ CHR 0x0A # file_text line es"
  have ft: "file_text line (e # es) = ?txt" by (simp add: file_text_def)
  have "takeWhile (\<lambda>c. c \<noteq> CHR 0x0A) (l @ CHR 0x0A # r) = l" if "CHR 0x0A \<notin> set l" for l r using that by (induction l) auto
  from this [OF t(2)] have len: "fgets_length 512 ?txt = Suc (length (line e))" using t(3) by (simp add: fgets_length_def)
  show "fgets_lines 512 (file_text line (e # es)) = (line e @ [CHR 0x0A]) # fgets_lines 512 (file_text line es)"
    unfolding ft by (subst fgets_lines.simps) (simp add: len)
  show "cstr (line e @ [CHR 0x0A]) = line e @ [CHR 0x0A]"
    using t(1) unfolding cstr_def by (subst takeWhile_eq_all_conv) auto
qed

lemma lookup: "list_all ok es \<Longrightarrow> lookup_loop entry n (fgets_lines 512 (file_text line es)) = map_option val (find (\<lambda>e. name e = n) es)"
proof (induction es)
  case Nil
  then show ?case by (simp add: file_text_def fgets_lines.simps [of 512 "[]"])
next
  case (Cons e es)
  then have "ok e" by simp
  then show ?case using Cons first_line(1) [of e es] first_line(2) [of e] line_name [of e] line_entry [of e] by simp
qed

end

lemma field_chars: "field_ok f \<Longrightarrow> CHR 0x00 \<notin> set f \<and> CHR 0x0A \<notin> set f"
  using field_okD by blast

interpretation users: line_database pw_line pw_name user_entry "\<lambda>e. (of_nat (pw_uid e), of_nat (pw_gid e))" pw_ok
proof unfold_locales
  fix e
  assume "pw_ok e"
  then show "CHR 0x00 \<notin> set (pw_line e) \<and> CHR 0x0A \<notin> set (pw_line e) \<and> length (pw_line e) < 511"
    using field_chars [OF numeral_field_ok] field_chars by (auto simp: pw_ok_def pw_line_def)
qed (simp_all add: user_entry_line)

interpretation groups: line_database gr_line gr_name group_entry "\<lambda>e. of_nat (gr_gid e)" gr_ok
proof unfold_locales
  fix e
  assume "gr_ok e"
  then show "CHR 0x00 \<notin> set (gr_line e) \<and> CHR 0x0A \<notin> set (gr_line e) \<and> length (gr_line e) < 511"
    using field_chars [OF numeral_field_ok] field_chars by (auto simp: gr_ok_def gr_line_def)
qed (simp_all add: group_entry_line)

subsection \<open>What a specification means\<close>

definition numeric_id :: "string \<Rightarrow> u32 option" where
  "numeric_id s = (if decimal s \<le> 0xFFFFFFFE then Some (of_int (decimal s)) else None)"

definition user_ids :: "pw_entry list \<Rightarrow> string \<Rightarrow> (u32 \<times> u32) option" where
  "user_ids us u =
     (if u \<noteq> [] \<and> list_all isdigit u then map_option (\<lambda>v. (v, v)) (numeric_id u)
      else map_option (\<lambda>e. (of_nat (pw_uid e), of_nat (pw_gid e))) (find (\<lambda>e. pw_name e = u) us))"

definition group_id :: "gr_entry list \<Rightarrow> string \<Rightarrow> u32 option" where
  "group_id gs g =
     (if g \<noteq> [] \<and> list_all isdigit g then numeric_id g else map_option (\<lambda>e. of_nat (gr_gid e)) (find (\<lambda>e. gr_name e = g) gs))"

lemma all_digits_iff: "ndL_all_digits s \<longleftrightarrow> s \<noteq> [] \<and> list_all isdigit s"
  by (simp add: ndL_all_digits_def isdigit_def [abs_def])

lemma decimal_nonneg: "0 \<le> decimal ds"
proof -
  have "0 \<le> fold (\<lambda>c n. 10 * n + int (digit_value c)) ds n" if "0 \<le> n" for n
    using that by (induction ds arbitrary: n) auto
  then show ?thesis by (simp add: decimal_def)
qed

lemma parse_ulong_digits:
  assumes "ndL_all_digits s"
  shows "ndL_parse_ulong s id_max = (if decimal s \<le> 0xFFFFFFFE then Some (nat (decimal s)) else None)"
  using assms strtoul_digits [of s] decimal_nonneg [of s] by (auto simp: all_digits_iff ndL_parse_ulong_def id_max_def)

lemma resolve_user_ids: "list_all pw_ok us \<Longrightarrow> resolve_user (Some (file_text pw_line us)) u = user_ids us u"
  using parse_ulong_digits [of u] decimal_nonneg [of u] users.lookup [of us u]
  by (auto simp: resolve_user_def user_ids_def numeric_id_def ndL_lookup_user_def all_digits_iff of_nat_nat)

lemma resolve_group_id: "list_all gr_ok gs \<Longrightarrow> resolve_group (Some (file_text gr_line gs)) g = group_id gs g"
  using parse_ulong_digits [of g] decimal_nonneg [of g] groups.lookup [of gs g]
  by (auto simp: resolve_group_def group_id_def numeric_id_def ndL_lookup_group_def all_digits_iff of_nat_nat)

lemma split_userspec_user:
  assumes "u \<noteq> []" "CHR '':'' \<notin> set u" "length u < 128"
  shows "split_userspec u = Some (u, None)"
    and "split_userspec (u @ CHR '':'' # g) = (if g = [] \<or> CHR '':'' \<in> set g then None else Some (u, Some g))"
proof -
  have none: "dropWhile (\<lambda>c. c \<noteq> CHR '':'') u = []" using assms(2) by auto
  show "split_userspec u = Some (u, None)" using assms(1,3) by (simp add: split_userspec_def none)
  show "split_userspec (u @ CHR '':'' # g) = (if g = [] \<or> CHR '':'' \<in> set g then None else Some (u, Some g))"
    using assms(1,3) until_colon [OF assms(2), of g] by (auto simp: split_userspec_def Let_def)
qed

definition sample_users :: "pw_entry list" where
  "sample_users =
    [\<lparr>pw_name = ''root'', pw_passwd = ''x'', pw_uid = 0, pw_gid = 0, pw_rest = ''root:/root:/bin/sh''\<rparr>,
     \<lparr>pw_name = ''nobody'', pw_passwd = ''x'', pw_uid = 65534, pw_gid = 65534, pw_rest = ''nobody:/:/bin/false''\<rparr>]"

definition sample_groups :: "gr_entry list" where
  "sample_groups = [\<lparr>gr_name = ''nogroup'', gr_passwd = ''x'', gr_gid = 65533, gr_rest = []\<rparr>]"

lemma sample_database_ok: "list_all pw_ok sample_users" "list_all gr_ok sample_groups"
  by (simp_all add: sample_users_def sample_groups_def pw_ok_def gr_ok_def field_ok_def pw_line_def gr_line_def numeral_text.simps)



lemma run_calls_result:
  assumes "run_calls sys cs = (ok, made)"
  shows "if ok then made = cs \<and> list_all sys cs else \<exists>c rest. cs = made @ rest \<and> made \<noteq> [] \<and> list_all sys (butlast made) \<and> \<not> sys (last made)"
  using assms
proof (induction cs arbitrary: ok made)
  case (Cons c cs)
  then show ?case by (cases "run_calls sys cs") (fastforce split: if_splits)
qed simp

text \<open>
  C22: privileges are given up in the right order or the daemon does not go on.  On success the kernel has accepted, in this order,
  keeping the capabilities, the one supplementary group, the group and the user, never user 0, and then the restriction to exactly
  the two network capabilities.  On failure either nothing was tried or the last call made was refused, and all before it are the
  first of that sequence.
\<close>

theorem privileges_dropped:
  assumes "ndL_drop_privileges sys passwd grp spec = (ok, made)"
  shows "made = [] \<and> \<not> ok \<or>
     (\<exists>uid gid rest. ndL_parse_userspec passwd grp spec = Some (uid, gid) \<and> uid \<noteq> 0 \<and>
        [Prctl_keepcaps, Setgroups [gid], Setresgid gid gid gid, Setresuid uid uid uid, Capset 0x3000 0x3000 0] = made @ rest \<and>
        list_all sys (butlast made) \<and> (if ok then rest = [] \<and> sys (last made) else made \<noteq> [] \<and> \<not> sys (last made)))"
proof (cases "ndL_parse_userspec passwd grp spec")
  case None
  then show ?thesis using assms by (simp add: ndL_drop_privileges_def)
next
  case (Some ids)
  obtain uid gid where ids: "ids = (uid, gid)" by (cases ids)
  have mask: "cap_mask = 0x3000" by (simp add: cap_mask_def CAP_NET_RAW_def CAP_NET_ADMIN_def)
  show ?thesis
  proof (cases "uid = 0")
    case True
    then show ?thesis using assms Some ids by (simp add: ndL_drop_privileges_def)
  next
    case False
    let ?cs = "[Prctl_keepcaps, Setgroups [gid], Setresgid gid gid gid, Setresuid uid uid uid, Capset 0x3000 0x3000 0]"
    have "run_calls sys ?cs = (ok, made)" using assms Some ids False by (simp add: ndL_drop_privileges_def mask)
    from run_calls_result [OF this] show ?thesis using Some ids False by (cases ok) auto
  qed
qed

theorem privileges_dropped_witness:
  "\<exists>made. ndL_drop_privileges (\<lambda>c. c \<noteq> Setresuid 65534 65534 65534) None None ''65534'' = (False, made) \<and> last made = Setresuid 65534 65534 65534"
proof -
  let ?sys = "\<lambda>c. c \<noteq> Setresuid 65534 65534 65534"
  have digits: "ndL_all_digits ''65534''" by (simp add: ndL_all_digits_def ord_def)
  have "decimal ''65534'' = 65534" by (simp add: decimal_def digit_value_def ord_def)
  then have parse: "ndL_parse_userspec None None ''65534'' = Some (65534, 65534)"
    by (simp add: ndL_parse_userspec_def split_userspec_def resolve_user_def parse_ulong_digits [OF digits] digits)
  obtain ok made where r: "ndL_drop_privileges ?sys None None ''65534'' = (ok, made)" by fastforce
  have ok: "\<not> ok" "made \<noteq> []" using r by (simp_all add: ndL_drop_privileges_def parse) blast+
  with privileges_dropped [OF r] have "\<not> ?sys (last made)" by auto
  then show ?thesis using r ok by auto
qed

subsection \<open>Lines that do not fit\<close>

text \<open>
  A line of more than 511 characters is read in pieces, and a piece is taken for a line: where the last piece of a line of
  \<^verbatim>\<open>/etc/group\<close>, the last member of a large group for instance, is the name that is looked for, the search ends there without a
  result, whatever follows.
\<close>

lemma long_line_hides_group:
  assumes "length l = 511" "CHR 0x0A \<notin> set l" "ndL_split_field (cstr l) 0 128 \<noteq> Some name" "field_ok name" "length name < 128"
  shows "ndL_lookup_group (Some (l @ name @ CHR 0x0A # rest)) name = None"
proof -
  have tw: "takeWhile (\<lambda>c. c \<noteq> CHR 0x0A) (xs @ CHR 0x0A # r) = xs" if "CHR 0x0A \<notin> set xs" for xs r
    using that by (induction xs) auto
  note nm = field_okD [OF assms(4)]
  let ?second = "name @ CHR 0x0A # rest"
  have "fgets_length 512 (l @ ?second) = 511"
    using tw [of "l @ name" rest] assms(1,2) nm(2) by (simp add: fgets_length_def)
  then have first: "fgets_lines 512 (l @ ?second) = l # fgets_lines 512 ?second" using assms(1) by (subst fgets_lines.simps) simp
  have "fgets_length 512 ?second = Suc (length name)" using tw [of name rest] assms(5) nm(2) by (simp add: fgets_length_def)
  then have second: "fgets_lines 512 ?second = (name @ [CHR 0x0A]) # fgets_lines 512 rest" by (subst fgets_lines.simps) simp
  have c: "cstr (name @ [CHR 0x0A]) = name @ [CHR 0x0A]" using nm(3) unfolding cstr_def by (subst takeWhile_eq_all_conv) auto
  have whole: "takeWhile (\<lambda>c. c \<noteq> CHR '':'') (name @ [CHR 0x0A]) = name @ [CHR 0x0A]" "dropWhile (\<lambda>c. c \<noteq> CHR '':'') (name @ [CHR 0x0A]) = []"
    using nm(1) by (auto simp: takeWhile_eq_all_conv dropWhile_eq_Nil_conv)
  have strip: "strip_line_end (name @ [CHR 0x0A]) = name"
    using nm(2,4) hd_in_set [of "rev name"] by (auto simp: strip_line_end_def dropWhile_eq_self_iff rev_swap simp del: hd_rev)
  have "field_start (Suc (Suc 0)) (name @ [CHR 0x0A]) = None" by (simp only: field_start.simps whole list.case)
  then have "group_entry (name @ [CHR 0x0A]) = None" by (simp add: ndL_split_field_def group_entry_def numeral_2_eq_2)
  moreover have "ndL_split_field (name @ [CHR 0x0A]) 0 128 = Some name"
    using assms(5) by (simp only: ndL_split_field_def field_start.simps(1) Option.bind.simps Let_def whole strip) simp
  ultimately show ?thesis using assms(3) by (auto simp: ndL_lookup_group_def first second c split: option.splits)
qed

end
