(* ===== verification/Io.thy ===== *)
theory Io
  imports Nd_Prelude
begin

text \<open>
  The registry of sockets in \<^verbatim>\<open>src/io.c\<close> (the epoll build): creation, registration with epoll, closing, and the system calls that are
  repeated when a signal interrupts them.  Beside the registry the state has what the kernel keeps for the process: the open
  descriptors and the interest list of the epoll instance, an entry of which carries the pointer that \<open>epoll_wait\<close> hands back.
\<close>

subsection \<open>State\<close>

datatype io_handler = Iface_io_handler | Rt_io_handler

record nd_io =
  io_fd :: int
  io_handler :: "io_handler option"

record io_state =
  h_io :: "ptr \<rightharpoonup> nd_io"
  ndL_first_io :: "ptr list"
  ndL_epoll_fd :: int
  io_heap_next :: ptr
  open_fds :: "int list"
  epoll_list :: "(int \<times> ptr) list"

text \<open>What the kernel answers: descriptors, negative on failure, and whether the other calls succeed.\<close>

record io_kernel =
  k_socket :: int
  k_getfl :: bool
  k_setfl :: bool
  k_epoll_create :: int
  k_epoll_add :: bool

definition fd_close :: "int \<Rightarrow> io_state \<Rightarrow> io_state" where
  "fd_close fd s = s\<lparr>open_fds := remove1 fd (open_fds s), epoll_list := filter (\<lambda>e. fst e \<noteq> fd) (epoll_list s)\<rparr>"

subsection \<open>Creating and closing\<close>

definition io_fail :: "ptr \<Rightarrow> int \<Rightarrow> io_state \<Rightarrow> io_state" where
  "io_fail p fd s = (fd_close fd (s\<lparr>ndL_first_io := remove1 p (ndL_first_io s)\<rparr>))\<lparr>h_io := (h_io s)(p := None)\<rparr>"

definition ndL_create :: "io_kernel \<Rightarrow> int \<Rightarrow> io_state \<Rightarrow> ptr option \<times> io_state" where
  "ndL_create k fd s =
     (if \<not> k_getfl k then (None, fd_close fd s)
      else if \<not> k_setfl k then (None, fd_close fd s)
      else
        (let p = io_heap_next s;
             s1 = s\<lparr>h_io := (h_io s)(p \<mapsto> \<lparr>io_fd = fd, io_handler = None\<rparr>), ndL_first_io := p # ndL_first_io s, io_heap_next := Suc p\<rparr>;
             new = (ndL_epoll_fd s1 \<le> 0);
             s2 = (if new then s1\<lparr>ndL_epoll_fd := k_epoll_create k,
                                  open_fds := (if k_epoll_create k < 0 then open_fds s1 else k_epoll_create k # open_fds s1)\<rparr> else s1)
         in if new \<and> k_epoll_create k < 0 then (None, io_fail p fd s2)
            else if \<not> k_epoll_add k then (None, io_fail p fd s2)
            else (Some p, s2\<lparr>epoll_list := (fd, p) # epoll_list s2\<rparr>)))"

definition nd_io_socket :: "io_kernel \<Rightarrow> io_state \<Rightarrow> ptr option \<times> io_state" where
  "nd_io_socket k s = (if k_socket k = -1 then (None, s) else ndL_create k (k_socket k) (s\<lparr>open_fds := k_socket k # open_fds s\<rparr>))"

text \<open>\<open>nd_io_open\<close> differs only in the system call that returns the descriptor.\<close>

definition nd_io_open :: "io_kernel \<Rightarrow> io_state \<Rightarrow> ptr option \<times> io_state" where
  "nd_io_open k s = (if k_socket k = -1 then (None, s) else ndL_create k (k_socket k) (s\<lparr>open_fds := k_socket k # open_fds s\<rparr>))"

definition nd_io_close :: "ptr option \<Rightarrow> io_state \<Rightarrow> io_state option" where
  "nd_io_close io s =
     (case io of
        None \<Rightarrow> Some s
      | Some p \<Rightarrow> do {
          x \<leftarrow> h_io s p;
          let s1 = fd_close (io_fd x) s;
          Some (s1\<lparr>ndL_first_io := remove1 p (ndL_first_io s1), h_io := (h_io s1)(p := None)\<rparr>)
        })"

definition set_handler :: "ptr \<Rightarrow> io_handler \<Rightarrow> io_state \<Rightarrow> io_state option" where
  "set_handler p h s = do { x \<leftarrow> h_io s p; Some (s\<lparr>h_io := (h_io s)(p \<mapsto> x\<lparr>io_handler := Some h\<rparr>)\<rparr>) }"

definition nd_io_cleanup :: "io_state \<Rightarrow> io_state option" where
  "nd_io_cleanup s = do {
     s1 \<leftarrow> foldM (\<lambda>p. nd_io_close (Some p)) (ndL_first_io s) s;
     Some (if ndL_epoll_fd s1 > 0 then (fd_close (ndL_epoll_fd s1) s1)\<lparr>ndL_epoll_fd := 0\<rparr> else s1)
   }"

subsection \<open>Interrupted system calls\<close>

text \<open>
  The results of one call after the other, a count or an error.  A call that fails with EINTR is made again; no result is \<open>None\<close>,
  the call is still waiting.
\<close>

datatype sys_error = EINTR | EAGAIN | EOTHER

fun retry :: "(sys_error + 'a) list \<Rightarrow> (sys_error + 'a) option" where
  "retry [] = None"
| "retry (Inl EINTR # rs) = retry rs"
| "retry (r # rs) = Some r"

definition length_of :: "sys_error + nat \<Rightarrow> int" where
  "length_of r = (case r of Inl _ \<Rightarrow> -1 | Inr n \<Rightarrow> int n)"

definition nd_io_recv :: "(sys_error + nat) list \<Rightarrow> int option" where
  "nd_io_recv rs = map_option length_of (retry rs)"

definition nd_io_read :: "(sys_error + nat) list \<Rightarrow> int option" where
  "nd_io_read rs = map_option length_of (retry rs)"

definition nd_io_send :: "sys_error + nat \<Rightarrow> int" where
  "nd_io_send r = length_of r"

definition nd_io_write :: "sys_error + nat \<Rightarrow> int" where
  "nd_io_write r = length_of r"

subsection \<open>The invariant of the registry\<close>

text \<open>
  \<open>base\<close> are the descriptors that belong to others.  Every other open descriptor is the epoll instance or belongs to exactly one
  live entry, and the interest list has exactly the live entries.
\<close>

definition fds_of :: "io_state \<Rightarrow> int set" where
  "fds_of s = {io_fd x |p x. h_io s p = Some x}"

definition io_inv :: "int set \<Rightarrow> io_state \<Rightarrow> bool" where
  "io_inv base s \<longleftrightarrow>
     distinct (ndL_first_io s) \<and> set (ndL_first_io s) = dom (h_io s) \<and> (\<forall>p\<in>dom (h_io s). p < io_heap_next s) \<and>
     (\<forall>p q x y. h_io s p = Some x \<longrightarrow> h_io s q = Some y \<longrightarrow> io_fd x = io_fd y \<longrightarrow> p = q) \<and>
     distinct (epoll_list s) \<and> set (epoll_list s) = {(io_fd x, p) |p x. h_io s p = Some x} \<and>
     distinct (open_fds s) \<and> set (open_fds s) = base \<union> fds_of s \<union> (if ndL_epoll_fd s > 0 then {ndL_epoll_fd s} else {}) \<and>
     base \<inter> fds_of s = {} \<and> (0 < ndL_epoll_fd s \<longrightarrow> ndL_epoll_fd s \<notin> base \<union> fds_of s)"

text \<open>
  What POSIX promises of descriptors: a new one is the lowest number that is not in use.
\<close>

definition lowest_free :: "int \<Rightarrow> int list \<Rightarrow> bool" where
  "lowest_free fd fds \<longleftrightarrow> 0 \<le> fd \<and> fd \<notin> set fds \<and> (\<forall>n. 0 \<le> n \<longrightarrow> n < fd \<longrightarrow> n \<in> set fds)"

definition io_kernel_ok :: "io_kernel \<Rightarrow> int list \<Rightarrow> bool" where
  "io_kernel_ok k fds \<longleftrightarrow>
     (k_socket k \<noteq> -1 \<longrightarrow> lowest_free (k_socket k) fds \<and> (k_epoll_create k < 0 \<or> lowest_free (k_epoll_create k) (k_socket k # fds)))"

text \<open>The socket took the lowest number, so the epoll instance never gets 0, which would read as \<open>not created\<close>.\<close>

lemma epoll_not_zero: "lowest_free fd fds \<Longrightarrow> lowest_free e (fd # fds) \<Longrightarrow> 0 < e"
  unfolding lowest_free_def by (cases "e = 0") force+

lemma io_invD:
  assumes "io_inv base s"
  shows "distinct (ndL_first_io s)" "set (ndL_first_io s) = dom (h_io s)" "p \<in> dom (h_io s) \<Longrightarrow> p < io_heap_next s"
    "h_io s p = Some x \<Longrightarrow> h_io s q = Some y \<Longrightarrow> io_fd x = io_fd y \<Longrightarrow> p = q"
    "distinct (epoll_list s)" "set (epoll_list s) = {(io_fd x, p) |p x. h_io s p = Some x}" "distinct (open_fds s)"
    "set (open_fds s) = base \<union> fds_of s \<union> (if ndL_epoll_fd s > 0 then {ndL_epoll_fd s} else {})" "base \<inter> fds_of s = {}"
    "0 < ndL_epoll_fd s \<Longrightarrow> ndL_epoll_fd s \<notin> base \<union> fds_of s"
proof -
  note inv = assms [unfolded io_inv_def]
  show "distinct (ndL_first_io s)" "set (ndL_first_io s) = dom (h_io s)" "distinct (epoll_list s)" "distinct (open_fds s)"
    "set (epoll_list s) = {(io_fd x, p) |p x. h_io s p = Some x}" "base \<inter> fds_of s = {}"
    "set (open_fds s) = base \<union> fds_of s \<union> (if ndL_epoll_fd s > 0 then {ndL_epoll_fd s} else {})"
    by (insert inv, (elim conjE, assumption)+)
  have "\<forall>p\<in>dom (h_io s). p < io_heap_next s" by (insert inv, (elim conjE, assumption)+)
  then show "p < io_heap_next s" if "p \<in> dom (h_io s)" using that by blast
  have "\<forall>p q x y. h_io s p = Some x \<longrightarrow> h_io s q = Some y \<longrightarrow> io_fd x = io_fd y \<longrightarrow> p = q" by (insert inv, (elim conjE, assumption)+)
  then show "p = q" if "h_io s p = Some x" "h_io s q = Some y" "io_fd x = io_fd y" using that by blast
  have "0 < ndL_epoll_fd s \<longrightarrow> ndL_epoll_fd s \<notin> base \<union> fds_of s" by (insert inv, (elim conjE, assumption)+)
  then show "ndL_epoll_fd s \<notin> base \<union> fds_of s" if "0 < ndL_epoll_fd s" using that by (rule mp)
qed

lemma io_invI:
  assumes "distinct (ndL_first_io s)" "set (ndL_first_io s) = dom (h_io s)" "\<And>p. p \<in> dom (h_io s) \<Longrightarrow> p < io_heap_next s"
    "\<And>p q x y. h_io s p = Some x \<Longrightarrow> h_io s q = Some y \<Longrightarrow> io_fd x = io_fd y \<Longrightarrow> p = q"
    "distinct (epoll_list s)" "set (epoll_list s) = {(io_fd x, p) |p x. h_io s p = Some x}" "distinct (open_fds s)"
    "set (open_fds s) = base \<union> fds_of s \<union> (if ndL_epoll_fd s > 0 then {ndL_epoll_fd s} else {})" "base \<inter> fds_of s = {}"
    "0 < ndL_epoll_fd s \<Longrightarrow> ndL_epoll_fd s \<notin> base \<union> fds_of s"
  shows "io_inv base s"
  unfolding io_inv_def by (intro conjI allI ballI impI; rule assms; assumption)

lemma fds_of_iff: "fd \<in> fds_of s \<longleftrightarrow> (\<exists>p x. h_io s p = Some x \<and> io_fd x = fd)"
  by (auto simp: fds_of_def)

lemma fds_of_h_io: "h_io s' = h_io s \<Longrightarrow> fds_of s' = fds_of s"
  by (simp add: fds_of_def)

lemma io_fresh:
  assumes "io_inv base s" "fd \<notin> set (open_fds s)"
  shows "h_io s (io_heap_next s) = None" "fd \<notin> fds_of s" "fd \<notin> base" "filter (\<lambda>e. fst e \<noteq> fd) (epoll_list s) = epoll_list s"
    "remove1 (io_heap_next s) (ndL_first_io s) = ndL_first_io s"
proof -
  show none: "h_io s (io_heap_next s) = None" using io_invD(3) [OF assms(1), of "io_heap_next s"] by (cases "h_io s (io_heap_next s)") auto
  show fd: "fd \<notin> fds_of s" "fd \<notin> base" using io_invD(8) [OF assms(1)] assms(2) by auto
  show "filter (\<lambda>e. fst e \<noteq> fd) (epoll_list s) = epoll_list s"
    by (rule filter_True) (use io_invD(6) [OF assms(1)] fd(1) in \<open>auto simp: fds_of_def\<close>)
  show "remove1 (io_heap_next s) (ndL_first_io s) = ndL_first_io s"
    by (rule remove1_idem) (use none io_invD(2) [OF assms(1)] in auto)
qed

text \<open>Opening the epoll instance, registering a new entry and closing one keep the invariant.\<close>

lemma io_inv_epoll:
  assumes "io_inv base s" "ndL_epoll_fd s \<le> 0" "e \<le> 0 \<or> e \<notin> set (open_fds s)"
  shows "io_inv base (s\<lparr>ndL_epoll_fd := e, open_fds := (if e \<le> 0 then open_fds s else e # open_fds s)\<rparr>)" (is "io_inv base ?s")
proof -
  note d = io_invD [OF assms(1)]
  have fds: "fds_of ?s = fds_of s" by (rule fds_of_h_io) simp
  show ?thesis by (rule io_invI, unfold fds) (use d assms(2,3) in \<open>auto split: if_splits\<close>)
qed

lemma io_inv_add:
  assumes "io_inv base s" "fd \<notin> set (open_fds s)"
  defines "p \<equiv> io_heap_next s"
  shows "io_inv base (s\<lparr>h_io := (h_io s)(p \<mapsto> \<lparr>io_fd = fd, io_handler = None\<rparr>), ndL_first_io := p # ndL_first_io s, io_heap_next := Suc p,
     open_fds := fd # open_fds s, epoll_list := (fd, p) # epoll_list s\<rparr>)" (is "io_inv base ?s")
proof -
  note f = io_fresh [OF assms(1,2), folded p_def] and d = io_invD [OF assms(1)]
  have nofd: "io_fd y \<noteq> fd" if "h_io s q = Some y" for q y using that f(2) by (auto simp: fds_of_iff)
  have other: "q \<noteq> p" if "h_io s q = Some x" for q x using that f(1) by auto
  have fds: "fds_of ?s = insert fd (fds_of s)"
  proof (rule set_eqI)
    fix n
    show "n \<in> fds_of ?s \<longleftrightarrow> n \<in> insert fd (fds_of s)" using other by (auto simp: fds_of_iff)
  qed
  show ?thesis
  proof (rule io_invI, unfold fds)
    show "set (epoll_list ?s) = {(io_fd x, q) |q x. h_io ?s q = Some x}" using d(6) other by auto
    show "q = q'" if "h_io ?s q = Some x" "h_io ?s q' = Some y" "io_fd x = io_fd y" for q q' x y
      using that d(4) [of q x q' y] nofd [of q' y] nofd [of q x] by (auto split: if_splits)
    show "q < io_heap_next ?s" if "q \<in> dom (h_io ?s)" for q using that d(3) [of q] by (auto simp: p_def less_Suc_eq)
    show "distinct (ndL_first_io ?s)" "set (ndL_first_io ?s) = dom (h_io ?s)" using d(1,2) f(1) by auto
    show "distinct (epoll_list ?s)" using d(5,6) f(1) by auto
    show "distinct (open_fds ?s)" using d(7) assms(2) by simp
    show "set (open_fds ?s) = base \<union> insert fd (fds_of s) \<union> (if ndL_epoll_fd ?s > 0 then {ndL_epoll_fd ?s} else {})"
      using d(8) by auto
    show "base \<inter> insert fd (fds_of s) = {}" using d(9) f(3) by simp
    show "ndL_epoll_fd ?s \<notin> base \<union> insert fd (fds_of s)" if "0 < ndL_epoll_fd ?s" using d(8,10) that assms(2) by auto
  qed
qed

lemma io_inv_open_fds:
  assumes "io_inv base s" "h_io s' = h_io s" "ndL_first_io s' = ndL_first_io s" "io_heap_next s' = io_heap_next s" "epoll_list s' = epoll_list s"
    "ndL_epoll_fd s' = ndL_epoll_fd s" "set (open_fds s') = set (open_fds s)" "distinct (open_fds s') = distinct (open_fds s)"
  shows "io_inv base s'"
  using assms(1) unfolding io_inv_def fds_of_def assms(2-8) .

lemma io_inv_next: "io_inv base s \<Longrightarrow> io_heap_next s \<le> n \<Longrightarrow> io_inv base (s\<lparr>io_heap_next := n\<rparr>)"
  unfolding io_inv_def by (auto simp: fds_of_def intro: less_le_trans)

lemma io_inv_close:
  assumes "io_inv base s" "h_io s p = Some x"
  shows "\<exists>s'. nd_io_close (Some p) s = Some s' \<and> io_inv base s' \<and> h_io s' = (h_io s)(p := None) \<and>
     ndL_first_io s' = remove1 p (ndL_first_io s) \<and> ndL_epoll_fd s' = ndL_epoll_fd s"
proof -
  note d = io_invD [OF assms(1)]
  let ?s = "s\<lparr>open_fds := remove1 (io_fd x) (open_fds s), epoll_list := filter (\<lambda>e. fst e \<noteq> io_fd x) (epoll_list s),
    ndL_first_io := remove1 p (ndL_first_io s), h_io := (h_io s)(p := None)\<rparr>"
  have inj: "io_fd y \<noteq> io_fd x" if "h_io s q = Some y" "q \<noteq> p" for q y using d(4) [OF assms(2) that(1)] that(2) by metis
  have mem: "io_fd x \<in> fds_of s" using assms(2) by (auto simp: fds_of_iff)
  have fds: "fds_of ?s = fds_of s - {io_fd x}"
  proof (rule set_eqI)
    fix n
    show "n \<in> fds_of ?s \<longleftrightarrow> n \<in> fds_of s - {io_fd x}" using inj assms(2) by (auto simp: fds_of_iff) (metis option.inject)
  qed
  have "io_inv base ?s"
  proof (rule io_invI, unfold fds)
    show "set (epoll_list ?s) = {(io_fd y, q) |q y. h_io ?s q = Some y}" using d(6) inj assms(2) by auto (metis option.inject)
    show "set (open_fds ?s) = base \<union> (fds_of s - {io_fd x}) \<union> (if ndL_epoll_fd ?s > 0 then {ndL_epoll_fd ?s} else {})"
      using d(7,8,9,10) mem by auto
    show "q = q'" if "h_io ?s q = Some a" "h_io ?s q' = Some b" "io_fd a = io_fd b" for q q' a b
      using that d(4) by (auto split: if_splits)
  qed (use d in \<open>auto split: if_splits\<close>)
  then show ?thesis using assms(2) by (auto simp: nd_io_close_def Let_def fd_close_def)
qed

subsection \<open>The operations keep it\<close>

lemma io_create:
  assumes "io_inv base s" "fd \<notin> set (open_fds s)" "k_epoll_create k < 0 \<or> 0 < k_epoll_create k \<and> k_epoll_create k \<notin> set (fd # open_fds s)"
  shows "\<exists>r s'. ndL_create k fd (s\<lparr>open_fds := fd # open_fds s\<rparr>) = (r, s') \<and> io_inv base s' \<and>
     (case r of None \<Rightarrow> h_io s' = h_io s \<and> ndL_first_io s' = ndL_first_io s \<and> epoll_list s' = epoll_list s
      | Some p \<Rightarrow> h_io s p = None \<and> h_io s' = (h_io s)(p \<mapsto> \<lparr>io_fd = fd, io_handler = None\<rparr>) \<and> ndL_first_io s' = p # ndL_first_io s)"
proof -
  note f = io_fresh [OF assms(1,2)]
  define e where "e = k_epoll_create k"
  define new where "new \<longleftrightarrow> ndL_epoll_fd s \<le> 0"
  define t where "t = (if new then s\<lparr>ndL_epoll_fd := e, open_fds := (if e \<le> 0 then open_fds s else e # open_fds s)\<rparr> else s)"
  have e: "e < 0 \<or> 0 < e" "e \<noteq> fd \<or> e < 0" "0 < e \<Longrightarrow> e \<notin> set (open_fds s)" using assms(3) by (auto simp: e_def)
  have t: "io_inv base t" "fd \<notin> set (open_fds t)"
    using io_inv_epoll [OF assms(1), of e] assms(1,2) e by (auto simp: t_def new_def)
  have keep: "h_io t = h_io s" "ndL_first_io t = ndL_first_io s" "epoll_list t = epoll_list s" "io_heap_next t = io_heap_next s"
    by (simp_all add: t_def)
  let ?p = "io_heap_next s"
  have refused: "fd_close fd (s\<lparr>open_fds := fd # open_fds s\<rparr>) = s" using f(4) by (simp add: fd_close_def)
  have close: "remove1 fd (if e < 0 then fd # open_fds s else e # fd # open_fds s) = (if e \<le> 0 then open_fds s else e # open_fds s)"
    using e by auto
  have undo: "(h_io s)(?p := None) = h_io s" using f(1) by (simp add: fun_upd_idem)
  show ?thesis
  proof (cases "k_getfl k \<and> k_setfl k")
    case False
    then show ?thesis using refused assms(1) by (auto simp: ndL_create_def)
  next
    case True
    show ?thesis
    proof (cases "new \<and> e < 0 \<or> \<not> k_epoll_add k")
      case True': True
      have "ndL_create k fd (s\<lparr>open_fds := fd # open_fds s\<rparr>) = (None, t\<lparr>io_heap_next := Suc ?p\<rparr>)"
        using True True' f(4) close undo e(1)
        by (auto simp: ndL_create_def Let_def io_fail_def fd_close_def t_def e_def [symmetric] new_def [symmetric])
      then show ?thesis using io_inv_next [OF t(1), of "Suc ?p"] keep by simp
    next
      case False
      have "ndL_create k fd (s\<lparr>open_fds := fd # open_fds s\<rparr>) =
        (Some ?p, t\<lparr>h_io := (h_io t)(?p \<mapsto> \<lparr>io_fd = fd, io_handler = None\<rparr>), ndL_first_io := ?p # ndL_first_io t, io_heap_next := Suc ?p,
           open_fds := (if new then e # fd # open_fds s else fd # open_fds s), epoll_list := (fd, ?p) # epoll_list t\<rparr>)"
        using True False e(1) by (auto simp: ndL_create_def Let_def t_def e_def [symmetric] new_def [symmetric])
      moreover have "io_inv base (t\<lparr>h_io := (h_io t)(?p \<mapsto> \<lparr>io_fd = fd, io_handler = None\<rparr>), ndL_first_io := ?p # ndL_first_io t, io_heap_next := Suc ?p,
           open_fds := fd # open_fds t, epoll_list := (fd, ?p) # epoll_list t\<rparr>)"
        using io_inv_add [OF t] keep(4) by simp
      then have "io_inv base (t\<lparr>h_io := (h_io t)(?p \<mapsto> \<lparr>io_fd = fd, io_handler = None\<rparr>), ndL_first_io := ?p # ndL_first_io t, io_heap_next := Suc ?p,
           open_fds := (if new then e # fd # open_fds s else fd # open_fds s), epoll_list := (fd, ?p) # epoll_list t\<rparr>)"
        by (rule io_inv_open_fds) (use False e t(2) in \<open>auto simp: t_def\<close>)
      ultimately show ?thesis using f(1) keep by simp
    qed
  qed
qed

lemma io_socket:
  assumes "io_inv base s" "io_kernel_ok k (open_fds s)"
  shows "\<exists>r s'. nd_io_socket k s = (r, s') \<and> io_inv base s' \<and>
     (case r of None \<Rightarrow> h_io s' = h_io s \<and> ndL_first_io s' = ndL_first_io s \<and> epoll_list s' = epoll_list s
      | Some p \<Rightarrow> h_io s p = None \<and> h_io s' = (h_io s)(p \<mapsto> \<lparr>io_fd = k_socket k, io_handler = None\<rparr>) \<and> ndL_first_io s' = p # ndL_first_io s)"
proof (cases "k_socket k = -1")
  case True
  then show ?thesis using assms(1) by (simp add: nd_io_socket_def)
next
  case False
  then have low: "lowest_free (k_socket k) (open_fds s)" "k_epoll_create k < 0 \<or> lowest_free (k_epoll_create k) (k_socket k # open_fds s)"
    using assms(2) by (auto simp: io_kernel_ok_def)
  then have "k_socket k \<notin> set (open_fds s)" "k_epoll_create k < 0 \<or> 0 < k_epoll_create k \<and> k_epoll_create k \<notin> set (k_socket k # open_fds s)"
    using epoll_not_zero [OF low(1)] by (auto simp: lowest_free_def)
  from io_create [OF assms(1) this] show ?thesis using False by (simp add: nd_io_socket_def)
qed

lemma io_set_handler:
  assumes "io_inv base s" "h_io s p = Some x"
  shows "\<exists>s'. set_handler p h s = Some s' \<and> io_inv base s' \<and> h_io s' = (h_io s)(p \<mapsto> x\<lparr>io_handler := Some h\<rparr>) \<and> ndL_first_io s' = ndL_first_io s"
proof -
  note d = io_invD [OF assms(1)]
  let ?s = "s\<lparr>h_io := (h_io s)(p \<mapsto> x\<lparr>io_handler := Some h\<rparr>)\<rparr>"
  have look: "(\<exists>y. h_io ?s q = Some y \<and> io_fd y = n) \<longleftrightarrow> (\<exists>y. h_io s q = Some y \<and> io_fd y = n)" for q n
    using assms(2) by (cases "q = p") auto
  then have fds: "fds_of ?s = fds_of s" by (simp add: set_eq_iff fds_of_iff)
  have "io_inv base ?s"
  proof (rule io_invI, unfold fds)
    show "q = q'" if "h_io ?s q = Some a" "h_io ?s q' = Some b" "io_fd a = io_fd b" for q q' a b
      using that look [of q "io_fd a"] look [of q' "io_fd b"] d(4) by metis
    have mem: "(n, q) \<in> {(io_fd y, q) |q y. h q = Some y} \<longleftrightarrow> (\<exists>y. h q = Some y \<and> io_fd y = n)" for n q and h :: "ptr \<Rightarrow> nd_io option"
      by auto
    have "{(io_fd y, q) |q y. h_io ?s q = Some y} = {(io_fd y, q) |q y. h_io s q = Some y}"
      by (rule set_eqI) (simp only: split_paired_all mem look)
    then show "set (epoll_list ?s) = {(io_fd y, q) |q y. h_io ?s q = Some y}" using d(6) by simp
    show "set (ndL_first_io ?s) = dom (h_io ?s)" using d(2) assms(2) by auto
    show "q < io_heap_next ?s" if "q \<in> dom (h_io ?s)" for q using that d(3) [of q] d(3) [of p] assms(2) by (cases "q = p") auto
  qed (use d(1,5,7-10) in simp_all)
  then show ?thesis using assms(2) by (simp add: set_handler_def)
qed

lemma io_close_all:
  assumes "io_inv base s"
  shows "\<exists>s'. foldM (\<lambda>p. nd_io_close (Some p)) (ndL_first_io s) s = Some s' \<and> io_inv base s' \<and> h_io s' = Map.empty \<and>
     ndL_epoll_fd s' = ndL_epoll_fd s"
  using assms
proof (induction "ndL_first_io s" arbitrary: s)
  case Nil
  then have "dom (h_io s) = {}" using io_invD(2) [of base s] by simp
  then show ?case using Nil by (simp flip: Nil.hyps)
next
  case (Cons p ps)
  then obtain x where "h_io s p = Some x" using io_invD(2) [of base s] by (metis domD list.set_intros(1))
  from io_inv_close [OF Cons.prems this] obtain s1 where s1: "nd_io_close (Some p) s = Some s1" "io_inv base s1"
    "ndL_first_io s1 = remove1 p (ndL_first_io s)" "ndL_epoll_fd s1 = ndL_epoll_fd s" by blast
  then have "ps = ndL_first_io s1" by (simp flip: Cons.hyps(2))
  from Cons.hyps(1) [OF this s1(2)] s1 show ?case by (simp flip: Cons.hyps(2) \<open>ps = ndL_first_io s1\<close>)
qed

subsection \<open>The registry over any run\<close>

inductive io_reach :: "int list \<Rightarrow> io_state \<Rightarrow> bool" for inherited :: "int list" where
  start: "distinct inherited \<Longrightarrow>
    io_reach inherited \<lparr>h_io = Map.empty, ndL_first_io = [], ndL_epoll_fd = 0, io_heap_next = n, open_fds = inherited, epoll_list = []\<rparr>"
| socket: "io_reach inherited s \<Longrightarrow> io_kernel_ok k (open_fds s) \<Longrightarrow> nd_io_socket k s = (r, s') \<Longrightarrow> io_reach inherited s'"
| handler: "io_reach inherited s \<Longrightarrow> p \<in> set (ndL_first_io s) \<Longrightarrow> set_handler p h s = Some s' \<Longrightarrow> io_reach inherited s'"
| close: "io_reach inherited s \<Longrightarrow> p \<in> set (ndL_first_io s) \<Longrightarrow> nd_io_close (Some p) s = Some s' \<Longrightarrow> io_reach inherited s'"

lemma io_reach_inv: "io_reach inherited s \<Longrightarrow> io_inv (set inherited) s"
proof (induction rule: io_reach.induct)
  case (start n)
  then show ?case by (simp add: io_inv_def fds_of_def)
next
  case (socket s k r s')
  then show ?case using io_socket [OF socket.IH socket.hyps(2)] by auto
next
  case (handler s p h s')
  then obtain x where "h_io s p = Some x" using io_invD(2) [OF handler.IH] by auto
  from io_set_handler [OF handler.IH this, of h] handler.hyps(3) show ?case by auto
next
  case (close s p s')
  then obtain x where "h_io s p = Some x" using io_invD(2) [OF close.IH] by auto
  from io_inv_close [OF close.IH this] close.hyps(3) show ?case by auto
qed

text \<open>
  C23: the registry never loses a descriptor.  Whatever sockets are created, with whatever failures on the way, given handlers and
  closed: the open descriptors are those the process started with, one for each entry of the registry and the epoll instance; the
  pointers epoll hands back are exactly the live entries; and closing everything leaves the descriptors the process started with.
\<close>

theorem registry_exact:
  assumes "io_reach inherited s"
  shows "set (open_fds s) = set inherited \<union> {io_fd x |p x. h_io s p = Some x} \<union> (if ndL_epoll_fd s > 0 then {ndL_epoll_fd s} else {}) \<and>
     distinct (open_fds s) \<and> set (ndL_first_io s) = dom (h_io s) \<and> set (epoll_list s) = {(io_fd x, p) |p x. h_io s p = Some x} \<and>
     (\<exists>s'. nd_io_cleanup s = Some s' \<and> ndL_first_io s' = [] \<and> set (open_fds s') = set inherited)"
proof -
  note inv = io_reach_inv [OF assms] and d = io_invD [OF io_reach_inv [OF assms]]
  obtain s1 where s1: "foldM (\<lambda>p. nd_io_close (Some p)) (ndL_first_io s) s = Some s1" "io_inv (set inherited) s1" "h_io s1 = Map.empty"
    using io_close_all [OF inv] by blast
  note d1 = io_invD [OF s1(2)]
  have none: "fds_of s1 = {}" using s1(3) by (simp add: fds_of_def)
  have "ndL_first_io s1 = []" using d1(2) s1(3) by simp
  moreover have "set (open_fds (fd_close (ndL_epoll_fd s1) s1)) = set inherited" if "ndL_epoll_fd s1 > 0"
    using that d1(7,8,10) none by (auto simp: fd_close_def)
  ultimately have "\<exists>s'. nd_io_cleanup s = Some s' \<and> ndL_first_io s' = [] \<and> set (open_fds s') = set inherited"
    using s1(1) d1(8) none by (auto simp: nd_io_cleanup_def fd_close_def)
  then show ?thesis using d(2,6,7,8) by (simp add: fds_of_def)
qed

definition sample_io_kernel :: io_kernel where
  "sample_io_kernel = \<lparr>k_socket = 3, k_getfl = True, k_setfl = True, k_epoll_create = 4, k_epoll_add = True\<rparr>"

definition sample_registry :: io_state where
  "sample_registry = \<lparr>h_io = Map.empty, ndL_first_io = [], ndL_epoll_fd = 0, io_heap_next = 0, open_fds = [0, 1, 2], epoll_list = []\<rparr>"

lemma sample_io_kernel_ok: "io_kernel_ok sample_io_kernel (open_fds sample_registry)"
  by (auto simp: io_kernel_ok_def lowest_free_def sample_io_kernel_def sample_registry_def)

theorem registry_exact_witness:
  "set (open_fds (snd (nd_io_socket sample_io_kernel sample_registry))) = {0, 1, 2, 3, 4}"
proof -
  have "io_reach [0, 1, 2] sample_registry" unfolding sample_registry_def by (rule io_reach.start) simp
  then have r: "io_reach [0, 1, 2] (snd (nd_io_socket sample_io_kernel sample_registry))"
    by (rule io_reach.socket [OF _ sample_io_kernel_ok]) (rule prod.collapse [symmetric])
  show ?thesis using registry_exact [OF r]
    by (auto simp: nd_io_socket_def ndL_create_def sample_io_kernel_def sample_registry_def split: if_splits)
qed

text \<open>A call interrupted by signals is made until one is not interrupted, whose result is returned.\<close>

lemma retry_interrupted: "retry (replicate n (Inl EINTR) @ r # rs) = (if r = Inl EINTR then retry rs else Some r)"
proof (induction n)
  case 0
  show ?case by (cases "(r # rs)" rule: retry.cases) auto
qed simp

end
