(* ===== verification/Log.thy ===== *)
theory Log
  imports Addr Libc_Print
begin

text \<open>
  Log messages: \<^verbatim>\<open>src/log.c\<close>, and the two functions of \<^verbatim>\<open>src/addr.c\<close> that print an address for them into one of three buffers used in
  turn.  The texts that \<open>vsnprintf\<close>, \<open>strftime\<close>, \<open>inet_ntop\<close> and \<open>ether_ntoa_r\<close> produce are arguments.
\<close>

subsection \<open>Printing a message\<close>

datatype nd_loglevel = ND_LOG_ERROR | ND_LOG_INFO | ND_LOG_DEBUG | ND_LOG_TRACE

primrec level_number :: "nd_loglevel \<Rightarrow> nat" where
  "level_number ND_LOG_ERROR = 0"
| "level_number ND_LOG_INFO = 1"
| "level_number ND_LOG_DEBUG = 2"
| "level_number ND_LOG_TRACE = 3"

datatype priority = LOG_ERR | LOG_INFO | LOG_DEBUG

datatype log_output = Openlog | Syslog priority string | Stdout string

record log_state =
  log_verbosity :: nat
  log_syslog :: bool
  log_daemonized :: bool
  ndL_syslog_opened :: bool
  log_out :: "log_output list"

definition ndL_open_syslog :: "log_state \<Rightarrow> log_state" where
  "ndL_open_syslog s = (if ndL_syslog_opened s then s else s\<lparr>ndL_syslog_opened := True, log_out := log_out s @ [Openlog]\<rparr>)"

primrec pris :: "nd_loglevel \<Rightarrow> priority" where
  "pris ND_LOG_ERROR = LOG_ERR"
| "pris ND_LOG_INFO = LOG_INFO"
| "pris ND_LOG_DEBUG = LOG_DEBUG"
| "pris ND_LOG_TRACE = LOG_DEBUG"

primrec level_name :: "nd_loglevel \<Rightarrow> string" where
  "level_name ND_LOG_ERROR = ''error''"
| "level_name ND_LOG_INFO = ''info''"
| "level_name ND_LOG_DEBUG = ''debug''"
| "level_name ND_LOG_TRACE = ''trace''"

text \<open>The conversions \<open>%03ld\<close> of a number that is not negative, and \<open>%-8s\<close>.\<close>

definition pad_left :: "nat \<Rightarrow> string \<Rightarrow> string" where
  "pad_left w t = replicate (w - length t) CHR ''0'' @ t"

definition pad_right :: "nat \<Rightarrow> string \<Rightarrow> string" where
  "pad_right w t = t @ replicate (w - length t) CHR '' ''"

text \<open>
  \<open>formatted\<close> is the text of the format and its arguments, \<open>None\<close> when \<open>vsnprintf\<close> fails; the buffer has 512 bytes, the last for
  the end of the string.  \<open>date\<close> is \<open>time_buf\<close>, \<open>millis\<close> the time modulo 1000.
\<close>

definition log_text :: "string option \<Rightarrow> string" where
  "log_text formatted = (case formatted of None \<Rightarrow> take 511 ''<log format error>'' | Some t \<Rightarrow> take 511 t)"

definition nd_log_printf :: "nd_loglevel \<Rightarrow> string option \<Rightarrow> string \<Rightarrow> nat \<Rightarrow> log_state \<Rightarrow> log_state" where
  "nd_log_printf level formatted date millis s =
     (if level_number level > log_verbosity s then s
      else
        (let s1 = (if log_daemonized s \<or> log_syslog s then ndL_open_syslog s else s); buf = log_text formatted
         in if ndL_syslog_opened s1 then s1\<lparr>log_out := log_out s1 @ [Syslog (pris level) buf]\<rparr>
            else s1\<lparr>log_out := log_out s1 @
              [Stdout (date @ ''.'' @ pad_left 3 (numeral_text millis) @ '' | '' @ pad_right 8 (level_name level) @ '' | '' @ buf @ [CHR 0x0A])]\<rparr>))"

subsection \<open>Printing an address\<close>

text \<open>
  The counter is a C \<open>int\<close>: increasing the largest one is undefined.  The result is one of the three buffers of 64 bytes or the
  constant text for a null pointer.
\<close>

datatype ntoa_result = Null_text | Buffer nat

record ntoa_state =
  ntoa_index :: int
  ntoa_buf :: "string list"

definition ntoa_init :: ntoa_state where
  "ntoa_init = \<lparr>ntoa_index = 0, ntoa_buf = [[], [], []]\<rparr>"

definition print_addr :: "('a \<Rightarrow> string) \<Rightarrow> 'a option \<Rightarrow> ntoa_state \<Rightarrow> (ntoa_result \<times> ntoa_state) option" where
  "print_addr conv addr s =
     (case addr of
        None \<Rightarrow> Some (Null_text, s)
      | Some a \<Rightarrow> do {
          require (ntoa_index s < 2147483647);
          let slot = nat (ntoa_index s mod 3);
          require (length (conv a) < 64);
          Some (Buffer slot, s\<lparr>ntoa_index := ntoa_index s + 1, ntoa_buf := (ntoa_buf s)[slot := conv a]\<rparr>)
        })"

definition nd_ntoa :: "(nd_addr \<Rightarrow> string) \<Rightarrow> nd_addr option \<Rightarrow> ntoa_state \<Rightarrow> (ntoa_result \<times> ntoa_state) option" where
  "nd_ntoa inet_ntop = print_addr inet_ntop"

definition nd_ll_ntoa :: "(nd_lladdr \<Rightarrow> string) \<Rightarrow> nd_lladdr option \<Rightarrow> ntoa_state \<Rightarrow> (ntoa_result \<times> ntoa_state) option" where
  "nd_ll_ntoa ether_ntoa = print_addr ether_ntoa"

text \<open>The text a result points to.\<close>

definition text_of :: "ntoa_result \<Rightarrow> ntoa_state \<Rightarrow> string" where
  "text_of r s = (case r of Null_text \<Rightarrow> ''(null)'' | Buffer i \<Rightarrow> ntoa_buf s ! i)"

subsection \<open>Where messages go\<close>

record log_call =
  lc_level :: nd_loglevel
  lc_text :: "string option"
  lc_date :: string
  lc_millis :: nat

definition log_all :: "log_call list \<Rightarrow> log_state \<Rightarrow> log_state" where
  "log_all cs s = fold (\<lambda>c. nd_log_printf (lc_level c) (lc_text c) (lc_date c) (lc_millis c)) cs s"

definition log_line :: "log_call \<Rightarrow> string" where
  "log_line c = lc_date c @ ''.'' @ pad_left 3 (numeral_text (lc_millis c)) @ '' | '' @ pad_right 8 (level_name (lc_level c)) @ '' | '' @
     log_text (lc_text c) @ [CHR 0x0A]"

lemma log_text_length: "length (log_text f) \<le> 511"
  by (simp add: log_text_def split: option.splits)

lemma log_all_Cons: "log_all (c # cs) s = log_all cs (nd_log_printf (lc_level c) (lc_text c) (lc_date c) (lc_millis c) s)"
  by (simp add: log_all_def)

definition shown :: "log_state \<Rightarrow> log_call list \<Rightarrow> log_call list" where
  "shown s cs = filter (\<lambda>c. level_number (lc_level c) \<le> log_verbosity s) cs"

lemma log_all_syslog:
  "ndL_syslog_opened s \<Longrightarrow> log_all cs s = s\<lparr>log_out := log_out s @ map (\<lambda>c. Syslog (pris (lc_level c)) (log_text (lc_text c))) (shown s cs)\<rparr>"
proof (induction cs arbitrary: s)
  case Nil
  show ?case by (simp add: log_all_def shown_def)
next
  case (Cons c cs)
  then show ?case by (simp add: log_all_Cons nd_log_printf_def ndL_open_syslog_def shown_def Let_def)
qed

lemma log_all_stdout:
  "\<not> ndL_syslog_opened s \<Longrightarrow> \<not> log_syslog s \<Longrightarrow> \<not> log_daemonized s \<Longrightarrow>
   log_all cs s = s\<lparr>log_out := log_out s @ map (\<lambda>c. Stdout (log_line c)) (shown s cs)\<rparr>"
proof (induction cs arbitrary: s)
  case Nil
  show ?case by (simp add: log_all_def shown_def)
next
  case (Cons c cs)
  then show ?case by (simp add: log_all_Cons nd_log_printf_def shown_def log_line_def Let_def)
qed

lemma log_all_open:
  assumes "\<not> ndL_syslog_opened s" "log_syslog s \<or> log_daemonized s"
  shows "log_out (log_all cs s) = log_out s @ (if shown s cs = [] then [] else
    Openlog # map (\<lambda>c. Syslog (pris (lc_level c)) (log_text (lc_text c))) (shown s cs))"
  using assms
proof (induction cs arbitrary: s)
  case Nil
  show ?case by (simp add: log_all_def shown_def)
next
  case (Cons c cs)
  show ?case
  proof (cases "level_number (lc_level c) \<le> log_verbosity s")
    case True
    then show ?thesis using Cons.prems
      by (auto simp: log_all_Cons nd_log_printf_def ndL_open_syslog_def Let_def log_all_syslog shown_def)
  next
    case False
    then show ?thesis using Cons by (simp add: log_all_Cons nd_log_printf_def shown_def)
  qed
qed



subsection \<open>How long a printed address lasts\<close>

definition ntoa_call :: "(nd_addr \<Rightarrow> string) \<Rightarrow> nd_addr \<Rightarrow> ntoa_state \<Rightarrow> ntoa_state option" where
  "ntoa_call inet_ntop a s = map_option snd (nd_ntoa inet_ntop (Some a) s)"

lemma ntoa_calls:
  assumes "\<And>a. length (inet_ntop a) < 64" "0 \<le> ntoa_index s" "ntoa_index s \<le> 2147483647" "length (ntoa_buf s) = 3"
  shows "case foldM (ntoa_call inet_ntop) as s of
     None \<Rightarrow> 2147483647 < ntoa_index s + int (length as)
   | Some s' \<Rightarrow> ntoa_index s' = ntoa_index s + int (length as) \<and> ntoa_index s' \<le> 2147483647 \<and> length (ntoa_buf s') = 3"
  using assms(2-4)
proof (induction as arbitrary: s)
  case (Cons a as)
  show ?case
  proof (cases "ntoa_index s < 2147483647")
    case True
    let ?s = "s\<lparr>ntoa_index := ntoa_index s + 1, ntoa_buf := (ntoa_buf s)[nat (ntoa_index s mod 3) := inet_ntop a]\<rparr>"
    have "ntoa_call inet_ntop a s = Some ?s" using True assms(1) [of a] by (simp add: ntoa_call_def nd_ntoa_def print_addr_def Let_def)
    then show ?thesis using Cons.IH [of ?s] Cons.prems True by (simp split: option.splits)
  next
    case False
    then show ?thesis using Cons.prems by (simp add: ntoa_call_def nd_ntoa_def print_addr_def)
  qed
qed simp

lemma three_slots:
  fixes i :: int
  assumes "0 \<le> i"
  shows "nat (i mod 3) < 3" "nat ((i + 1) mod 3) < 3" "nat ((i + 2) mod 3) < 3" "nat (i mod 3) \<noteq> nat ((i + 1) mod 3)"
    "nat (i mod 3) \<noteq> nat ((i + 2) mod 3)" "nat ((i + 1) mod 3) \<noteq> nat ((i + 2) mod 3)"
proof -
  obtain n where n: "i = int n" using assms zero_le_imp_eq_int by blast
  have eqs: "nat (i mod 3) = n mod 3" "nat ((i + 1) mod 3) = (n + 1) mod 3" "nat ((i + 2) mod 3) = (n + 2) mod 3"
    unfolding n by (simp_all add: nat_mod_distrib nat_add_distrib)
  have "n mod 3 = 0 \<or> n mod 3 = 1 \<or> n mod 3 = 2" by auto
  then show "nat (i mod 3) < 3" "nat ((i + 1) mod 3) < 3" "nat ((i + 2) mod 3) < 3" "nat (i mod 3) \<noteq> nat ((i + 1) mod 3)"
    "nat (i mod 3) \<noteq> nat ((i + 2) mod 3)" "nat ((i + 1) mod 3) \<noteq> nat ((i + 2) mod 3)"
    unfolding eqs by (auto simp: mod_Suc)
qed

lemma printed_together:
  assumes "0 \<le> ntoa_index s" "ntoa_index s + 2 < 2147483647" "length (ntoa_buf s) = 3"
    "length (inet_ntop a) < 64" "length (inet_ntop b) < 64" "length (inet_ntop c) < 64"
  shows "\<exists>r1 s1 r2 s2 r3 s3. nd_ntoa inet_ntop (Some a) s = Some (r1, s1) \<and> nd_ntoa inet_ntop (Some b) s1 = Some (r2, s2) \<and>
    nd_ntoa inet_ntop (Some c) s2 = Some (r3, s3) \<and> text_of r1 s3 = inet_ntop a \<and> text_of r2 s3 = inet_ntop b \<and> text_of r3 s3 = inet_ntop c"
proof -
  define x y z where slots: "x = nat (ntoa_index s mod 3)" "y = nat ((ntoa_index s + 1) mod 3)" "z = nat ((ntoa_index s + 2) mod 3)"
  define s1 where "s1 = s\<lparr>ntoa_index := ntoa_index s + 1, ntoa_buf := (ntoa_buf s)[x := inet_ntop a]\<rparr>"
  define s2 where "s2 = s\<lparr>ntoa_index := ntoa_index s + 2, ntoa_buf := (ntoa_buf s)[x := inet_ntop a, y := inet_ntop b]\<rparr>"
  define s3 where "s3 = s\<lparr>ntoa_index := ntoa_index s + 3, ntoa_buf := (ntoa_buf s)[x := inet_ntop a, y := inet_ntop b, z := inet_ntop c]\<rparr>"
  have distinct: "x < 3" "y < 3" "z < 3" "x \<noteq> y" "x \<noteq> z" "y \<noteq> z" unfolding slots by (rule three_slots [OF assms(1)])+
  have index: "ntoa_index s1 = ntoa_index s + 1" "ntoa_index s2 = ntoa_index s + 2" by (simp_all add: s1_def s2_def)
  have "nd_ntoa inet_ntop (Some a) s = Some (Buffer x, s1)" "nd_ntoa inet_ntop (Some b) s1 = Some (Buffer y, s2)"
    "nd_ntoa inet_ntop (Some c) s2 = Some (Buffer z, s3)"
    using assms by (simp_all add: nd_ntoa_def print_addr_def index flip: slots) (simp_all add: s1_def s2_def s3_def)
  moreover have "text_of (Buffer x) s3 = inet_ntop a" "text_of (Buffer y) s3 = inet_ntop b" "text_of (Buffer z) s3 = inet_ntop c"
    using distinct assms(3) by (simp_all add: text_of_def s3_def)
  ultimately show ?thesis by blast
qed

text \<open>
  C39: three addresses can be printed in one message, up to the end of the counter.  After any number of calls, three more return buffers
  that hold their three texts at the same time, as long as the total stays below \<open>2 ^ 31\<close>; the call after 2147483647 calls is
  undefined, as it increases the largest \<open>int\<close>.
\<close>

theorem ntoa_lifetime:
  assumes "\<And>a. length (inet_ntop a) < 64"
  shows "(foldM (ntoa_call inet_ntop) as ntoa_init = None) = (2147483647 < length as) \<and>
    (length as + 3 \<le> 2147483647 \<longrightarrow>
      (\<exists>s r1 s1 r2 s2 r3 s3. foldM (ntoa_call inet_ntop) as ntoa_init = Some s \<and>
         nd_ntoa inet_ntop (Some a) s = Some (r1, s1) \<and> nd_ntoa inet_ntop (Some b) s1 = Some (r2, s2) \<and> nd_ntoa inet_ntop (Some c) s2 = Some (r3, s3) \<and>
         text_of r1 s3 = inet_ntop a \<and> text_of r2 s3 = inet_ntop b \<and> text_of r3 s3 = inet_ntop c))"
proof -
  have run: "case foldM (ntoa_call inet_ntop) as ntoa_init of
     None \<Rightarrow> 2147483647 < int (length as)
   | Some s' \<Rightarrow> ntoa_index s' = int (length as) \<and> ntoa_index s' \<le> 2147483647 \<and> length (ntoa_buf s') = 3"
    using ntoa_calls [of inet_ntop ntoa_init as, OF assms] by (simp add: ntoa_init_def split: option.splits)
  have "\<exists>s r1 s1 r2 s2 r3 s3. foldM (ntoa_call inet_ntop) as ntoa_init = Some s \<and>
         nd_ntoa inet_ntop (Some a) s = Some (r1, s1) \<and> nd_ntoa inet_ntop (Some b) s1 = Some (r2, s2) \<and> nd_ntoa inet_ntop (Some c) s2 = Some (r3, s3) \<and>
         text_of r1 s3 = inet_ntop a \<and> text_of r2 s3 = inet_ntop b \<and> text_of r3 s3 = inet_ntop c" if less: "length as + 3 \<le> 2147483647"
  proof -
    obtain s where s: "foldM (ntoa_call inet_ntop) as ntoa_init = Some s" "ntoa_index s = int (length as)" "length (ntoa_buf s) = 3"
      using run less by (cases "foldM (ntoa_call inet_ntop) as ntoa_init") auto
    let ?i = "ntoa_index s"
    have i: "0 \<le> ?i" "?i + 2 < 2147483647" using s(2) less by simp_all
    obtain r1 s1 r2 s2 r3 s3 where "nd_ntoa inet_ntop (Some a) s = Some (r1, s1)" "nd_ntoa inet_ntop (Some b) s1 = Some (r2, s2)"
      "nd_ntoa inet_ntop (Some c) s2 = Some (r3, s3)" "text_of r1 s3 = inet_ntop a" "text_of r2 s3 = inet_ntop b" "text_of r3 s3 = inet_ntop c"
      using printed_together [of s inet_ntop a b c, OF i s(3) assms assms assms] by (elim exE conjE) rule
    then show ?thesis using s(1)
      by (intro exI [of _ s] exI [of _ r1] exI [of _ s1] exI [of _ r2] exI [of _ s2] exI [of _ r3] exI [of _ s3] conjI)
  qed
  then show ?thesis using run by (cases "foldM (ntoa_call inet_ntop) as ntoa_init") auto
qed

theorem ntoa_lifetime_witness:
  "\<exists>s r1 s1 r2 s2 r3 s3. foldM (ntoa_call (\<lambda>a. ''fe80::1'')) [Nd_addr 0 0 0 1] ntoa_init = Some s \<and>
     nd_ntoa (\<lambda>a. ''fe80::1'') (Some (Nd_addr 0 0 0 2)) s = Some (r1, s1) \<and> nd_ntoa (\<lambda>a. ''fe80::1'') (Some (Nd_addr 0 0 0 3)) s1 = Some (r2, s2) \<and>
     nd_ntoa (\<lambda>a. ''fe80::1'') (Some (Nd_addr 0 0 0 4)) s2 = Some (r3, s3) \<and> text_of r1 s3 = ''fe80::1''"
proof -
  have "length ((\<lambda>a. ''fe80::1'') a) < 64" for a :: nd_addr by simp
  from conjunct2 [OF ntoa_lifetime [OF this, of "[Nd_addr 0 0 0 1]" "Nd_addr 0 0 0 2" "Nd_addr 0 0 0 3" "Nd_addr 0 0 0 4"]]
  show ?thesis by (elim impE) (simp, blast)
qed

end
