(* ===== verification/Process.thy ===== *)
theory Process
  imports Main_Loop Conf_Safe Userspec Io Alloc Log
begin

text \<open>
  The process of \<^verbatim>\<open>src/ndppd.c\<close> from its command line to its exit: options, pid file, configuration, network namespace, sockets, user,
  going to the background, the event loop and the clean-up at exit.  The state of the daemon is the one of \<open>Main_Loop\<close>; beside it are
  the registry of \<open>Io\<close> and the pointers of the two sockets.  What the system answers while the process starts is the record
  \<open>os\<close>.
\<close>

subsection \<open>Options\<close>

text \<open>What \<open>getopt_long\<close> returns, one option after the other.\<close>

datatype opt =
    Opt_config string | Opt_daemon | Opt_verbose | Opt_pidfile string | Opt_user string | Opt_syslog | Opt_netns string | Opt_other

record options =
  nd_opt_config_path :: "string option"
  nd_opt_daemonize :: bool
  nd_opt_verbosity :: nat
  nd_opt_pidfile_path :: "string option"
  nd_opt_user :: "string option"
  nd_opt_syslog :: bool
  opt_netns :: "string option"

definition no_options :: options where
  "no_options = \<lparr>nd_opt_config_path = None, nd_opt_daemonize = False, nd_opt_verbosity = 1, nd_opt_pidfile_path = None, nd_opt_user = None,
     nd_opt_syslog = False, opt_netns = None\<rparr>"

text \<open>Copying an argument ends the process when the allocator refuses it.\<close>

definition keep_arg ::
  "(alloc_state \<Rightarrow> nat option) \<Rightarrow> string \<Rightarrow> alloc_state \<Rightarrow> (string \<Rightarrow> options) \<Rightarrow> int + options \<times> alloc_state" where
  "keep_arg malloc arg a upd = (case nd_strdup (malloc a) arg a of Inl _ \<Rightarrow> Inl 1 | Inr (_, a') \<Rightarrow> Inr (upd arg, a'))"

definition option_turn :: "(alloc_state \<Rightarrow> nat option) \<Rightarrow> opt \<Rightarrow> options \<Rightarrow> alloc_state \<Rightarrow> int + options \<times> alloc_state" where
  "option_turn malloc ch opts a =
     (case ch of
        Opt_config arg \<Rightarrow> keep_arg malloc arg a (\<lambda>v. opts\<lparr>nd_opt_config_path := Some v\<rparr>)
      | Opt_daemon \<Rightarrow> Inr (opts\<lparr>nd_opt_daemonize := True\<rparr>, a)
      | Opt_verbose \<Rightarrow>
          Inr (if nd_opt_verbosity opts < level_number ND_LOG_TRACE then opts\<lparr>nd_opt_verbosity := nd_opt_verbosity opts + 1\<rparr> else opts, a)
      | Opt_pidfile arg \<Rightarrow> keep_arg malloc arg a (\<lambda>v. opts\<lparr>nd_opt_pidfile_path := Some v\<rparr>)
      | Opt_user arg \<Rightarrow> keep_arg malloc arg a (\<lambda>v. opts\<lparr>nd_opt_user := Some v\<rparr>)
      | Opt_syslog \<Rightarrow> Inr (opts\<lparr>nd_opt_syslog := True\<rparr>, a)
      | Opt_netns arg \<Rightarrow>
          if opt_netns opts \<noteq> None then Inl 1 else keep_arg malloc arg a (\<lambda>v. opts\<lparr>opt_netns := Some v\<rparr>)
      | Opt_other \<Rightarrow> Inr (opts, a))"

primrec parse_options :: "(alloc_state \<Rightarrow> nat option) \<Rightarrow> opt list \<Rightarrow> options \<Rightarrow> alloc_state \<Rightarrow> int + options \<times> alloc_state" where
  "parse_options malloc [] opts a = Inr (opts, a)"
| "parse_options malloc (ch # chs) opts a =
     (case option_turn malloc ch opts a of Inl code \<Rightarrow> Inl code | Inr (opts', a') \<Rightarrow> parse_options malloc chs opts' a')"

subsection \<open>What the system answers\<close>

text \<open>A call that returns a descriptor answers according to the descriptors that are open.\<close>

datatype open_result = Opened | Missing | Refused

datatype fork_result = Fork_failed | Fork_parent nat | Fork_child

record os =
  os_time :: int
  os_seed :: u32
  os_malloc :: "alloc_state \<Rightarrow> nat option"
  os_file :: "string \<Rightarrow> string option"
  os_pid_open :: open_result
  os_pid_lock :: bool
  os_netns_open :: "string \<Rightarrow> bool"
  os_setns :: "string \<Rightarrow> bool"
  os_packet :: "int list \<Rightarrow> io_kernel"
  os_filter :: bool
  os_packet_bind :: bool
  os_kernel :: kernel
  os_netlink :: "int list \<Rightarrow> io_kernel"
  os_netlink_bind :: bool
  os_priv :: "priv_call \<Rightarrow> bool"
  os_pid_create :: "int list \<Rightarrow> int"
  os_pid_relock :: bool
  os_fork :: fork_result
  os_truncate :: bool
  os_setsid :: bool
  os_chdir :: bool

text \<open>\<open>pr_calls\<close> are the calls that changed the user, \<open>pr_pid_text\<close> is what was handed to \<open>write\<close> for the pid file.\<close>

record process =
  pr_daemon :: conf_state
  pr_io :: io_state
  pr_iface_io :: "ptr option"
  pr_rt_io :: "ptr option"
  pr_calls :: "priv_call list"
  pr_pid_text :: "string option"

subsection \<open>The steps of the start\<close>

definition ndL_check_pidfile :: "os \<Rightarrow> bool" where
  "ndL_check_pidfile os = (case os_pid_open os of Missing \<Rightarrow> True | Refused \<Rightarrow> False | Opened \<Rightarrow> os_pid_lock os)"

definition ndL_netns :: "os \<Rightarrow> string \<Rightarrow> bool" where
  "ndL_netns os name = (let net_path = take 127 (''/var/run/netns/'' @ name) in os_netns_open os net_path \<and> os_setns os net_path)"

definition start_iface :: "os \<Rightarrow> process \<Rightarrow> (bool \<times> process) option" where
  "start_iface os pr = do {
     let (io, r1) = nd_io_socket (os_packet os (open_fds (pr_io pr))) (pr_io pr);
     let (ok, d1) = nd_iface_startup (io \<noteq> None) (os_filter os) (os_packet_bind os) (pr_daemon pr);
     r2 \<leftarrow> (case io of None \<Rightarrow> Some r1 | Some p \<Rightarrow> if ok then set_handler p Iface_io_handler r1 else nd_io_close (Some p) r1);
     Some (ok, pr\<lparr>pr_daemon := d1, pr_io := r2, pr_iface_io := (if ok then io else None)\<rparr>)
   }"

definition nd_rt_open :: "os \<Rightarrow> process \<Rightarrow> (bool \<times> process) option" where
  "nd_rt_open os pr =
     (if pr_rt_io pr \<noteq> None then Some (True, pr)
      else do {
        let (io, r1) = nd_io_socket (os_netlink os (open_fds (pr_io pr))) (pr_io pr);
        case io of
          None \<Rightarrow> Some (False, pr\<lparr>pr_io := r1\<rparr>)
        | Some p \<Rightarrow>
            if \<not> os_netlink_bind os then do { r2 \<leftarrow> nd_io_close (Some p) r1; Some (False, pr\<lparr>pr_io := r2, pr_rt_io := None\<rparr>) }
            else do { r2 \<leftarrow> set_handler p Rt_io_handler r1; Some (True, pr\<lparr>pr_io := r2, pr_rt_io := Some p\<rparr>) }
      })"

text \<open>
  Going to the background.  The result is the exit code of the process that ends here, if it does.  The descriptor of the pid file
  stays open, so the lock is held as long as the daemon lives.
\<close>

definition ndL_daemonize :: "os \<Rightarrow> string option \<Rightarrow> process \<Rightarrow> int option \<times> process" where
  "ndL_daemonize os path pr =
     (case path of
        None \<Rightarrow> (Some 1, pr)
      | Some _ \<Rightarrow>
          (let fd = os_pid_create os (open_fds (pr_io pr));
               pr1 = pr\<lparr>pr_io := (pr_io pr)\<lparr>open_fds := fd # open_fds (pr_io pr)\<rparr>\<rparr>
           in
             if fd = -1 then (Some 1, pr)
             else if \<not> os_pid_relock os then (Some 1, pr)
             else case os_fork os of
               Fork_failed \<Rightarrow> (Some 1, pr1)
             | Fork_parent pid \<Rightarrow>
                 (Some 0, pr1\<lparr>pr_pid_text := (if os_truncate os then Some (numeral_text pid) else None),
                              pr_daemon := (pr_daemon pr1)\<lparr>nd_iface_no_restore_flags := True\<rparr>\<rparr>)
             | Fork_child \<Rightarrow>
                 if \<not> os_setsid os \<or> \<not> os_chdir os then (Some 1, pr1)
                 else (None, pr1\<lparr>pr_io := fd_close 2 (fd_close 1 (fd_close 0 (pr_io pr1)))\<rparr>)))"

datatype outcome = Exits int process | Runs loop_vars process

definition start_user :: "os \<Rightarrow> options \<Rightarrow> process \<Rightarrow> bool \<times> process" where
  "start_user os opts pr =
     (case nd_opt_user opts of
        None \<Rightarrow> (True, pr)
      | Some spec \<Rightarrow>
          (case ndL_drop_privileges (os_priv os) (os_file os ''/etc/passwd'') (os_file os ''/etc/group'') spec of
             (ok, calls) \<Rightarrow> (ok, pr\<lparr>pr_calls := pr_calls pr @ calls\<rparr>)))"

definition start_background :: "os \<Rightarrow> options \<Rightarrow> process \<Rightarrow> int option \<times> process" where
  "start_background os opts pr = (if nd_opt_daemonize opts then ndL_daemonize os (nd_opt_pidfile_path opts) pr else (None, pr))"

definition start_daemon :: "os \<Rightarrow> options \<Rightarrow> process \<Rightarrow> outcome option" where
  "start_daemon os opts pr = do {
     (ok1, pr1) \<leftarrow> start_iface os pr;
     if \<not> ok1 then Some (Exits 1 pr1)
     else do {
       (ok2, d2) \<leftarrow> nd_proxy_startup (os_kernel os) (pr_daemon pr1);
       let pr2 = pr1\<lparr>pr_daemon := d2\<rparr>;
       if \<not> ok2 then Some (Exits 1 pr2)
       else do {
         (ok3, pr3) \<leftarrow> nd_rt_open os pr2;
         if \<not> ok3 then Some (Exits 1 pr3)
         else do {
           let (ok4, pr4) = start_user os opts pr3;
           if \<not> ok4 then Some (Exits 1 pr4)
           else case start_background os opts pr4 of
             (Some code, pr5) \<Rightarrow> Some (Exits code pr5)
           | (None, pr5) \<Rightarrow>
               Some (Runs \<lparr>querying_routes = True, last_session_update = 0, last_iface_check = 0\<rparr>
                          (pr5\<lparr>pr_daemon := snd (nd_rt_query_routes (pr_daemon pr5))\<rparr>))
         }
       }
     }
   }"

definition NDPPD_CONFIG_PATH :: string where
  "NDPPD_CONFIG_PATH = ''/opt/unidoc/etc/unidoc-ndppd.conf''"

definition main_init :: "os \<Rightarrow> opt list \<Rightarrow> io_state \<Rightarrow> outcome option" where
  "main_init os chs io = do {
     let pr = \<lparr>pr_daemon = initial_state (os_time os) (os_seed os), pr_io = io, pr_iface_io = None, pr_rt_io = None, pr_calls = [],
               pr_pid_text = None\<rparr>;
     case parse_options (os_malloc os) chs no_options alloc_init of
       Inl code \<Rightarrow> Some (Exits code pr)
     | Inr (opts, a) \<Rightarrow>
         if nd_opt_pidfile_path opts \<noteq> None \<and> \<not> ndL_check_pidfile os then Some (Exits 1 pr)
         else do {
           let path = (case nd_opt_config_path opts of None \<Rightarrow> NDPPD_CONFIG_PATH | Some p \<Rightarrow> p);
           loaded \<leftarrow> nd_conf_load (os_file os path) (pr_daemon pr);
           case loaded of
             Inl e \<Rightarrow> Some (Exits 1 pr)
           | Inr d \<Rightarrow>
               if (case opt_netns opts of None \<Rightarrow> False | Some name \<Rightarrow> \<not> ndL_netns os name) then Some (Exits 1 (pr\<lparr>pr_daemon := d\<rparr>))
               else start_daemon os opts (pr\<lparr>pr_daemon := d\<rparr>)
         }
   }"

subsection \<open>Exit\<close>

text \<open>
  The function registered with \<open>atexit\<close>.  Its last call, \<open>nd_alloc_cleanup\<close>, gives the chunks back to the system: no code runs after
  it, and its own correctness is in \<open>Alloc\<close>.
\<close>

definition ndL_exit :: "process \<Rightarrow> process option" where
  "ndL_exit pr = do {
     d \<leftarrow> nd_iface_cleanup (pr_daemon pr);
     r1 \<leftarrow> nd_io_close (pr_iface_io pr) (pr_io pr);
     r2 \<leftarrow> nd_io_close (pr_rt_io pr) r1;
     Some (pr\<lparr>pr_daemon := d, pr_io := r2\<rparr>)
   }"

text \<open>The whole program over the turns of the loop it takes: its exit code when it has ended, after the clean-up.\<close>

definition program :: "os \<Rightarrow> opt list \<Rightarrow> io_state \<Rightarrow> turn list \<Rightarrow> (int option \<times> process) option" where
  "program os chs io ts = do {
     r \<leftarrow> main_init os chs io;
     case r of
       Exits code pr \<Rightarrow> do { pr' \<leftarrow> ndL_exit pr; Some (Some code, pr') }
     | Runs v pr \<Rightarrow> do {
         (code, v', d) \<leftarrow> main_loop ts (v, pr_daemon pr);
         case code of
           None \<Rightarrow> Some (None, pr\<lparr>pr_daemon := d\<rparr>)
         | Some c \<Rightarrow> do { pr' \<leftarrow> ndL_exit (pr\<lparr>pr_daemon := d\<rparr>); Some (Some c, pr') }
       }
   }"

subsection \<open>The sockets of the process\<close>

definition entry_handled :: "io_state \<Rightarrow> ptr option \<Rightarrow> io_handler \<Rightarrow> bool" where
  "entry_handled s io h \<longleftrightarrow> (\<forall>p. io = Some p \<longrightarrow> (\<exists>x. h_io s p = Some x \<and> io_handler x = Some h))"

definition sockets_ok :: "int set \<Rightarrow> process \<Rightarrow> bool" where
  "sockets_ok base pr \<longleftrightarrow>
     io_inv base (pr_io pr) \<and> entry_handled (pr_io pr) (pr_iface_io pr) Iface_io_handler \<and> entry_handled (pr_io pr) (pr_rt_io pr) Rt_io_handler \<and>
     dom (h_io (pr_io pr)) = set_option (pr_iface_io pr) \<union> set_option (pr_rt_io pr)"

definition os_ok :: "os \<Rightarrow> bool" where
  "os_ok os \<longleftrightarrow>
     kernel_ok (os_kernel os) \<and> (\<forall>fds. io_kernel_ok (os_packet os fds) fds) \<and> (\<forall>fds. io_kernel_ok (os_netlink os fds) fds) \<and>
     (\<forall>fds. os_pid_create os fds = -1 \<or> lowest_free (os_pid_create os fds) fds)"

lemma start_iface_sockets:
  assumes "sockets_ok base pr" "pr_iface_io pr = None" "pr_rt_io pr = None" "io_kernel_ok (os_packet os (open_fds (pr_io pr))) (open_fds (pr_io pr))"
  shows "\<exists>ok pr' sock. start_iface os pr = Some (ok, pr') \<and> sockets_ok base pr' \<and> pr_rt_io pr' = None \<and> (ok \<longrightarrow> pr_iface_io pr' \<noteq> None) \<and>
     nd_iface_startup sock (os_filter os) (os_packet_bind os) (pr_daemon pr) = (ok, pr_daemon pr')"
proof -
  let ?k = "os_packet os (open_fds (pr_io pr))"
  have inv: "io_inv base (pr_io pr)" and empty: "h_io (pr_io pr) = Map.empty"
    using assms(1-3) by (simp_all add: sockets_ok_def)
  obtain r s1 where s1: "nd_io_socket ?k (pr_io pr) = (r, s1)" "io_inv base s1"
    "case r of None \<Rightarrow> h_io s1 = Map.empty | Some p \<Rightarrow> h_io s1 = [p \<mapsto> \<lparr>io_fd = k_socket ?k, io_handler = None\<rparr>]"
    using io_socket [OF inv assms(4)] empty by (auto split: option.splits)
  obtain ok d where d: "nd_iface_startup (r \<noteq> None) (os_filter os) (os_packet_bind os) (pr_daemon pr) = (ok, d)" by fastforce
  let ?pr = "\<lambda>s io. pr\<lparr>pr_daemon := d, pr_io := s, pr_iface_io := io\<rparr>"
  have "\<exists>s io. start_iface os pr = Some (ok, ?pr s io) \<and> sockets_ok base (?pr s io) \<and> (ok \<longrightarrow> io \<noteq> None)"
  proof (cases r)
    case None
    then have "\<not> ok" using d by (simp add: nd_iface_startup_def)
    then have "start_iface os pr = Some (ok, ?pr s1 None)" using None s1(1) d by (simp add: start_iface_def)
    moreover have "sockets_ok base (?pr s1 None)" using None s1 assms(3) by (simp add: sockets_ok_def entry_handled_def)
    ultimately show ?thesis using \<open>\<not> ok\<close> by blast
  next
    case (Some p)
    then have h1: "h_io s1 = [p \<mapsto> \<lparr>io_fd = k_socket ?k, io_handler = None\<rparr>]" using s1(3) by simp
    then have h2: "h_io s1 p = Some \<lparr>io_fd = k_socket ?k, io_handler = None\<rparr>" by simp
    show ?thesis
    proof (cases ok)
      case True
      obtain s2 where s2: "set_handler p Iface_io_handler s1 = Some s2" "io_inv base s2"
        "h_io s2 = [p \<mapsto> \<lparr>io_fd = k_socket ?k, io_handler = Some Iface_io_handler\<rparr>]"
        using io_set_handler [OF s1(2) h2, of Iface_io_handler] h1 by auto
      have "start_iface os pr = Some (ok, ?pr s2 (Some p))" using Some s1(1) d True s2(1) by (simp add: start_iface_def)
      moreover have "sockets_ok base (?pr s2 (Some p))" using s2 assms(3) by (simp add: sockets_ok_def entry_handled_def)
      ultimately show ?thesis by blast
    next
      case False
      obtain s3 where s3: "nd_io_close (Some p) s1 = Some s3" "io_inv base s3" "h_io s3 = Map.empty"
        using io_inv_close [OF s1(2) h2] h1 by auto
      have "start_iface os pr = Some (ok, ?pr s3 None)" using Some s1(1) d False s3(1) by (simp add: start_iface_def)
      moreover have "sockets_ok base (?pr s3 None)" using s3 assms(3) by (simp add: sockets_ok_def entry_handled_def)
      ultimately show ?thesis using False by blast
    qed
  qed
  then obtain s io where "start_iface os pr = Some (ok, ?pr s io)" "sockets_ok base (?pr s io)" "ok \<longrightarrow> io \<noteq> None" by blast
  then show ?thesis using d assms(3) by (intro exI [of _ ok] exI [of _ "?pr s io"] exI [of _ "r \<noteq> None"]) simp
qed

lemma rt_open_sockets:
  assumes "sockets_ok base pr" "pr_rt_io pr = None" "io_kernel_ok (os_netlink os (open_fds (pr_io pr))) (open_fds (pr_io pr))"
  shows "\<exists>ok s io. nd_rt_open os pr = Some (ok, pr\<lparr>pr_io := s, pr_rt_io := io\<rparr>) \<and> sockets_ok base (pr\<lparr>pr_io := s, pr_rt_io := io\<rparr>) \<and>
     (ok \<longrightarrow> io \<noteq> None)"
proof -
  let ?k = "os_netlink os (open_fds (pr_io pr))" and ?pr = "\<lambda>s io. pr\<lparr>pr_io := s, pr_rt_io := io\<rparr>"
  have inv: "io_inv base (pr_io pr)" and ifc: "entry_handled (pr_io pr) (pr_iface_io pr) Iface_io_handler"
    and dom: "dom (h_io (pr_io pr)) = set_option (pr_iface_io pr)"
    using assms(1,2) by (simp_all add: sockets_ok_def)
  obtain r s1 where s1: "nd_io_socket ?k (pr_io pr) = (r, s1)" "io_inv base s1"
    "case r of None \<Rightarrow> h_io s1 = h_io (pr_io pr)
     | Some p \<Rightarrow> h_io (pr_io pr) p = None \<and> h_io s1 = (h_io (pr_io pr))(p \<mapsto> \<lparr>io_fd = k_socket ?k, io_handler = None\<rparr>)"
    using io_socket [OF inv assms(3)] by (auto split: option.splits)
  have closed: "sockets_ok base (?pr s None)" if "io_inv base s" "h_io s = h_io (pr_io pr)" for s
    using that ifc dom by (simp add: sockets_ok_def entry_handled_def)
  show ?thesis
  proof (cases r)
    case None
    then have "nd_rt_open os pr = Some (False, ?pr s1 None)" using s1(1) assms(2) by (simp add: nd_rt_open_def)
    then show ?thesis using closed [OF s1(2)] s1(3) None by auto
  next
    case (Some p)
    then have h1: "h_io s1 = (h_io (pr_io pr))(p \<mapsto> \<lparr>io_fd = k_socket ?k, io_handler = None\<rparr>)" "h_io (pr_io pr) p = None"
      using s1(3) by simp_all
    then have h2: "h_io s1 p = Some \<lparr>io_fd = k_socket ?k, io_handler = None\<rparr>" by simp
    show ?thesis
    proof (cases "os_netlink_bind os")
      case True
      obtain s2 where s2: "set_handler p Rt_io_handler s1 = Some s2" "io_inv base s2"
        "h_io s2 = (h_io (pr_io pr))(p \<mapsto> \<lparr>io_fd = k_socket ?k, io_handler = Some Rt_io_handler\<rparr>)"
        using io_set_handler [OF s1(2) h2, of Rt_io_handler] h1(1) by auto
      have "nd_rt_open os pr = Some (True, ?pr s2 (Some p))" using Some s1(1) assms(2) True s2(1) by (simp add: nd_rt_open_def)
      moreover have "pr_iface_io pr \<noteq> Some p" using dom h1(2) by auto
      then have "sockets_ok base (?pr s2 (Some p))" using s2(2,3) ifc dom by (auto simp: sockets_ok_def entry_handled_def)
      ultimately show ?thesis by blast
    next
      case False
      obtain s3 where s3: "nd_io_close (Some p) s1 = Some s3" "io_inv base s3" "h_io s3 = h_io (pr_io pr)"
        using io_inv_close [OF s1(2) h2] h1 by (auto simp: fun_upd_idem)
      have "nd_rt_open os pr = Some (False, ?pr s3 None)" using Some s1(1) assms(2) False s3(1) by (simp add: nd_rt_open_def)
      then show ?thesis using closed [OF s3(2,3)] by blast
    qed
  qed
qed

text \<open>Descriptors that are not the registry's come and go.\<close>

lemma io_inv_open_other:
  assumes "io_inv base s" "fd \<notin> set (open_fds s)"
  shows "io_inv (insert fd base) (s\<lparr>open_fds := fd # open_fds s\<rparr>)" (is "io_inv _ ?s")
proof -
  note d = io_invD [OF assms(1)]
  have fds: "fds_of ?s = fds_of s" by (rule fds_of_h_io) simp
  show ?thesis
  proof (rule io_invI, unfold fds)
    show "set (open_fds ?s) = insert fd base \<union> fds_of s \<union> (if ndL_epoll_fd ?s > 0 then {ndL_epoll_fd ?s} else {})" using d(8) by auto
    show "insert fd base \<inter> fds_of s = {}" using d(8,9) assms(2) by auto
    show "ndL_epoll_fd ?s \<notin> insert fd base \<union> fds_of s" if "0 < ndL_epoll_fd ?s" using d(8,10) that assms(2) by auto
  qed (use d(1-7) assms(2) in simp_all)
qed

lemma io_inv_close_other:
  assumes "io_inv base s" "fd \<in> base"
  shows "io_inv (base - {fd}) (fd_close fd s)" "h_io (fd_close fd s) = h_io s"
proof -
  note d = io_invD [OF assms(1)]
  show "h_io (fd_close fd s) = h_io s" by (simp add: fd_close_def)
  then have fds: "fds_of (fd_close fd s) = fds_of s" by (rule fds_of_h_io)
  have "fd \<notin> fds_of s" using d(9) assms(2) by auto
  then have same: "epoll_list (fd_close fd s) = epoll_list s"
    unfolding fd_close_def by (simp, intro filter_True) (use d(6) in \<open>auto simp: fds_of_iff\<close>)
  show "io_inv (base - {fd}) (fd_close fd s)"
  proof (rule io_invI, unfold fds same)
    show "set (open_fds (fd_close fd s)) =
        base - {fd} \<union> fds_of s \<union> (if ndL_epoll_fd (fd_close fd s) > 0 then {ndL_epoll_fd (fd_close fd s)} else {})"
      using d(7,8,9,10) assms(2) by (auto simp: fd_close_def)
    show "p = q" if "h_io (fd_close fd s) p = Some x" "h_io (fd_close fd s) q = Some y" "io_fd x = io_fd y" for p q x y
      using that d(4) by (simp add: fd_close_def)
  qed (use d in \<open>auto simp: fd_close_def\<close>)
qed

lemma sockets_ok_io:
  assumes "sockets_ok base pr" "io_inv base' s" "h_io s = h_io (pr_io pr)" "pr_io pr' = s" "pr_iface_io pr' = pr_iface_io pr"
    "pr_rt_io pr' = pr_rt_io pr"
  shows "sockets_ok base' pr'"
  using assms by (simp add: sockets_ok_def entry_handled_def)

lemma daemonize_sockets:
  assumes "sockets_ok base pr" "{0, 1, 2} \<subseteq> base" "os_ok os" "ndL_daemonize os path pr = (code, pr')"
  shows "\<exists>base'. sockets_ok base' pr'" "pr_iface_io pr' = pr_iface_io pr" "pr_rt_io pr' = pr_rt_io pr"
    "pr_daemon pr' = (pr_daemon pr)\<lparr>nd_iface_no_restore_flags := nd_iface_no_restore_flags (pr_daemon pr')\<rparr>"
    "code = None \<longrightarrow> pr_daemon pr' = pr_daemon pr" "code \<in> {None, Some 0, Some 1}"
proof -
  let ?fd = "os_pid_create os (open_fds (pr_io pr))"
  let ?s = "(pr_io pr)\<lparr>open_fds := ?fd # open_fds (pr_io pr)\<rparr>"
  have inv: "io_inv base (pr_io pr)" using assms(1) by (simp add: sockets_ok_def)
  have s: "io_inv (insert ?fd base) ?s" if "?fd \<noteq> -1"
    using io_inv_open_other [OF inv] that assms(3) by (auto simp: os_ok_def lowest_free_def)
  have fd: "?fd \<notin> {0, 1, 2}" if "?fd \<noteq> -1"
    using that assms(2,3) io_invD(8) [OF inv] by (auto simp: os_ok_def lowest_free_def)
  have child: "\<exists>base'. io_inv base' (fd_close 2 (fd_close 1 (fd_close 0 ?s)))" if "?fd \<noteq> -1"
  proof -
    have "0 \<in> insert ?fd base" "1 \<in> insert ?fd base - {0}" "2 \<in> insert ?fd base - {0} - {1}" using assms(2) by auto
    from io_inv_close_other(1) [OF io_inv_close_other(1) [OF io_inv_close_other(1) [OF s [OF that] this(1)] this(2)] this(3)] show ?thesis by blast
  qed
  have "pr_io pr' = pr_io pr \<or> ?fd \<noteq> -1 \<and> pr_io pr' \<in> {?s, fd_close 2 (fd_close 1 (fd_close 0 ?s))}"
    using assms(4) by (auto simp: ndL_daemonize_def Let_def split: option.splits if_splits fork_result.splits)
  then obtain base' where "io_inv base' (pr_io pr')" using inv s child by auto
  moreover have h: "h_io (pr_io pr') = h_io (pr_io pr)" "pr_iface_io pr' = pr_iface_io pr" "pr_rt_io pr' = pr_rt_io pr"
    using assms(4) by (auto simp: ndL_daemonize_def Let_def fd_close_def split: option.splits if_splits fork_result.splits)
  ultimately show "\<exists>base'. sockets_ok base' pr'" using sockets_ok_io [OF assms(1)] by blast
  show "pr_iface_io pr' = pr_iface_io pr" "pr_rt_io pr' = pr_rt_io pr" by (fact h)+
  show "pr_daemon pr' = (pr_daemon pr)\<lparr>nd_iface_no_restore_flags := nd_iface_no_restore_flags (pr_daemon pr')\<rparr>"
    "code = None \<longrightarrow> pr_daemon pr' = pr_daemon pr" "code \<in> {None, Some 0, Some 1}"
    using assms(4) by (auto simp: ndL_daemonize_def Let_def split: option.splits if_splits fork_result.splits)
qed

subsection \<open>Exit\<close>

text \<open>
  The function registered with \<open>atexit\<close>.  Its last call, \<open>nd_alloc_cleanup\<close>, gives the chunks back to the system: no code runs after
  it, and its own correctness is in \<open>Alloc\<close>.
\<close>

definition exit_ok :: "process \<Rightarrow> bool" where
  "exit_ok pr \<longleftrightarrow> (\<exists>base. sockets_ok base pr) \<and> (\<exists>refs. iface_inv refs (pr_daemon pr))"

lemma exit_total:
  assumes "exit_ok pr"
  shows "\<exists>pr'. ndL_exit pr = Some pr' \<and> h_iface (pr_daemon pr') = Map.empty \<and> h_io (pr_io pr') = Map.empty"
proof -
  obtain base refs where so: "sockets_ok base pr" and refs: "iface_inv refs (pr_daemon pr)" using assms by (auto simp: exit_ok_def)
  obtain out' where d: "nd_iface_cleanup (pr_daemon pr) = Some ((pr_daemon pr)\<lparr>out := out', ndL_first_iface := [], h_iface := Map.empty\<rparr>)"
    using iface_cleanup_all [OF refs] by blast
  have inv: "io_inv base (pr_io pr)" and dom: "dom (h_io (pr_io pr)) = set_option (pr_iface_io pr) \<union> set_option (pr_rt_io pr)"
    and hs: "entry_handled (pr_io pr) (pr_iface_io pr) Iface_io_handler" "entry_handled (pr_io pr) (pr_rt_io pr) Rt_io_handler"
    using so by (simp_all add: sockets_ok_def)
  have ne: "pr_iface_io pr \<noteq> pr_rt_io pr" if "pr_rt_io pr \<noteq> None" using hs that by (force simp: entry_handled_def)
  obtain r1 where r1: "nd_io_close (pr_iface_io pr) (pr_io pr) = Some r1" "io_inv base r1" "dom (h_io r1) = set_option (pr_rt_io pr)"
  proof (cases "pr_iface_io pr")
    case None
    then show ?thesis using that inv dom by (simp add: nd_io_close_def)
  next
    case (Some p)
    then obtain x where "h_io (pr_io pr) p = Some x" using hs(1) by (auto simp: entry_handled_def)
    from io_inv_close [OF inv this] obtain s' where s': "nd_io_close (Some p) (pr_io pr) = Some s'" "io_inv base s'"
      "h_io s' = (h_io (pr_io pr))(p := None)" by blast
    moreover have "p \<notin> set_option (pr_rt_io pr)" using ne Some by auto
    then have "dom (h_io s') = set_option (pr_rt_io pr)" using dom Some by (simp add: s'(3))
    ultimately show ?thesis using that Some by simp
  qed
  obtain r2 where "nd_io_close (pr_rt_io pr) r1 = Some r2" "h_io r2 = Map.empty"
  proof (cases "pr_rt_io pr")
    case None
    then show ?thesis using that r1 by (simp add: nd_io_close_def)
  next
    case (Some p)
    then obtain x where "h_io r1 p = Some x" using r1(3) by auto
    from io_inv_close [OF r1(2) this] obtain s' where "nd_io_close (Some p) r1 = Some s'" "h_io s' = (h_io r1)(p := None)" by blast
    moreover have "dom ((h_io r1)(p := None)) = {}" using Some r1(3) by (simp only: dom_fun_upd) simp
    then have "(h_io r1)(p := None) = Map.empty" by (rule iffD1 [OF dom_eq_empty_conv])
    ultimately show ?thesis using Some by (intro that) simp_all
  qed
  then show ?thesis using d r1(1) by (simp add: ndL_exit_def)
qed

subsection \<open>The start\<close>

lemma startup_keeps_config:
  assumes "config_inv s" "modes_ok s" "kernel_ok k" "all_pending s"
  shows "\<exists>b s'. nd_proxy_startup k s = Some (b, s') \<and> config_inv s'"
proof (cases "ndL_proxies s = []")
  case True
  then show ?thesis using assms(1) by (auto simp: nd_proxy_startup_def)
next
  case False
  have "distinct (ndL_proxies s)" "set (ndL_proxies s) = dom (h_proxy s)" using assms(1) by (simp_all add: config_inv_def config_wf_def)
  moreover have "\<forall>pp\<in>dom (h_proxy s). proxy_pending s pp" using all_pending_proxies [OF assms(4)] by blast
  ultimately show ?thesis
    using startup_proxies_ok [OF assms(1-3), of "ndL_proxies s"] False by (auto simp: nd_proxy_startup_def)
qed

lemma config_exit: "config_inv (pr_daemon pr) \<Longrightarrow> sockets_ok base pr \<Longrightarrow> exit_ok pr"
  by (auto simp: exit_ok_def config_inv_def)

lemma iface_inv_flag: "iface_inv refs (s\<lparr>nd_iface_no_restore_flags := b\<rparr>) = iface_inv refs s"
  by (simp add: iface_inv_def)

lemma iface_startup_config:
  assumes "nd_iface_startup sock filt bound s = (ok, s')" "config_inv s"
  shows "config_inv s'" "ok \<Longrightarrow> s' = s\<lparr>ndL_io := True\<rparr> \<and> sock \<and> filt \<and> bound"
proof -
  have e: "config_inv (emit e s) = config_inv s" for e and s :: "'a session_state_scheme"
    by (simp add: config_inv_def config_wf_def no_sessions_def iface_inv_def refs_of_def [abs_def] iface_proxies_ok_def emit_def)
  show "config_inv s'" "ok \<Longrightarrow> s' = s\<lparr>ndL_io := True\<rparr> \<and> sock \<and> filt \<and> bound"
    using assms by (auto simp: nd_iface_startup_def e config_inv_io split: if_splits)
qed

lemma start_user_sockets: "start_user os opts pr = (ok, pr') \<Longrightarrow> sockets_ok base pr \<Longrightarrow> sockets_ok base pr' \<and> pr_daemon pr' = pr_daemon pr"
  by (auto simp: start_user_def sockets_ok_def entry_handled_def split: option.splits prod.splits)

lemma start_background_sockets:
  assumes "sockets_ok base pr" "{0, 1, 2} \<subseteq> base" "os_ok os" "start_background os opts pr = (code, pr')"
  shows "(\<exists>base'. sockets_ok base' pr') \<and>
    pr_daemon pr' = (pr_daemon pr)\<lparr>nd_iface_no_restore_flags := nd_iface_no_restore_flags (pr_daemon pr')\<rparr> \<and>
    (code = None \<longrightarrow> pr_daemon pr' = pr_daemon pr) \<and> code \<in> {None, Some 0, Some 1}"
proof (cases "nd_opt_daemonize opts")
  case True
  then have "ndL_daemonize os (nd_opt_pidfile_path opts) pr = (code, pr')" using assms(4) by (simp add: start_background_def)
  note d = daemonize_sockets [OF assms(1-3) this]
  show ?thesis by (intro conjI) (fact d)+
next
  case False
  then have "code = None" "pr' = pr" using assms(4) by (simp_all add: start_background_def)
  then show ?thesis using assms(1) by auto
qed

lemma start_daemon_ok:
  assumes "conf_inv (pr_daemon pr)" "sockets_ok base pr" "pr_iface_io pr = None" "pr_rt_io pr = None" "{0, 1, 2} \<subseteq> base" "os_ok os"
  shows "\<exists>r. start_daemon os opts pr = Some r \<and>
    (case r of Exits code pr' \<Rightarrow> code \<in> {0, 1} \<and> exit_ok pr'
     | Runs v pr' \<Rightarrow> daemon_reach (v, pr_daemon pr') \<and> (\<exists>base'. sockets_ok base' pr'))"
proof -
  have conf: "config_inv (pr_daemon pr)" "modes_ok (pr_daemon pr)" "all_pending (pr_daemon pr)" "routes_ok (ndL_routes (pr_daemon pr))"
    using assms(1) by (auto simp: conf_inv_def conf_part_def modes_ok_def rule_done_def rule_ranges_def routes_ok_def)
  have k: "kernel_ok (os_kernel os)" and io_kernels: "io_kernel_ok (os_packet os fds) fds" "io_kernel_ok (os_netlink os fds) fds" for fds
    using assms(6) by (simp_all add: os_ok_def)
  obtain ok1 pr1 sock where 1: "start_iface os pr = Some (ok1, pr1)" "sockets_ok base pr1" "pr_rt_io pr1 = None"
    "nd_iface_startup sock (os_filter os) (os_packet_bind os) (pr_daemon pr) = (ok1, pr_daemon pr1)"
    using start_iface_sockets [OF assms(2-4) io_kernels(1)] by blast
  note d1 = iface_startup_config [OF 1(4) conf(1)]
  show ?thesis
  proof (cases ok1)
    case False
    then show ?thesis using 1(1) config_exit [OF d1(1) 1(2)] by (simp add: start_daemon_def)
  next
    case ok1: True
    have s1: "pr_daemon pr1 = (pr_daemon pr)\<lparr>ndL_io := True\<rparr>" "sock" "os_filter os" "os_packet_bind os" using d1(2) [OF ok1] by simp_all
    obtain ok2 d2 where 2: "nd_proxy_startup (os_kernel os) (pr_daemon pr1) = Some (ok2, d2)" "config_inv d2"
      using startup_keeps_config [of "pr_daemon pr1" "os_kernel os"] conf k by (auto simp: s1(1) config_inv_io)
    let ?pr2 = "pr1\<lparr>pr_daemon := d2\<rparr>"
    have so2: "sockets_ok base ?pr2" using 1(2) by (simp add: sockets_ok_def)
    show ?thesis
    proof (cases ok2)
      case False
      then show ?thesis using 1(1) ok1 2 config_exit [of ?pr2 base] so2 by (simp add: start_daemon_def)
    next
      case ok2: True
      obtain ok3 s3 io3 where 3: "nd_rt_open os ?pr2 = Some (ok3, ?pr2\<lparr>pr_io := s3, pr_rt_io := io3\<rparr>)"
        "sockets_ok base (?pr2\<lparr>pr_io := s3, pr_rt_io := io3\<rparr>)"
        using rt_open_sockets [OF so2 _ io_kernels(2)] 1(3) by auto
      let ?pr3 = "?pr2\<lparr>pr_io := s3, pr_rt_io := io3\<rparr>"
      obtain ok4 pr4 where 4: "start_user os opts ?pr3 = (ok4, pr4)" by fastforce
      have so4: "sockets_ok base pr4" "pr_daemon pr4 = d2" using start_user_sockets [OF 4 3(2)] by simp_all
      obtain code pr5 where 5: "start_background os opts pr4 = (code, pr5)" by fastforce
      note so5 = start_background_sockets [OF so4(1) assms(5,6) 5]
      show ?thesis
      proof (cases "ok3 \<and> ok4")
        case False
        then show ?thesis using 1(1) ok1 2 ok2 3 4 so4 config_exit [of ?pr3 base] config_exit [of pr4 base]
          by (auto simp: start_daemon_def)
      next
        case ok4: True
        show ?thesis
        proof (cases code)
          case (Some c)
          have "iface_inv (refs_of d2) (pr_daemon pr5)" using so5 so4(2) 2(2) iface_inv_flag by (metis config_invD(3))
          then have "exit_ok pr5" using so5 by (auto simp: exit_ok_def)
          then show ?thesis using 1(1) ok1 2 ok2 3 4 ok4 5 Some so5 by (simp add: start_daemon_def)
        next
          case None
          let ?v = "\<lparr>querying_routes = True, last_session_update = 0, last_iface_check = 0\<rparr>"
          have d5: "pr_daemon pr5 = d2" using so5 None so4(2) by simp
          have "main_start True True True (os_kernel os) True (pr_daemon pr) = Some (Some (?v, snd (nd_rt_query_routes d2)), snd (nd_rt_query_routes d2))"
            using 2(1) ok2 s1(1) by (simp add: main_start_def nd_iface_startup_def Let_def)
          from daemon_reach.start [OF conf k this] so5 show ?thesis
            using 1(1) ok1 2 ok2 3 4 ok4 5 None d5 by (auto simp: start_daemon_def sockets_ok_def)
        qed
      qed
    qed
  qed
qed

subsection \<open>The whole program\<close>

definition initial_registry :: "int list \<Rightarrow> io_state" where
  "initial_registry inherited =
     \<lparr>h_io = Map.empty, ndL_first_io = [], ndL_epoll_fd = 0, io_heap_next = 0, open_fds = inherited, epoll_list = []\<rparr>"

lemma parse_options_code: "parse_options malloc chs opts a = Inl code \<Longrightarrow> code = 1"
  by (induction chs arbitrary: opts a)
    (auto simp: option_turn_def keep_arg_def split: sum.splits opt.splits if_splits prod.splits)

lemma loop_codes:
  assumes "main_loop ts st = Some (Some c, st')"
  shows "c \<in> {0, 1}"
  using assms
proof (induction ts arbitrary: st)
  case (Cons t ts)
  have "r \<in> {None, Some 0, Some 1}" if "main_turn t st = Some (r, st1)" for r st1
    using that by (auto simp: main_turn_def bind_eq_Some_conv Let_def split: prod.splits if_splits)
  with Cons show ?case by (fastforce simp: bind_eq_Some_conv split: option.splits)
qed simp

lemma main_init_ok:
  assumes "os_ok os" "distinct inherited" "{0, 1, 2} \<subseteq> set inherited"
  shows "\<exists>r. main_init os chs (initial_registry inherited) = Some r \<and>
    (case r of Exits code pr \<Rightarrow> code \<in> {0, 1} \<and> exit_ok pr
     | Runs v pr \<Rightarrow> daemon_reach (v, pr_daemon pr) \<and> (\<exists>base. sockets_ok base pr))"
proof -
  let ?pr = "\<lambda>d. \<lparr>pr_daemon = d, pr_io = initial_registry inherited, pr_iface_io = None, pr_rt_io = None, pr_calls = [], pr_pid_text = None\<rparr>"
  let ?d = "initial_state (os_time os) (os_seed os)"
  have so: "sockets_ok (set inherited) (?pr d)" for d
    using io_reach_inv [OF io_reach.start [OF assms(2)]] by (simp add: sockets_ok_def entry_handled_def initial_registry_def)
  have ex: "exit_ok (?pr d)" if "conf_inv d" for d
    using config_exit [OF _ so] that by (simp add: conf_inv_def conf_part_def)
  show ?thesis
  proof (cases "parse_options (os_malloc os) chs no_options alloc_init")
    case (Inl code)
    then show ?thesis using ex [OF initial_conf_inv] parse_options_code [OF Inl] by (simp add: main_init_def)
  next
    case (Inr oa)
    obtain opts a where oa: "oa = (opts, a)" by (cases oa)
    define path where "path = (case nd_opt_config_path opts of None \<Rightarrow> NDPPD_CONFIG_PATH | Some p \<Rightarrow> p)"
    obtain r where r: "nd_conf_load (os_file os path) ?d = Some r" "\<And>d. r = Inr d \<Longrightarrow> conf_inv d"
      using conf_load_inv [OF initial_conf_inv] by blast
    show ?thesis
    proof (cases "nd_opt_pidfile_path opts \<noteq> None \<and> \<not> ndL_check_pidfile os")
      case True
      then show ?thesis using Inr oa ex [OF initial_conf_inv] by (simp add: main_init_def)
    next
      case False
      then have eq: "main_init os chs (initial_registry inherited) =
        (case r of Inl e \<Rightarrow> Some (Exits 1 (?pr ?d))
         | Inr d \<Rightarrow> if (case opt_netns opts of None \<Rightarrow> False | Some name \<Rightarrow> \<not> ndL_netns os name) then Some (Exits 1 (?pr d))
                    else start_daemon os opts (?pr d))"
        using Inr oa r(1) unfolding main_init_def by (cases r) (auto simp: path_def Let_def)
      show ?thesis
      proof (cases r)
        case (Inl e)
        then show ?thesis using eq ex [OF initial_conf_inv] by simp
      next
        case (Inr d)
        have "\<exists>r. start_daemon os opts (?pr d) = Some r \<and>
          (case r of Exits code pr \<Rightarrow> code \<in> {0, 1} \<and> exit_ok pr
           | Runs v pr \<Rightarrow> daemon_reach (v, pr_daemon pr) \<and> (\<exists>base. sockets_ok base pr))"
          by (rule start_daemon_ok [OF _ so _ _ assms(3,1)]) (use r(2) Inr in simp_all)
        then show ?thesis using eq Inr ex [OF r(2) [OF Inr]] by simp
      qed
    qed
  qed
qed


definition sample_os :: os where
  "sample_os =
    \<lparr>os_time = 1000000, os_seed = 1, os_malloc = (\<lambda>_. Some 4096), os_file = (\<lambda>_. Some sample_file), os_pid_open = Missing,
     os_pid_lock = True, os_netns_open = (\<lambda>_. True), os_setns = (\<lambda>_. True),
     os_packet = (\<lambda>fds. \<lparr>k_socket = (if fds = [0, 1, 2] then 3 else -1), k_getfl = True, k_setfl = True, k_epoll_create = 4,
                    k_epoll_add = True\<rparr>),
     os_filter = True, os_packet_bind = True, os_kernel = sample_kernel,
     os_netlink = (\<lambda>fds. \<lparr>k_socket = (if fds = [4, 3, 0, 1, 2] then 5 else -1), k_getfl = True, k_setfl = True, k_epoll_create = -1,
                     k_epoll_add = True\<rparr>),
     os_netlink_bind = True, os_priv = (\<lambda>_. True), os_pid_create = (\<lambda>_. -1), os_pid_relock = True, os_fork = Fork_child,
     os_truncate = True, os_setsid = True, os_chdir = True\<rparr>"

lemma sample_os_ok: "os_ok sample_os"
proof -
  have "n \<in> set [0, 1, 2]" if "0 \<le> n" "n < 3" for n :: int using that by auto
  moreover have "n \<in> set [3, 0, 1, 2]" if "0 \<le> n" "n < 4" for n :: int using that by auto
  moreover have "n \<in> set [4, 3, 0, 1, 2]" if "0 \<le> n" "n < 5" for n :: int using that by auto
  ultimately show ?thesis
    by (auto simp: os_ok_def sample_os_def sample_kernel_ok io_kernel_ok_def lowest_free_def)
qed

lemma sample_os_runs:
  "case main_init sample_os [] (initial_registry [0, 1, 2]) of
     Some (Runs v pr) \<Rightarrow> open_fds (pr_io pr) = [5, 4, 3, 0, 1, 2] \<and> ndL_first_iface (pr_daemon pr) = [3, 2] \<and>
       pr_iface_io pr = Some 0 \<and> pr_rt_io pr = Some 1 \<and> map snd (epoll_list (pr_io pr)) = [1, 0]
   | _ \<Rightarrow> False"
  by code_simp


end
