(* ===== verification/Process_User.thy ===== *)
theory Process_User
  imports Process
begin

text \<open>
  What the start of the process guarantees beyond safety: a daemon told to give up root does so before it enters its loop, what going
  to the background needs, and that the event loop's dispatch by pointer is the one the model of the loop uses.
\<close>

subsection \<open>A daemon told to give up root has done so before it runs\<close>

lemma option_turn_user:
  "option_turn malloc ch opts a = Inr (opts', a') \<Longrightarrow> nd_opt_user opts \<noteq> None \<or> (\<exists>spec. ch = Opt_user spec) \<Longrightarrow> nd_opt_user opts' \<noteq> None"
  by (auto simp: option_turn_def keep_arg_def split: opt.splits sum.splits if_splits prod.splits)

lemma parse_options_user:
  "parse_options malloc chs opts a = Inr (opts', a') \<Longrightarrow> nd_opt_user opts \<noteq> None \<or> (\<exists>spec. Opt_user spec \<in> set chs) \<Longrightarrow> nd_opt_user opts' \<noteq> None"
proof (induction chs arbitrary: opts a)
  case (Cons ch chs)
  then obtain o1 a1 where t: "option_turn malloc ch opts a = Inr (o1, a1)" "parse_options malloc chs o1 a1 = Inr (opts', a')"
    by (auto split: sum.splits)
  show ?case
    by (rule Cons.IH [OF t(2)]) (use option_turn_user [OF t(1)] Cons.prems(2) in auto)
qed simp

lemma start_iface_calls: "start_iface os pr = Some (ok, pr') \<Longrightarrow> pr_calls pr' = pr_calls pr"
  by (auto simp: start_iface_def bind_eq_Some_conv Let_def split: prod.splits)

lemma rt_open_calls: "nd_rt_open os pr = Some (ok, pr') \<Longrightarrow> pr_calls pr' = pr_calls pr"
  by (auto simp: nd_rt_open_def bind_eq_Some_conv Let_def split: prod.splits option.splits if_splits)

lemma background_calls: "start_background os opts pr = (code, pr') \<Longrightarrow> pr_calls pr' = pr_calls pr"
  by (auto simp: start_background_def ndL_daemonize_def Let_def split: option.splits if_splits fork_result.splits)

lemma start_daemon_calls:
  assumes "start_daemon os opts pr = Some (Runs v pr')" "nd_opt_user opts = Some spec"
  shows "\<exists>made. ndL_drop_privileges (os_priv os) (os_file os ''/etc/passwd'') (os_file os ''/etc/group'') spec = (True, made) \<and>
     pr_calls pr' = pr_calls pr @ made"
proof -
  obtain ok1 pr1 where 1: "start_iface os pr = Some (ok1, pr1)" "ok1"
    using assms(1) by (auto simp: start_daemon_def bind_eq_Some_conv split: if_splits)
  obtain ok2 d2 where 2: "nd_proxy_startup (os_kernel os) (pr_daemon pr1) = Some (ok2, d2)" "ok2"
    using assms(1) 1 by (auto simp: start_daemon_def bind_eq_Some_conv Let_def split: if_splits)
  obtain ok3 pr3 where 3: "nd_rt_open os (pr1\<lparr>pr_daemon := d2\<rparr>) = Some (ok3, pr3)" "ok3"
    using assms(1) 1 2 by (auto simp: start_daemon_def bind_eq_Some_conv Let_def split: if_splits)
  obtain ok4 pr4 where 4: "start_user os opts pr3 = (ok4, pr4)" by fastforce
  obtain code pr5 where 5: "start_background os opts pr4 = (code, pr5)" by fastforce
  have ok4 and calls: "pr_calls pr' = pr_calls pr5"
    using assms(1) 1 2 3 4 5 by (auto simp: start_daemon_def split: if_splits option.splits)
  obtain ok made where m: "ndL_drop_privileges (os_priv os) (os_file os ''/etc/passwd'') (os_file os ''/etc/group'') spec = (ok, made)" by fastforce
  then have "ok = ok4" "pr_calls pr4 = pr_calls pr3 @ made" using 4 assms(2) by (auto simp: start_user_def)
  then show ?thesis
    using m \<open>ok4\<close> calls background_calls [OF 5] rt_open_calls [OF 3(1)] start_iface_calls [OF 1(1)] by simp
qed

lemma main_init_runs:
  assumes "main_init os chs io = Some (Runs v pr)"
  shows "\<exists>opts a d. parse_options (os_malloc os) chs no_options alloc_init = Inr (opts, a) \<and>
     start_daemon os opts \<lparr>pr_daemon = d, pr_io = io, pr_iface_io = None, pr_rt_io = None, pr_calls = [], pr_pid_text = None\<rparr> = Some (Runs v pr)"
proof (cases "parse_options (os_malloc os) chs no_options alloc_init")
  case (Inl code)
  then show ?thesis using assms by (simp add: main_init_def)
next
  case (Inr oa)
  obtain opts a where oa: "oa = (opts, a)" by (cases oa)
  let ?load = "nd_conf_load (os_file os (case nd_opt_config_path opts of None \<Rightarrow> NDPPD_CONFIG_PATH | Some p \<Rightarrow> p)) (initial_state (os_time os) (os_seed os))"
  show ?thesis
  proof (cases ?load)
    case None
    then show ?thesis using assms Inr oa by (simp add: main_init_def Let_def split: if_splits)
  next
    case (Some r)
    then show ?thesis using assms Inr oa by (cases r) (auto simp: main_init_def Let_def split: if_splits)
  qed
qed


lemma start_daemon_user:
  assumes "start_daemon os opts pr = Some (Runs v pr')" "nd_opt_user opts = None" "\<not> nd_opt_daemonize opts"
    "ndL_drop_privileges (os_priv os) (os_file os ''/etc/passwd'') (os_file os ''/etc/group'') u = (True, made)"
  shows "start_daemon os (opts\<lparr>nd_opt_user := Some u\<rparr>) pr = Some (Runs v (pr'\<lparr>pr_calls := pr_calls pr' @ made\<rparr>))"
proof -
  obtain ok1 pr1 where 1: "start_iface os pr = Some (ok1, pr1)" "ok1"
    using assms(1) by (auto simp: start_daemon_def bind_eq_Some_conv split: if_splits)
  obtain ok2 d2 where 2: "nd_proxy_startup (os_kernel os) (pr_daemon pr1) = Some (ok2, d2)" "ok2"
    using assms(1) 1 by (auto simp: start_daemon_def bind_eq_Some_conv Let_def split: if_splits)
  obtain ok3 pr3 where 3: "nd_rt_open os (pr1\<lparr>pr_daemon := d2\<rparr>) = Some (ok3, pr3)" "ok3"
    using assms(1) 1 2 by (auto simp: start_daemon_def bind_eq_Some_conv Let_def split: if_splits)
  show ?thesis
    using assms 1 2 3 by (auto simp: start_daemon_def start_user_def start_background_def)
qed


subsection \<open>Background and standard descriptors\<close>

lemma parse_options_background:
  "parse_options malloc chs opts a = Inr (opts', a') \<Longrightarrow> (\<forall>p. Opt_pidfile p \<notin> set chs) \<Longrightarrow>
     nd_opt_pidfile_path opts' = nd_opt_pidfile_path opts \<and> (nd_opt_daemonize opts' \<longleftrightarrow> nd_opt_daemonize opts \<or> Opt_daemon \<in> set chs)"
proof (induction chs arbitrary: opts a)
  case (Cons ch chs)
  then obtain o1 a1 where t: "option_turn malloc ch opts a = Inr (o1, a1)" "parse_options malloc chs o1 a1 = Inr (opts', a')"
    by (auto split: sum.splits)
  have "nd_opt_pidfile_path o1 = nd_opt_pidfile_path opts \<and> (nd_opt_daemonize o1 \<longleftrightarrow> nd_opt_daemonize opts \<or> ch = Opt_daemon)"
    using t(1) Cons.prems(2) by (auto simp: option_turn_def keep_arg_def split: opt.splits sum.splits if_splits prod.splits)
  then show ?case using Cons.IH [OF t(2)] Cons.prems(2) by auto
qed simp

text \<open>
  Going to the background needs a pid file: without one the path that is opened is a null pointer, which the kernel refuses.
\<close>

lemma background_needs_pidfile:
  assumes "Opt_daemon \<in> set chs" "\<forall>p. Opt_pidfile p \<notin> set chs"
  shows "main_init os chs io \<noteq> Some (Runs v pr)"
proof
  assume run: "main_init os chs io = Some (Runs v pr)"
  obtain opts a d where o: "parse_options (os_malloc os) chs no_options alloc_init = Inr (opts, a)"
    "start_daemon os opts \<lparr>pr_daemon = d, pr_io = io, pr_iface_io = None, pr_rt_io = None, pr_calls = [], pr_pid_text = None\<rparr> = Some (Runs v pr)"
    using main_init_runs [OF run] by blast
  have "nd_opt_pidfile_path opts = None" "nd_opt_daemonize opts"
    using parse_options_background [OF o(1) assms(2)] assms(1) by (simp_all add: no_options_def)
  then have "start_background os opts pr = (Some 1, pr)" for pr by (simp add: start_background_def ndL_daemonize_def)
  with o(2) show False by (auto simp: start_daemon_def bind_eq_Some_conv Let_def split: if_splits prod.splits)
qed

text \<open>
  A process started with a standard descriptor closed gets that number for its packet socket, and going to the background closes
  it again.
\<close>

lemma background_closes_socket:
  assumes "ndL_daemonize os path pr = (None, pr')" "h_io (pr_io pr) p = Some x" "io_fd x \<in> {0, 1, 2}" "distinct (open_fds (pr_io pr))"
    "os_ok os" "io_fd x \<in> set (open_fds (pr_io pr))"
  shows "h_io (pr_io pr') p = Some x \<and> io_fd x \<notin> set (open_fds (pr_io pr'))"
proof -
  let ?fds = "open_fds (pr_io pr)"
  obtain fd where fd: "fd = os_pid_create os ?fds" "fd \<noteq> -1"
    "pr_io pr' = fd_close 2 (fd_close 1 (fd_close 0 ((pr_io pr)\<lparr>open_fds := fd # ?fds\<rparr>)))"
    using assms(1) by (auto simp: ndL_daemonize_def Let_def split: option.splits if_splits fork_result.splits)
  have "lowest_free fd ?fds" using assms(5) fd by (auto simp: os_ok_def)
  then have "distinct (fd # ?fds)" using assms(4) by (simp add: lowest_free_def)
  then show ?thesis using fd assms(2,3) by (auto simp: fd_close_def)
qed

subsection \<open>Dispatch of events\<close>

text \<open>
  The loop of \<^verbatim>\<open>nd_io_poll\<close> over what \<open>epoll_wait\<close> returned: an event carries the pointer the socket was registered with, and what can
  be read from that socket.  A pointer to a freed entry would be undefined behaviour.
\<close>

record readable =
  rd_frames :: "(kernel \<times> nat \<times> bytes) list"
  rd_dgrams :: "(kernel \<times> bytes) list"

definition run_handler :: "io_handler \<Rightarrow> readable \<Rightarrow> conf_state \<Rightarrow> conf_state option" where
  "run_handler h rd d = (case h of Iface_io_handler \<Rightarrow> ndL_io_handler (rd_frames rd) d | Rt_io_handler \<Rightarrow> rt_io_handler (rd_dgrams rd) d)"

primrec poll_events :: "io_state \<Rightarrow> (ptr \<times> readable) list \<Rightarrow> conf_state \<Rightarrow> conf_state option" where
  "poll_events s [] d = Some d"
| "poll_events s (ev # evs) d = do {
     x \<leftarrow> h_io s (fst ev);
     d' \<leftarrow> (case io_handler x of None \<Rightarrow> Some d | Some h \<Rightarrow> run_handler h (snd ev) d);
     poll_events s evs d'
   }"

definition epoll_loop :: "(sys_error + (ptr \<times> readable) list) list \<Rightarrow> io_state \<Rightarrow> conf_state \<Rightarrow> (bool \<times> conf_state) option" where
  "epoll_loop waits s d = do {
     r \<leftarrow> retry waits;
     case r of Inl _ \<Rightarrow> Some (False, d) | Inr evs \<Rightarrow> do { d' \<leftarrow> poll_events s evs d; Some (True, d') }
   }"

definition event_of :: "process \<Rightarrow> ptr \<times> readable \<Rightarrow> io_event" where
  "event_of pr ev = (if pr_iface_io pr = Some (fst ev) then PacketReady (rd_frames (snd ev)) else NetlinkReady (rd_dgrams (snd ev)))"

lemma poll_events_eq:
  assumes "sockets_ok base pr" "fst ` set evs \<subseteq> snd ` set (epoll_list (pr_io pr))"
  shows "poll_events (pr_io pr) evs d = foldM io_dispatch (map (event_of pr) evs) d"
  using assms(2)
proof (induction evs arbitrary: d)
  case (Cons ev evs)
  have s: "io_inv base (pr_io pr)" "dom (h_io (pr_io pr)) = set_option (pr_iface_io pr) \<union> set_option (pr_rt_io pr)"
    and iface: "entry_handled (pr_io pr) (pr_iface_io pr) Iface_io_handler" and rt: "entry_handled (pr_io pr) (pr_rt_io pr) Rt_io_handler"
    using assms(1) by (simp_all add: sockets_ok_def)
  have "snd ` set (epoll_list (pr_io pr)) \<subseteq> dom (h_io (pr_io pr))" unfolding io_invD(6) [OF s(1)] by auto
  then have known: "fst ev \<in> set_option (pr_iface_io pr) \<union> set_option (pr_rt_io pr)" using Cons.prems s(2) by auto
  obtain x where x: "h_io (pr_io pr) (fst ev) = Some x"
    "io_handler x = Some (if pr_iface_io pr = Some (fst ev) then Iface_io_handler else Rt_io_handler)" (is "_ = Some ?h")
  proof (cases "pr_iface_io pr = Some (fst ev)")
    case True
    then show ?thesis using that iface by (auto simp: entry_handled_def)
  next
    case False
    then have "pr_rt_io pr = Some (fst ev)" using known by auto
    then show ?thesis using that False rt by (auto simp: entry_handled_def)
  qed
  have "run_handler ?h (snd ev) d = io_dispatch (event_of pr ev) d" by (simp add: run_handler_def event_of_def io_dispatch_def)
  moreover have "poll_events (pr_io pr) evs d' = foldM io_dispatch (map (event_of pr) evs) d'" for d' using Cons by simp
  ultimately show ?case by (simp add: x)
qed simp

text \<open>
  C10: polling runs the right handler for every event and never follows a pointer to a closed socket: interrupted waits are repeated,
  and the loop over the events the kernel reports for registered sockets is the dispatch to the packet and the netlink handler
  that the model of the event loop uses.
\<close>

theorem poll_dispatches:
  assumes "sockets_ok base pr" "fst ` set evs \<subseteq> snd ` set (epoll_list (pr_io pr))"
  shows "epoll_loop (replicate n (Inl EINTR) @ Inr evs # waits) (pr_io pr) d = nd_io_poll (Some (map (event_of pr) evs)) d"
  by (simp add: epoll_loop_def retry_interrupted poll_events_eq [OF assms] nd_io_poll_def)

theorem poll_dispatches_witness:
  "\<exists>v pr. main_init sample_os [] (initial_registry [0, 1, 2]) = Some (Runs v pr) \<and>
     epoll_loop [Inl EINTR, Inr [(1, \<lparr>rd_frames = [], rd_dgrams = []\<rparr>), (0, \<lparr>rd_frames = [], rd_dgrams = []\<rparr>)]] (pr_io pr) (pr_daemon pr) =
       nd_io_poll (Some [NetlinkReady [], PacketReady []]) (pr_daemon pr)"
proof -
  obtain v pr where m: "main_init sample_os [] (initial_registry [0, 1, 2]) = Some (Runs v pr)"
    using sample_os_runs by (auto split: option.splits outcome.splits)
  then have "pr_iface_io pr = Some 0" "map snd (epoll_list (pr_io pr)) = [1, 0]" using sample_os_runs by simp_all
  then have r: "pr_iface_io pr = Some 0" "snd ` set (epoll_list (pr_io pr)) = {1, 0}"
    using set_map [of snd "epoll_list (pr_io pr)"] by simp_all
  obtain base where "sockets_ok base pr" using main_init_ok [OF sample_os_ok, of "[0, 1, 2]" "[]"] m by auto
  from poll_dispatches [OF this, of "[(1, \<lparr>rd_frames = [], rd_dgrams = []\<rparr>), (0, \<lparr>rd_frames = [], rd_dgrams = []\<rparr>)]" "Suc 0" "[]"] m r
  show ?thesis by (auto simp: event_of_def)
qed

end
