(* ===== verification/Bsd_Io.thy ===== *)
theory Bsd_Io
  imports Io
begin

text \<open>
  The registry of sockets in \<^verbatim>\<open>src/io.c\<close> in the build without epoll: the list of sockets and the array handed to \<open>poll\<close>, which is
  rebuilt after every change of the list and grows when the list has.  The lemmas show that the array always has exactly the sockets of
  the list, that it is never written or read outside its bounds, and that no descriptor is lost.
\<close>

subsection \<open>State\<close>

text \<open>The array \<open>ndL_pollfds\<close> has \<open>ndL_pollfds_size\<close> elements, of which the first \<open>ndL_pollfds_count\<close> are in use.\<close>

record bsd_io =
  bi_fd :: int
  bi_data :: "ptr option"
  bi_handler :: "io_handler option"

record bio_state =
  h_bio :: "ptr \<rightharpoonup> bsd_io"
  first_bio :: "ptr list"
  bio_next :: ptr
  bio_fds :: "int list"
  ndL_pollfds :: "int list"
  ndL_pollfds_count :: nat
  ndL_dirty :: bool

definition NDPPD_STATIC_POLLFDS_SIZE :: nat where "NDPPD_STATIC_POLLFDS_SIZE = 8"

definition bio_init :: "int list \<Rightarrow> bio_state" where
  "bio_init inherited = \<lparr>h_bio = Map.empty, first_bio = [], bio_next = 0, bio_fds = inherited,
     ndL_pollfds = replicate NDPPD_STATIC_POLLFDS_SIZE 0, ndL_pollfds_count = 0, ndL_dirty = False\<rparr>"

subsection \<open>Creating and closing\<close>

definition bio_create :: "io_kernel \<Rightarrow> int \<Rightarrow> bio_state \<Rightarrow> ptr option \<times> bio_state" where
  "bio_create k fd s =
     (if \<not> k_getfl k \<or> \<not> k_setfl k then (None, s\<lparr>bio_fds := remove1 fd (bio_fds s)\<rparr>)
      else
        (let p = bio_next s
         in (Some p, s\<lparr>h_bio := (h_bio s)(p \<mapsto> \<lparr>bi_fd = fd, bi_data = None, bi_handler = None\<rparr>), first_bio := p # first_bio s,
                       bio_next := Suc p, ndL_dirty := True\<rparr>)))"

definition bio_open :: "io_kernel \<Rightarrow> bio_state \<Rightarrow> ptr option \<times> bio_state" where
  "bio_open k s = (if k_socket k = -1 then (None, s) else bio_create k (k_socket k) (s\<lparr>bio_fds := k_socket k # bio_fds s\<rparr>))"

definition bio_close :: "ptr option \<Rightarrow> bio_state \<Rightarrow> bio_state option" where
  "bio_close io s =
     (case io of
        None \<Rightarrow> Some s
      | Some p \<Rightarrow> do {
          x \<leftarrow> h_bio s p;
          Some (s\<lparr>bio_fds := remove1 (bi_fd x) (bio_fds s), ndL_dirty := True, first_bio := remove1 p (first_bio s),
                  h_bio := (h_bio s)(p := None)\<rparr>)
        })"

text \<open>The assignments \<open>io->handler = ndL_io_handler\<close> and \<open>io->data = (uintptr_t)iface\<close>.\<close>

definition bio_update :: "ptr \<Rightarrow> (bsd_io \<Rightarrow> bsd_io) \<Rightarrow> bio_state \<Rightarrow> bio_state option" where
  "bio_update p f s = do { x \<leftarrow> h_bio s p; Some (s\<lparr>h_bio := (h_bio s)(p \<mapsto> f x)\<rparr>) }"

subsection \<open>The array of descriptors\<close>

fun fill_pollfds :: "(ptr \<rightharpoonup> bsd_io) \<Rightarrow> ptr list \<Rightarrow> nat \<Rightarrow> int list \<Rightarrow> (nat \<times> int list) option" where
  "fill_pollfds h [] index fds = Some (index, fds)"
| "fill_pollfds h (p # ps) index fds = do {
     x \<leftarrow> h p;
     require (index < length fds);
     fill_pollfds h ps (Suc index) (fds[index := bi_fd x])
   }"

text \<open>
  A failed \<open>realloc\<close> ends the process, here \<open>Inl\<close> with the exit code.  The values of the new array are not read before they are
  written.
\<close>

definition ndL_refresh_pollfds :: "bool \<Rightarrow> bio_state \<Rightarrow> (int + bio_state) option" where
  "ndL_refresh_pollfds realloc s = do {
     let count = length (first_bio s);
     if count > length (ndL_pollfds s) \<and> \<not> realloc then Some (Inl 1)
     else do {
       let fds = (if count > length (ndL_pollfds s) then replicate (count * 2) 0 else ndL_pollfds s);
       (index, fds') \<leftarrow> fill_pollfds (h_bio s) (first_bio s) 0 fds;
       Some (Inr (s\<lparr>ndL_pollfds := fds', ndL_pollfds_count := index\<rparr>))
     }
   }"

subsection \<open>Invariant\<close>

definition bfds_of :: "bio_state \<Rightarrow> int set" where
  "bfds_of s = {bi_fd x |p x. h_bio s p = Some x}"

definition listed_fds :: "bio_state \<Rightarrow> int list" where
  "listed_fds s = map (\<lambda>p. bi_fd (the (h_bio s p))) (first_bio s)"

definition bio_inv :: "int set \<Rightarrow> bio_state \<Rightarrow> bool" where
  "bio_inv base s \<longleftrightarrow>
     distinct (first_bio s) \<and> set (first_bio s) = dom (h_bio s) \<and> (\<forall>p\<in>dom (h_bio s). p < bio_next s) \<and>
     distinct (bio_fds s) \<and> distinct (listed_fds s) \<and> set (bio_fds s) = base \<union> set (listed_fds s) \<and> base \<inter> set (listed_fds s) = {} \<and>
     (ndL_dirty s \<or> take (ndL_pollfds_count s) (ndL_pollfds s) = listed_fds s \<and> ndL_pollfds_count s = length (first_bio s))"

lemma bio_invD:
  assumes "bio_inv base s"
  shows "distinct (first_bio s)" "set (first_bio s) = dom (h_bio s)" "p \<in> dom (h_bio s) \<Longrightarrow> p < bio_next s" "distinct (bio_fds s)"
    "distinct (listed_fds s)" "set (bio_fds s) = base \<union> set (listed_fds s)" "base \<inter> set (listed_fds s) = {}"
    "ndL_dirty s \<or> take (ndL_pollfds_count s) (ndL_pollfds s) = listed_fds s \<and> ndL_pollfds_count s = length (first_bio s)"
  using assms unfolding bio_inv_def by blast+

lemma bio_inv_init: "distinct inherited \<Longrightarrow> bio_inv (set inherited) (bio_init inherited)"
  by (simp add: bio_inv_def bio_init_def listed_fds_def)

lemma bio_fresh: "bio_inv base s \<Longrightarrow> h_bio s (bio_next s) = None"
  using bio_invD(3) [of base s "bio_next s"] by (cases "h_bio s (bio_next s)") auto

lemma bio_open_ok:
  assumes "bio_inv base s" "k_socket k \<noteq> -1 \<Longrightarrow> lowest_free (k_socket k) (bio_fds s)"
  shows "\<exists>r s'. bio_open k s = (r, s') \<and> bio_inv base s' \<and>
    (case r of None \<Rightarrow> h_bio s' = h_bio s
     | Some p \<Rightarrow> h_bio s p = None \<and> h_bio s' = (h_bio s)(p \<mapsto> \<lparr>bi_fd = k_socket k, bi_data = None, bi_handler = None\<rparr>))"
proof (cases "k_socket k = -1")
  case True
  then show ?thesis using assms(1) by (simp add: bio_open_def)
next
  case False
  then have fd: "k_socket k \<notin> set (bio_fds s)" using assms(2) by (simp add: lowest_free_def)
  note d = bio_invD [OF assms(1)] and n = bio_fresh [OF assms(1)]
  show ?thesis
  proof (cases "k_getfl k \<and> k_setfl k")
    case True
    let ?p = "bio_next s" and ?x = "\<lparr>bi_fd = k_socket k, bi_data = None, bi_handler = None\<rparr>"
    let ?s = "s\<lparr>bio_fds := k_socket k # bio_fds s, h_bio := (h_bio s)(?p \<mapsto> ?x), first_bio := ?p # first_bio s, bio_next := Suc ?p, ndL_dirty := True\<rparr>"
    have "?p \<notin> set (first_bio s)" using d(2) n by auto
    then have l: "listed_fds ?s = k_socket k # listed_fds s" by (auto simp: listed_fds_def)
    have "bio_inv base ?s"
      unfolding bio_inv_def l using d(1-7) fd n by (auto simp: less_Suc_eq)
    then show ?thesis using False True n by (simp add: bio_open_def bio_create_def Let_def)
  next
    case no: False
    then have "bio_open k s = (None, s)" using False by (auto simp: bio_open_def bio_create_def)
    then show ?thesis using assms(1) by simp
  qed
qed

lemma bio_close_ok:
  assumes "bio_inv base s" "h_bio s p = Some x"
  shows "\<exists>s'. bio_close (Some p) s = Some s' \<and> bio_inv base s' \<and> h_bio s' = (h_bio s)(p := None) \<and> first_bio s' = remove1 p (first_bio s)"
proof -
  note d = bio_invD [OF assms(1)]
  let ?s = "s\<lparr>bio_fds := remove1 (bi_fd x) (bio_fds s), ndL_dirty := True, first_bio := remove1 p (first_bio s), h_bio := (h_bio s)(p := None)\<rparr>"
  have mem: "p \<in> set (first_bio s)" using d(2) assms(2) by auto
  then obtain as bs where ab: "first_bio s = as @ p # bs" "p \<notin> set as" by (auto dest: split_list_first)
  then have pb: "p \<notin> set bs" using d(1) by simp
  let ?fd = "\<lambda>q. bi_fd (the (h_bio s q))"
  have l: "listed_fds s = map ?fd as @ bi_fd x # map ?fd bs" "listed_fds ?s = map ?fd as @ map ?fd bs"
    using ab pb assms(2) by (auto simp: listed_fds_def remove1_append)
  have "bio_inv base ?s"
    unfolding bio_inv_def using d ab pb l by (auto simp: remove1_append)
  then show ?thesis using assms(2) by (simp add: bio_close_def)
qed

lemma bio_update_ok:
  assumes "bio_inv base s" "h_bio s p = Some x" "bi_fd (f x) = bi_fd x"
  shows "\<exists>s'. bio_update p f s = Some s' \<and> bio_inv base s' \<and> h_bio s' = (h_bio s)(p \<mapsto> f x)"
proof -
  let ?s = "s\<lparr>h_bio := (h_bio s)(p \<mapsto> f x)\<rparr>"
  have l: "listed_fds ?s = listed_fds s" using assms(2,3) by (auto simp: listed_fds_def)
  have "bio_inv base ?s" unfolding bio_inv_def l using bio_invD [OF assms(1)] assms(2) by auto
  then show ?thesis using assms(2) by (simp add: bio_update_def)
qed

lemma bio_clean_ok: "bio_inv base s \<Longrightarrow> \<not> ndL_dirty s \<Longrightarrow> take (ndL_pollfds_count s) (ndL_pollfds s) = listed_fds s \<and>
  ndL_pollfds_count s = length (first_bio s) \<and> ndL_pollfds_count s \<le> length (ndL_pollfds s)"
proof -
  assume "bio_inv base s" "\<not> ndL_dirty s"
  then have h: "take (ndL_pollfds_count s) (ndL_pollfds s) = listed_fds s" "ndL_pollfds_count s = length (first_bio s)"
    using bio_invD(8) by blast+
  have "length (listed_fds s) = length (first_bio s)" by (simp add: listed_fds_def)
  with arg_cong [OF h(1), of length] h show ?thesis by simp
qed

lemma fill_pollfds_ok:
  "set ps \<subseteq> dom h \<Longrightarrow> i + length ps \<le> length fds \<Longrightarrow>
   fill_pollfds h ps i fds = Some (i + length ps, take i fds @ map (\<lambda>p. bi_fd (the (h p))) ps @ drop (i + length ps) fds)"
proof (induction ps arbitrary: i fds)
  case (Cons p ps)
  then obtain x where x: "h p = Some x" by auto
  have "i < length fds" using Cons.prems(2) by simp
  then have "take (Suc i) (fds[i := bi_fd x]) = take i fds @ [bi_fd x]" by (simp add: take_Suc_conv_app_nth)
  then show ?case using Cons x by simp
qed simp

lemma ndL_refresh_pollfds_ok:
  assumes "bio_inv base s" "realloc \<or> length (first_bio s) \<le> length (ndL_pollfds s)"
  shows "\<exists>s'. ndL_refresh_pollfds realloc s = Some (Inr s') \<and> bio_inv base (s'\<lparr>ndL_dirty := False\<rparr>) \<and> h_bio s' = h_bio s \<and> first_bio s' = first_bio s"
proof -
  let ?n = "length (first_bio s)"
  define fds where "fds = (if ?n > length (ndL_pollfds s) then replicate (?n * 2) 0 else ndL_pollfds s)"
  have len: "0 + ?n \<le> length fds" by (simp add: fds_def)
  have "set (first_bio s) \<subseteq> dom (h_bio s)" using bio_invD(2) [OF assms(1)] by simp
  from fill_pollfds_ok [OF this len]
  have f: "fill_pollfds (h_bio s) (first_bio s) 0 fds = Some (?n, listed_fds s @ drop ?n fds)" by (simp add: listed_fds_def)
  let ?s = "s\<lparr>ndL_pollfds := listed_fds s @ drop ?n fds, ndL_pollfds_count := ?n\<rparr>"
  have "listed_fds (?s\<lparr>ndL_dirty := False\<rparr>) = listed_fds s" "length (listed_fds s) = ?n" by (simp_all add: listed_fds_def)
  then have "bio_inv base (?s\<lparr>ndL_dirty := False\<rparr>)" using bio_invD [OF assms(1)] unfolding bio_inv_def by simp
  moreover have "ndL_refresh_pollfds realloc s = Some (Inr ?s)"
    using f assms(2) by (auto simp: ndL_refresh_pollfds_def Let_def fds_def)
  ultimately show ?thesis by auto
qed

end
