(* ===== verification/Bsd_Iface.thy ===== *)
theory Bsd_Iface
  imports Iface Bsd_Io
begin

text \<open>
  Interfaces in \<^verbatim>\<open>src/iface.c\<close> in the build without packet sockets: every interface object has a BPF device of its own, opened with it,
  closed with it, and closed and opened anew when the interface behind it has changed.  What the system answers is an argument.  The
  lemmas show that devices and interfaces always point to each other and that no descriptor is lost, whatever fails; that a pass of
  rebinding brings every interface whose device can be opened up to date; and what is left where it cannot.
\<close>

subsection \<open>State\<close>

text \<open>\<open>bs_bpf\<close> is the field \<open>bpf_io\<close> of the interface objects; no entry is a null pointer.\<close>

record bsd_state = iface_state +
  bs_reg :: bio_state
  bs_bpf :: "ptr \<rightharpoonup> ptr"

text \<open>
  The answers while one device is set up: opening it and the requests \<open>BIOCSBLEN\<close>, \<open>BIOCSETIF\<close>, \<open>BIOCPROMISC\<close>, \<open>BIOCIMMEDIATE\<close>
  and \<open>BIOCSETF\<close>.  They depend on the interface and on the descriptors that are open; the reply to the query for the link-layer address
  depends on the interface.
\<close>

record bpf_answers =
  ba_io :: io_kernel
  ba_sblen :: bool
  ba_setif :: bool
  ba_promisc :: bool
  ba_immediate :: bool
  ba_filter :: bool

record bpf_kernel =
  bk_iflist :: "string \<Rightarrow> bytes option"
  bk_dev :: "string \<Rightarrow> int list \<Rightarrow> bpf_answers"

text \<open>The sizes of the system's structures: \<open>sizeof (struct if_msghdr)\<close>, and the offsets of \<open>sdl_nlen\<close> and \<open>sdl_data\<close>.\<close>

definition sizeof_if_msghdr :: nat where "sizeof_if_msghdr = 168"
definition sdl_nlen :: nat where "sdl_nlen = 5"
definition sdl_data :: nat where "sdl_data = 8"

definition reply_too_short :: "bytes \<Rightarrow> bool" where
  "reply_too_short b \<longleftrightarrow> length b < sizeof_if_msghdr + sdl_data + 6"

text \<open>The address behind \<open>LLADDR\<close>; \<open>None\<close> when it lies behind the end of the reply.\<close>

definition reply_lladdr :: "bytes \<Rightarrow> nd_lladdr option" where
  "reply_lladdr b = do {
     nlen \<leftarrow> read_byte b (sizeof_if_msghdr + sdl_nlen);
     map_option lladdr_of_bytes (read_bytes b (sizeof_if_msghdr + sdl_data + unat nlen) 6)
   }"

subsection \<open>Opening a device\<close>

text \<open>
  The sequence up to the immediate mode, the same in \<open>nd_iface_open\<close> and \<open>nd_iface_rebind_all\<close>.  A device that cannot be set up is
  closed again.
\<close>

definition bpf_open :: "bpf_answers \<Rightarrow> string \<Rightarrow> bio_state \<Rightarrow> (ptr option \<times> bio_state) option" where
  "bpf_open a name r =
     (case bio_open (ba_io a) r of
        (None, r1) \<Rightarrow> Some (None, r1)
      | (Some io, r1) \<Rightarrow> do {
          r2 \<leftarrow> bio_update io (\<lambda>x. x\<lparr>bi_handler := Some Iface_io_handler\<rparr>) r1;
          if \<not> ba_sblen a then do { r3 \<leftarrow> bio_close (Some io) r2; Some (None, r3) }
          else do {
            require (length name < IF_NAMESIZE);
            if \<not> ba_setif a \<or> \<not> ba_promisc a \<or> \<not> ba_immediate a then do { r3 \<leftarrow> bio_close (Some io) r2; Some (None, r3) }
            else Some (Some io, r2)
          }
        })"

definition bpf_attach :: "ptr \<Rightarrow> ptr \<Rightarrow> 'a bsd_state_scheme \<Rightarrow> 'a bsd_state_scheme option" where
  "bpf_attach io p s = do {
     r \<leftarrow> bio_update io (\<lambda>x. x\<lparr>bi_data := Some p\<rparr>) (bs_reg s);
     Some (s\<lparr>bs_reg := r, bs_bpf := (bs_bpf s)(p \<mapsto> io)\<rparr>)
   }"

definition bsd_open_resolved ::
  "bpf_kernel \<Rightarrow> string \<Rightarrow> nat \<Rightarrow> bool \<Rightarrow> 'a bsd_state_scheme \<Rightarrow> (ptr option \<times> 'a bsd_state_scheme) option" where
  "bsd_open_resolved ba name index promiscuous s = do {
     found \<leftarrow> heap_find (h_iface s) (\<lambda>i. if_index i = index \<and> if_up i) (ndL_first_iface s);
     case found of
       Some p \<Rightarrow> do { s' \<leftarrow> iface_ref p s; Some (Some p, s') }
     | None \<Rightarrow> do {
         let a = bk_dev ba name (bio_fds (bs_reg s));
         (io, r) \<leftarrow> bpf_open a name (bs_reg s);
         case io of
           None \<Rightarrow> Some (None, s\<lparr>bs_reg := r\<rparr>)
         | Some io \<Rightarrow>
             (case bk_iflist ba name of
                None \<Rightarrow> do { r' \<leftarrow> bio_close (Some io) r; Some (None, s\<lparr>bs_reg := r'\<rparr>) }
              | Some reply \<Rightarrow>
                  if reply_too_short reply \<or> \<not> ba_filter a then do { r' \<leftarrow> bio_close (Some io) r; Some (None, s\<lparr>bs_reg := r'\<rparr>) }
                  else do {
                    lladdr \<leftarrow> reply_lladdr reply;
                    (new, s1) \<leftarrow> iface_new \<lparr>if_refcount = 1, if_name = name, if_lladdr = lladdr, if_index = index, if_up = True,
                                  if_admin_up = False, if_proxy = None, if_promiscuous = promiscuous\<rparr> (s\<lparr>bs_reg := r\<rparr>);
                    p \<leftarrow> new;
                    s2 \<leftarrow> bpf_attach io p s1;
                    Some (Some p, s2)
                  })
       }
   }"

definition bsd_iface_open ::
  "kernel \<Rightarrow> bpf_kernel \<Rightarrow> string option \<Rightarrow> nat \<Rightarrow> bool \<Rightarrow> 'a bsd_state_scheme \<Rightarrow> (ptr option \<times> 'a bsd_state_scheme) option" where
  "bsd_iface_open k ba name index promiscuous s =
     (case name of
        None \<Rightarrow>
          if index = 0 then Some (None, s)
          else (case if_indextoname k index of
                  None \<Rightarrow> Some (None, s)
                | Some nm \<Rightarrow> bsd_open_resolved ba nm index promiscuous s)
      | Some nm \<Rightarrow>
          (case if_nametoindex k nm of
             Inl _ \<Rightarrow> Some (None, s)
           | Inr resolved \<Rightarrow>
               if index \<noteq> 0 \<and> index \<noteq> resolved then Some (None, s)
               else bsd_open_resolved ba nm resolved promiscuous s))"

subsection \<open>Closing\<close>

definition bsd_iface_close :: "ptr \<Rightarrow> 'a bsd_state_scheme \<Rightarrow> 'a bsd_state_scheme option" where
  "bsd_iface_close p s = do {
     i \<leftarrow> h_iface s p;
     let rc = if_refcount i - 1;
     let s1 = s\<lparr>h_iface := (h_iface s)(p \<mapsto> i\<lparr>if_refcount := rc\<rparr>)\<rparr>;
     if rc > 0 then Some s1
     else do {
       r \<leftarrow> bio_close (bs_bpf s p) (bs_reg s);
       Some (s1\<lparr>bs_reg := r, ndL_first_iface := remove1 p (ndL_first_iface s1), h_iface := (h_iface s1)(p := None),
                bs_bpf := (bs_bpf s)(p := None)\<rparr>)
     }
   }"

subsection \<open>Rebinding\<close>

definition bpf_reopen :: "bpf_kernel \<Rightarrow> ptr \<Rightarrow> nd_iface \<Rightarrow> nat \<Rightarrow> nd_lladdr \<Rightarrow> 'a bsd_state_scheme \<Rightarrow> 'a bsd_state_scheme option" where
  "bpf_reopen ba p i cur new_lladdr s = do {
     r1 \<leftarrow> bio_close (bs_bpf s p) (bs_reg s);
     let s1 = s\<lparr>bs_reg := r1, bs_bpf := (bs_bpf s)(p := None)\<rparr>;
     let a = bk_dev ba (if_name i) (bio_fds r1);
     (io, r2) \<leftarrow> bpf_open a (if_name i) r1;
     case io of
       None \<Rightarrow> Some (s1\<lparr>bs_reg := r2\<rparr>)
     | Some io \<Rightarrow>
         if \<not> ba_filter a then do { r3 \<leftarrow> bio_close (Some io) r2; Some (s1\<lparr>bs_reg := r3\<rparr>) }
         else bpf_attach io p (s1\<lparr>bs_reg := r2, h_iface := (h_iface s1)(p \<mapsto> i\<lparr>if_index := cur, if_lladdr := new_lladdr\<rparr>)\<rparr>)
   }"

definition bsd_rebind_one :: "kernel \<Rightarrow> bpf_kernel \<Rightarrow> ptr \<Rightarrow> 'a bsd_state_scheme \<Rightarrow> 'a bsd_state_scheme option" where
  "bsd_rebind_one k ba p s = do {
     i \<leftarrow> h_iface s p;
     case if_nametoindex k (if_name i) of
       Inl _ \<Rightarrow> Some s
     | Inr cur \<Rightarrow>
         (case bk_iflist ba (if_name i) of
            None \<Rightarrow> Some s
          | Some reply \<Rightarrow>
              if reply_too_short reply then Some s
              else do {
                new_lladdr \<leftarrow> reply_lladdr reply;
                if if_lladdr i = new_lladdr \<and> cur = if_index i \<and> bs_bpf s p \<noteq> None then Some s
                else bpf_reopen ba p i cur new_lladdr s
              })
   }"

definition bsd_rebind_all :: "kernel \<Rightarrow> bpf_kernel \<Rightarrow> 'a bsd_state_scheme \<Rightarrow> 'a bsd_state_scheme option" where
  "bsd_rebind_all k ba s = foldM (bsd_rebind_one k ba) (ndL_first_iface s) s"

subsection \<open>Sending\<close>

text \<open>The end of \<open>ndL_send_icmp6\<close>; the frame is complete.\<close>

definition bsd_send :: "ptr \<Rightarrow> bytes \<Rightarrow> 'a bsd_state_scheme \<Rightarrow> 'a bsd_state_scheme option" where
  "bsd_send p frame s = do {
     i \<leftarrow> h_iface s p;
     if \<not> if_up i then Some s
     else do {
       io \<leftarrow> bs_bpf s p;
       x \<leftarrow> h_bio (bs_reg s) io;
       Some (emit (Packet (if_index i) frame) s)
     }
   }"

subsection \<open>Invariant\<close>

text \<open>
  An interface and its device point to each other, and every device with the handler of frames belongs to an interface.  \<open>base\<close> are the
  descriptors of others.
\<close>

definition bpf_linked :: "bio_state \<Rightarrow> (ptr \<rightharpoonup> ptr) \<Rightarrow> bool" where
  "bpf_linked r m \<longleftrightarrow>
     (\<forall>p io. m p = Some io \<longrightarrow> (\<exists>x. h_bio r io = Some x \<and> bi_data x = Some p \<and> bi_handler x = Some Iface_io_handler)) \<and>
     (\<forall>io x. h_bio r io = Some x \<and> bi_handler x = Some Iface_io_handler \<longrightarrow> (\<exists>p. bi_data x = Some p \<and> m p = Some io))"

definition bsd_inv :: "int set \<Rightarrow> 'a bsd_state_scheme \<Rightarrow> bool" where
  "bsd_inv base s \<longleftrightarrow>
     bio_inv base (bs_reg s) \<and> bpf_linked (bs_reg s) (bs_bpf s) \<and> dom (bs_bpf s) \<subseteq> dom (h_iface s) \<and>
     distinct (ndL_first_iface s) \<and> set (ndL_first_iface s) = dom (h_iface s) \<and>
     (\<forall>p i. h_iface s p = Some i \<longrightarrow> p < heap_next s \<and> length (if_name i) < IF_NAMESIZE)"

lemma bsd_invD:
  assumes "bsd_inv base s"
  shows "bio_inv base (bs_reg s)" "bpf_linked (bs_reg s) (bs_bpf s)" "dom (bs_bpf s) \<subseteq> dom (h_iface s)" "distinct (ndL_first_iface s)"
    "set (ndL_first_iface s) = dom (h_iface s)" "h_iface s p = Some i \<Longrightarrow> p < heap_next s" "h_iface s p = Some i \<Longrightarrow> length (if_name i) < IF_NAMESIZE"
  using assms unfolding bsd_inv_def by blast+

text \<open>What the system promises: new descriptors are the lowest free ones, and a reply that is long enough has the address.\<close>

definition bpf_kernel_ok :: "bpf_kernel \<Rightarrow> bool" where
  "bpf_kernel_ok ba \<longleftrightarrow>
     (\<forall>name fds. k_socket (ba_io (bk_dev ba name fds)) = -1 \<or> lowest_free (k_socket (ba_io (bk_dev ba name fds))) fds) \<and>
     (\<forall>name reply. bk_iflist ba name = Some reply \<longrightarrow> reply_too_short reply \<or> reply_lladdr reply \<noteq> None)"

definition bpf_usable :: "bpf_answers \<Rightarrow> bool" where
  "bpf_usable a \<longleftrightarrow> k_socket (ba_io a) \<noteq> -1 \<and> k_getfl (ba_io a) \<and> k_setfl (ba_io a) \<and> ba_sblen a \<and> ba_setif a \<and> ba_promisc a \<and> ba_immediate a"

lemma bpf_linkedD:
  assumes "bpf_linked r m"
  shows "m p = Some io \<Longrightarrow> \<exists>x. h_bio r io = Some x \<and> bi_data x = Some p \<and> bi_handler x = Some Iface_io_handler"
    "h_bio r io = Some x \<Longrightarrow> bi_handler x = Some Iface_io_handler \<Longrightarrow> \<exists>p. bi_data x = Some p \<and> m p = Some io"
  using assms unfolding bpf_linked_def by blast+

lemma bpf_linkedI:
  assumes "\<And>p io. m p = Some io \<Longrightarrow> \<exists>x. h_bio r io = Some x \<and> bi_data x = Some p \<and> bi_handler x = Some Iface_io_handler"
    "\<And>io x. h_bio r io = Some x \<Longrightarrow> bi_handler x = Some Iface_io_handler \<Longrightarrow> \<exists>p. bi_data x = Some p \<and> m p = Some io"
  shows "bpf_linked r m"
  using assms unfolding bpf_linked_def by blast

lemma bpf_linked_same: "bpf_linked r m \<Longrightarrow> h_bio r' = h_bio r \<Longrightarrow> bpf_linked r' m"
  by (simp add: bpf_linked_def)

lemma bpf_linked_attach:
  assumes "bpf_linked r m" "h_bio r io = None" "m p = None" "bi_handler x = Some Iface_io_handler" "bi_data x = Some p"
    "h_bio r' = (h_bio r)(io \<mapsto> x)"
  shows "bpf_linked r' (m(p \<mapsto> io))"
proof (rule bpf_linkedI)
  fix q jo assume q: "(m(p \<mapsto> io)) q = Some jo"
  show "\<exists>x. h_bio r' jo = Some x \<and> bi_data x = Some q \<and> bi_handler x = Some Iface_io_handler"
  proof (cases "q = p")
    case True
    then show ?thesis using q assms(4-6) by simp
  next
    case False
    then show ?thesis using q bpf_linkedD(1) [OF assms(1), of q jo] assms(2,6) by (cases "jo = io") auto
  qed
next
  fix jo y assume y: "h_bio r' jo = Some y" "bi_handler y = Some Iface_io_handler"
  show "\<exists>q. bi_data y = Some q \<and> (m(p \<mapsto> io)) q = Some jo"
  proof (cases "jo = io")
    case True
    then show ?thesis using y(1) assms(5,6) by simp
  next
    case False
    then obtain q where "bi_data y = Some q" "m q = Some jo" using y bpf_linkedD(2) [OF assms(1), of jo y] assms(6) by auto
    then show ?thesis using assms(3) by (cases "q = p") auto
  qed
qed

lemma bpf_linked_detach:
  assumes "bpf_linked r m" "m p = Some io" "h_bio r' = (h_bio r)(io := None)"
  shows "bpf_linked r' (m(p := None))"
proof (rule bpf_linkedI)
  obtain x where x: "h_bio r io = Some x" "bi_data x = Some p" using bpf_linkedD(1) [OF assms(1,2)] by blast
  fix q jo assume q: "(m(p := None)) q = Some jo"
  then have mq: "q \<noteq> p" "m q = Some jo" by (auto split: if_splits)
  then obtain y where y: "h_bio r jo = Some y" "bi_data y = Some q" "bi_handler y = Some Iface_io_handler" using bpf_linkedD(1) [OF assms(1)] by blast
  then have "jo \<noteq> io" using x mq(1) by auto
  then show "\<exists>x. h_bio r' jo = Some x \<and> bi_data x = Some q \<and> bi_handler x = Some Iface_io_handler" using y assms(3) by simp
next
  fix jo y assume y: "h_bio r' jo = Some y" "bi_handler y = Some Iface_io_handler"
  then have "jo \<noteq> io" "h_bio r jo = Some y" using assms(3) by (auto split: if_splits)
  then obtain q where "bi_data y = Some q" "m q = Some jo" using bpf_linkedD(2) [OF assms(1)] y(2) by blast
  then show "\<exists>q. bi_data y = Some q \<and> (m(p := None)) q = Some jo" using assms(2) \<open>jo \<noteq> io\<close> by (cases "q = p") auto
qed

lemma bpf_close_ok:
  assumes "bio_inv base r" "bpf_linked r m"
  shows "\<exists>r'. bio_close (m p) r = Some r' \<and> bio_inv base r' \<and> bpf_linked r' (m(p := None))"
proof (cases "m p")
  case None
  then have "m(p := None) = m" by (simp add: fun_upd_idem)
  then show ?thesis using None assms by (simp add: bio_close_def)
next
  case (Some io)
  then obtain x where "h_bio r io = Some x" using bpf_linkedD(1) [OF assms(2)] by blast
  from bio_close_ok [OF assms(1) this] bpf_linked_detach [OF assms(2) Some] show ?thesis using Some by metis
qed

lemma bpf_open_ok:
  assumes "bio_inv base r" "k_socket (ba_io a) = -1 \<or> lowest_free (k_socket (ba_io a)) (bio_fds r)" "length name < IF_NAMESIZE"
  shows "\<exists>io r'. bpf_open a name r = Some (io, r') \<and> bio_inv base r' \<and>
    (if bpf_usable a then \<exists>p x. io = Some p \<and> h_bio r p = None \<and> h_bio r' = (h_bio r)(p \<mapsto> x) \<and> bi_handler x = Some Iface_io_handler
     else io = None \<and> h_bio r' = h_bio r)"
proof -
  obtain q r1 where q: "bio_open (ba_io a) r = (q, r1)" "bio_inv base r1" "case q of None \<Rightarrow> h_bio r1 = h_bio r
     | Some p \<Rightarrow> h_bio r p = None \<and> h_bio r1 = (h_bio r)(p \<mapsto> \<lparr>bi_fd = k_socket (ba_io a), bi_data = None, bi_handler = None\<rparr>)"
    using bio_open_ok [OF assms(1), of "ba_io a"] assms(2) by blast
  have opened: "q \<noteq> None \<longleftrightarrow> k_socket (ba_io a) \<noteq> -1 \<and> k_getfl (ba_io a) \<and> k_setfl (ba_io a)"
    using q(1) by (auto simp: bio_open_def bio_create_def Let_def split: if_splits)
  show ?thesis
  proof (cases q)
    case None
    then show ?thesis using q opened by (auto simp: bpf_open_def bpf_usable_def)
  next
    case (Some p)
    let ?x = "\<lparr>bi_fd = k_socket (ba_io a), bi_data = None, bi_handler = None\<rparr>"
    let ?y = "?x\<lparr>bi_handler := Some Iface_io_handler\<rparr>"
    have x: "h_bio r1 p = Some ?x" "h_bio r p = None" "h_bio r1 = (h_bio r)(p \<mapsto> ?x)" using q(3) Some by simp_all
    obtain r2 where r2: "bio_update p (\<lambda>x. x\<lparr>bi_handler := Some Iface_io_handler\<rparr>) r1 = Some r2" "bio_inv base r2" "h_bio r2 = (h_bio r)(p \<mapsto> ?y)"
      using bio_update_ok [OF q(2) x(1), of "\<lambda>x. x\<lparr>bi_handler := Some Iface_io_handler\<rparr>"] x(3) by auto
    obtain r3 where r3: "bio_close (Some p) r2 = Some r3" "bio_inv base r3" "h_bio r3 = (h_bio r)(p := None)"
      using bio_close_ok [OF r2(2), of p ?y] r2(3) by auto
    have "(h_bio r)(p := None) = h_bio r" using x(2) by (simp add: fun_upd_idem)
    then show ?thesis using Some q(1) opened r2 r3 x(2) assms(3) by (auto simp: bpf_open_def bpf_usable_def)
  qed
qed

lemma bpf_attach_ok:
  assumes "bio_inv base (bs_reg s)" "bpf_linked r (bs_bpf s)" "h_bio r io = None" "h_bio (bs_reg s) = (h_bio r)(io \<mapsto> x)"
    "bi_handler x = Some Iface_io_handler" "bs_bpf s p = None"
  shows "\<exists>r'. bpf_attach io p s = Some (s\<lparr>bs_reg := r', bs_bpf := (bs_bpf s)(p \<mapsto> io)\<rparr>) \<and> bio_inv base r' \<and>
    bpf_linked r' ((bs_bpf s)(p \<mapsto> io))"
proof -
  have x: "h_bio (bs_reg s) io = Some x" using assms(4) by simp
  obtain r' where r': "bio_update io (\<lambda>x. x\<lparr>bi_data := Some p\<rparr>) (bs_reg s) = Some r'" "bio_inv base r'"
    "h_bio r' = (h_bio r)(io \<mapsto> x\<lparr>bi_data := Some p\<rparr>)"
    using bio_update_ok [OF assms(1) x, of "\<lambda>x. x\<lparr>bi_data := Some p\<rparr>"] assms(4) by auto
  have "bpf_linked r' ((bs_bpf s)(p \<mapsto> io))"
    by (rule bpf_linked_attach [OF assms(2,3,6) _ _ r'(3)]) (use assms(5) in simp_all)
  then show ?thesis using r' by (intro exI [of _ r']) (simp add: bpf_attach_def)
qed

lemma bpf_abandon_ok:
  assumes "bio_inv base r'" "bpf_linked r m" "h_bio r io = None" "h_bio r' = (h_bio r)(io \<mapsto> x)"
  shows "\<exists>r''. bio_close (Some io) r' = Some r'' \<and> bio_inv base r'' \<and> bpf_linked r'' m"
proof -
  have x: "h_bio r' io = Some x" using assms(4) by simp
  obtain r'' where r'': "bio_close (Some io) r' = Some r''" "bio_inv base r''" "h_bio r'' = (h_bio r')(io := None)"
    using bio_close_ok [OF assms(1) x] by blast
  have "h_bio r'' = h_bio r" using r''(3) assms(3,4) by (simp add: fun_upd_idem)
  then show ?thesis using r'' bpf_linked_same [OF assms(2)] by blast
qed

lemma bsd_inv_reg:
  assumes "bsd_inv base s" "bio_inv base r" "bpf_linked r m" "dom m \<subseteq> dom (h_iface s)"
  shows "bsd_inv base (s\<lparr>bs_reg := r, bs_bpf := m\<rparr>)"
  using assms unfolding bsd_inv_def by simp

lemma bsd_inv_reg_only: "bsd_inv base s \<Longrightarrow> bio_inv base r \<Longrightarrow> bpf_linked r (bs_bpf s) \<Longrightarrow> bsd_inv base (s\<lparr>bs_reg := r\<rparr>)"
  unfolding bsd_inv_def by simp

lemma bsd_inv_iface:
  assumes "bsd_inv base s" "h_iface s p = Some i" "if_name j = if_name i"
  shows "bsd_inv base (s\<lparr>h_iface := (h_iface s)(p \<mapsto> j)\<rparr>)"
proof -
  note d = bsd_invD [OF assms(1)]
  have "length (if_name j) < IF_NAMESIZE" "p < heap_next s" using d(6,7) [OF assms(2)] assms(3) by simp_all
  then have "\<forall>q i. ((h_iface s)(p \<mapsto> j)) q = Some i \<longrightarrow> q < heap_next s \<and> length (if_name i) < IF_NAMESIZE" using d(6,7) by auto
  moreover have "dom ((h_iface s)(p \<mapsto> j)) = dom (h_iface s)" using assms(2) by auto
  ultimately show ?thesis using d(1-5) unfolding bsd_inv_def by simp
qed

lemma bsd_inv_new:
  assumes "bsd_inv base s" "length (if_name i) < IF_NAMESIZE"
  shows "bsd_inv base (s\<lparr>h_iface := (h_iface s)(heap_next s \<mapsto> i), ndL_first_iface := heap_next s # ndL_first_iface s, heap_next := Suc (heap_next s)\<rparr>)"
    "h_iface s (heap_next s) = None" "bs_bpf s (heap_next s) = None"
proof -
  note d = bsd_invD [OF assms(1)]
  show n: "h_iface s (heap_next s) = None" using d(6) [of "heap_next s"] by (cases "h_iface s (heap_next s)") auto
  then show "bs_bpf s (heap_next s) = None" using d(3) by auto
  have "\<forall>q j. ((h_iface s)(heap_next s \<mapsto> i)) q = Some j \<longrightarrow> q < Suc (heap_next s) \<and> length (if_name j) < IF_NAMESIZE"
    using d(6,7) assms(2) by (auto simp: less_Suc_eq)
  moreover have "heap_next s \<notin> set (ndL_first_iface s)" using n d(5) by auto
  ultimately show "bsd_inv base (s\<lparr>h_iface := (h_iface s)(heap_next s \<mapsto> i), ndL_first_iface := heap_next s # ndL_first_iface s, heap_next := Suc (heap_next s)\<rparr>)"
    using d(1-5) unfolding bsd_inv_def by auto
qed

subsection \<open>The operations keep it\<close>

lemma bpf_kernel_okD:
  assumes "bpf_kernel_ok ba"
  shows "k_socket (ba_io (bk_dev ba name fds)) = -1 \<or> lowest_free (k_socket (ba_io (bk_dev ba name fds))) fds"
    "bk_iflist ba name = Some reply \<Longrightarrow> \<not> reply_too_short reply \<Longrightarrow> \<exists>ll. reply_lladdr reply = Some ll"
  using assms unfolding bpf_kernel_ok_def by blast+

lemma iface_ref_bsd:
  assumes "bsd_inv base s" "p \<in> dom (h_iface s)"
  shows "\<exists>s'. iface_ref p s = Some s' \<and> bsd_inv base s' \<and> p \<in> dom (h_iface s')"
proof -
  obtain i where i: "h_iface s p = Some i" using assms(2) by blast
  have "bsd_inv base (s\<lparr>h_iface := (h_iface s)(p \<mapsto> i\<lparr>if_refcount := if_refcount i + 1\<rparr>)\<rparr>)" by (rule bsd_inv_iface [OF assms(1) i]) simp
  then show ?thesis using i by (simp add: iface_ref_def)
qed

lemma bsd_open_new_ok:
  assumes inv: "bsd_inv base s" and ba: "bpf_kernel_ok ba" and name: "length name < IF_NAMESIZE"
    and none: "heap_find (h_iface s) (\<lambda>i. if_index i = index \<and> if_up i) (ndL_first_iface s) = Some None"
  shows "\<exists>r s'. bsd_open_resolved ba name index promiscuous s = Some (r, s') \<and> bsd_inv base s' \<and> set_option r \<subseteq> dom (h_iface s')"
proof -
  note d = bsd_invD [OF inv]
  define a where "a = bk_dev ba name (bio_fds (bs_reg s))"
  obtain io r where o: "bpf_open a name (bs_reg s) = Some (io, r)" "bio_inv base r"
    "if bpf_usable a then \<exists>p x. io = Some p \<and> h_bio (bs_reg s) p = None \<and> h_bio r = (h_bio (bs_reg s))(p \<mapsto> x) \<and> bi_handler x = Some Iface_io_handler
     else io = None \<and> h_bio r = h_bio (bs_reg s)"
    using bpf_open_ok [OF d(1), of a name] bpf_kernel_okD(1) [OF ba] name by (auto simp: a_def)
  note unfold = bsd_open_resolved_def none Let_def a_def [symmetric] o(1)
  show ?thesis
  proof (cases "bpf_usable a")
    case False
    then have "io = None" "bsd_inv base (s\<lparr>bs_reg := r\<rparr>)" using o(3) bsd_inv_reg_only [OF inv o(2)] bpf_linked_same [OF d(2)] by auto
    then show ?thesis by (simp add: unfold)
  next
    case True
    then obtain p x where p: "io = Some p" "h_bio (bs_reg s) p = None" "h_bio r = (h_bio (bs_reg s))(p \<mapsto> x)" "bi_handler x = Some Iface_io_handler"
      using o(3) by auto
    obtain r' where r': "bio_close (Some p) r = Some r'" "bsd_inv base (s\<lparr>bs_reg := r'\<rparr>)"
      using bpf_abandon_ok [OF o(2) d(2) p(2,3)] bsd_inv_reg_only [OF inv] by blast
    show ?thesis
    proof (cases "\<exists>reply. bk_iflist ba name = Some reply \<and> \<not> reply_too_short reply \<and> ba_filter a")
      case False
      then show ?thesis using p(1) r' by (cases "bk_iflist ba name") (auto simp: unfold)
    next
      case True
      then obtain reply where b: "bk_iflist ba name = Some reply" "\<not> reply_too_short reply" "ba_filter a" by blast
      obtain ll where ll: "reply_lladdr reply = Some ll" using bpf_kernel_okD(2) [OF ba b(1,2)] by blast
      let ?i = "\<lparr>if_refcount = 1, if_name = name, if_lladdr = ll, if_index = index, if_up = True, if_admin_up = False, if_proxy = None,
        if_promiscuous = promiscuous\<rparr>"
      let ?q = "heap_next s"
      let ?s1 = "s\<lparr>h_iface := (h_iface s)(?q \<mapsto> ?i), ndL_first_iface := ?q # ndL_first_iface s, heap_next := Suc ?q\<rparr>"
      have n: "bsd_inv base ?s1" "bs_bpf s ?q = None" using bsd_inv_new [OF inv, of ?i] name by simp_all
      have new: "iface_new ?i (s\<lparr>bs_reg := r\<rparr>) = Some (Some ?q, ?s1\<lparr>bs_reg := r\<rparr>)" using name by (simp add: iface_new_def Let_def)
      obtain r2 where r2: "bpf_attach p ?q (?s1\<lparr>bs_reg := r\<rparr>) = Some (?s1\<lparr>bs_reg := r2, bs_bpf := (bs_bpf s)(?q \<mapsto> p)\<rparr>)"
        "bio_inv base r2" "bpf_linked r2 ((bs_bpf s)(?q \<mapsto> p))"
        using bpf_attach_ok [of base "?s1\<lparr>bs_reg := r\<rparr>" "bs_reg s" p x ?q] o(2) d(2) p n(2) by auto
      have "bsd_inv base (?s1\<lparr>bs_reg := r2, bs_bpf := (bs_bpf s)(?q \<mapsto> p)\<rparr>)"
        by (rule bsd_inv_reg [OF n(1) r2(2,3)]) (use d(3) in auto)
      then show ?thesis using p(1) b ll r2(1) new by (simp add: unfold)
    qed
  qed
qed

lemma bsd_iface_open_ok:
  assumes inv: "bsd_inv base s" and ba: "bpf_kernel_ok ba" and k: "kernel_ok k" and name: "\<And>nm. name = Some nm \<Longrightarrow> length nm < IF_NAMESIZE"
  shows "\<exists>r s'. bsd_iface_open k ba name index promiscuous s = Some (r, s') \<and> bsd_inv base s' \<and> set_option r \<subseteq> dom (h_iface s')"
proof -
  have res: "\<exists>r s'. bsd_open_resolved ba nm n promiscuous s = Some (r, s') \<and> bsd_inv base s' \<and> set_option r \<subseteq> dom (h_iface s')"
    if nm: "length nm < IF_NAMESIZE" for nm n
  proof -
    obtain f where f: "heap_find (h_iface s) (\<lambda>i. if_index i = n \<and> if_up i) (ndL_first_iface s) = Some f"
      using heap_find_total [of "ndL_first_iface s" "h_iface s" "\<lambda>i. if_index i = n \<and> if_up i"] bsd_invD(5) [OF inv] by auto
    show ?thesis
    proof (cases f)
      case None
      then show ?thesis using bsd_open_new_ok [OF inv ba nm] f by simp
    next
      case (Some p)
      then have "p \<in> dom (h_iface s)" using heap_find_SomeD f by fastforce
      from iface_ref_bsd [OF inv this] show ?thesis using Some f by (auto simp: bsd_open_resolved_def)
    qed
  qed
  show ?thesis
  proof (cases name)
    case None
    then show ?thesis using inv k res by (auto simp: bsd_iface_open_def kernel_ok_def split: option.splits)
  next
    case (Some nm)
    then show ?thesis using inv res [OF name [OF Some]] by (auto simp: bsd_iface_open_def split: sum.splits)
  qed
qed

lemma bsd_iface_close_ok:
  assumes inv: "bsd_inv base s" and i: "h_iface s p = Some i"
  shows "\<exists>s'. bsd_iface_close p s = Some s' \<and> bsd_inv base s' \<and> (if_refcount i \<le> 1 \<longrightarrow> h_iface s' = (h_iface s)(p := None))"
proof (cases "if_refcount i - 1 > 0")
  case True
  have "bsd_inv base (s\<lparr>h_iface := (h_iface s)(p \<mapsto> i\<lparr>if_refcount := if_refcount i - 1\<rparr>)\<rparr>)" by (rule bsd_inv_iface [OF inv i]) simp
  then show ?thesis using True i by (simp add: bsd_iface_close_def)
next
  case False
  note d = bsd_invD [OF inv]
  obtain r where r: "bio_close (bs_bpf s p) (bs_reg s) = Some r" "bio_inv base r" "bpf_linked r ((bs_bpf s)(p := None))"
    using bpf_close_ok [OF d(1,2)] by blast
  let ?s = "s\<lparr>bs_reg := r, ndL_first_iface := remove1 p (ndL_first_iface s), h_iface := (h_iface s)(p := None), bs_bpf := (bs_bpf s)(p := None)\<rparr>"
  have "bsd_inv base ?s" using d r(2,3) unfolding bsd_inv_def by auto
  then show ?thesis using False i r(1) by (simp add: bsd_iface_close_def Let_def)
qed

subsection \<open>Rebinding\<close>

text \<open>What the system says about an interface now: its index and its link-layer address.\<close>

definition current :: "kernel \<Rightarrow> bpf_kernel \<Rightarrow> string \<Rightarrow> (nat \<times> nd_lladdr) option" where
  "current k ba name =
     (case if_nametoindex k name of
        Inl _ \<Rightarrow> None
      | Inr cur \<Rightarrow>
          (case bk_iflist ba name of
             None \<Rightarrow> None
           | Some reply \<Rightarrow> if reply_too_short reply then None else map_option (Pair cur) (reply_lladdr reply)))"

definition serves :: "bpf_answers \<Rightarrow> bool" where
  "serves a \<longleftrightarrow> bpf_usable a \<and> ba_filter a"

text \<open>What a pass makes of one interface and its device, with the descriptors \<open>fds\<close> open when the device is set up.\<close>

definition rebound :: "kernel \<Rightarrow> bpf_kernel \<Rightarrow> nd_iface \<Rightarrow> ptr option \<Rightarrow> nd_iface \<Rightarrow> ptr option \<Rightarrow> bool" where
  "rebound k ba i io j io' \<longleftrightarrow>
     (\<exists>fds. case current k ba (if_name i) of
        None \<Rightarrow> j = i \<and> io' = io
      | Some (cur, ll) \<Rightarrow>
          if if_lladdr i = ll \<and> cur = if_index i \<and> io \<noteq> None then j = i \<and> io' = io
          else if serves (bk_dev ba (if_name i) fds) then j = i\<lparr>if_index := cur, if_lladdr := ll\<rparr> \<and> io' \<noteq> None
          else j = i \<and> io' = None)"

lemma bpf_reopen_ok:
  assumes inv: "bsd_inv base s" and ba: "bpf_kernel_ok ba" and i: "h_iface s p = Some i"
  shows "\<exists>s' fds j. bpf_reopen ba p i cur ll s = Some s' \<and> bsd_inv base s' \<and> h_iface s' = (h_iface s)(p \<mapsto> j) \<and>
    (if serves (bk_dev ba (if_name i) fds) then j = i\<lparr>if_index := cur, if_lladdr := ll\<rparr> \<and> bs_bpf s' p \<noteq> None else j = i \<and> bs_bpf s' p = None) \<and>
    (\<forall>q. q \<noteq> p \<longrightarrow> bs_bpf s' q = bs_bpf s q) \<and> ndL_first_iface s' = ndL_first_iface s"
proof -
  note d = bsd_invD [OF inv]
  let ?m = "(bs_bpf s)(p := None)"
  obtain r1 where r1: "bio_close (bs_bpf s p) (bs_reg s) = Some r1" "bio_inv base r1" "bpf_linked r1 ?m"
    using bpf_close_ok [OF d(1,2)] by blast
  define a where "a = bk_dev ba (if_name i) (bio_fds r1)"
  obtain io r2 where o: "bpf_open a (if_name i) r1 = Some (io, r2)" "bio_inv base r2"
    "if bpf_usable a then \<exists>p x. io = Some p \<and> h_bio r1 p = None \<and> h_bio r2 = (h_bio r1)(p \<mapsto> x) \<and> bi_handler x = Some Iface_io_handler
     else io = None \<and> h_bio r2 = h_bio r1"
    using bpf_open_ok [OF r1(2), of a "if_name i"] bpf_kernel_okD(1) [OF ba] d(7) [OF i] by (auto simp: a_def)
  note unfold = bpf_reopen_def Let_def r1(1) a_def [symmetric] o(1)
  have dm: "dom ?m \<subseteq> dom (h_iface s)" using d(3) by auto
  have closed: "\<exists>r3. bpf_reopen ba p i cur ll s = Some (s\<lparr>bs_reg := r3, bs_bpf := ?m\<rparr>) \<and> bsd_inv base (s\<lparr>bs_reg := r3, bs_bpf := ?m\<rparr>)"
    if "\<not> serves a"
  proof (cases "bpf_usable a")
    case False
    then show ?thesis using o(3) bsd_inv_reg [OF inv o(2) bpf_linked_same [OF r1(3)] dm] by (intro exI [of _ r2]) (simp add: unfold)
  next
    case True
    then obtain q x where q: "io = Some q" "h_bio r1 q = None" "h_bio r2 = (h_bio r1)(q \<mapsto> x)" using o(3) by auto
    from bpf_abandon_ok [OF o(2) r1(3) q(2,3)] obtain r3 where "bio_close (Some q) r2 = Some r3" "bio_inv base r3" "bpf_linked r3 ?m" by blast
    then show ?thesis using that True q(1) bsd_inv_reg [OF inv _ _ dm] by (intro exI [of _ r3]) (auto simp: unfold serves_def)
  qed
  let ?j = "i\<lparr>if_index := cur, if_lladdr := ll\<rparr>"
  have opened: "\<exists>r3 q. bpf_reopen ba p i cur ll s = Some (s\<lparr>h_iface := (h_iface s)(p \<mapsto> ?j), bs_reg := r3, bs_bpf := ?m(p \<mapsto> q)\<rparr>) \<and>
    bsd_inv base (s\<lparr>h_iface := (h_iface s)(p \<mapsto> ?j), bs_reg := r3, bs_bpf := ?m(p \<mapsto> q)\<rparr>)" if sv: "serves a"
  proof -
    let ?s = "s\<lparr>h_iface := (h_iface s)(p \<mapsto> ?j), bs_reg := r2, bs_bpf := ?m\<rparr>"
    obtain q x where q: "io = Some q" "h_bio r1 q = None" "h_bio r2 = (h_bio r1)(q \<mapsto> x)" "bi_handler x = Some Iface_io_handler"
      using o(3) sv by (auto simp: serves_def)
    obtain r3 where r3: "bpf_attach q p ?s = Some (?s\<lparr>bs_reg := r3, bs_bpf := ?m(p \<mapsto> q)\<rparr>)" "bio_inv base r3" "bpf_linked r3 (?m(p \<mapsto> q))"
      using bpf_attach_ok [of base ?s r1 q x p] o(2) r1(3) q by auto
    have inv': "bsd_inv base (s\<lparr>h_iface := (h_iface s)(p \<mapsto> ?j)\<rparr>)" by (rule bsd_inv_iface [OF inv i]) simp
    have "dom (?m(p \<mapsto> q)) \<subseteq> dom (h_iface (s\<lparr>h_iface := (h_iface s)(p \<mapsto> ?j)\<rparr>))" using dm by auto
    from bsd_inv_reg [OF inv' r3(2,3) this] have "bsd_inv base (?s\<lparr>bs_reg := r3, bs_bpf := ?m(p \<mapsto> q)\<rparr>)" by simp
    moreover have eq: "s\<lparr>bs_bpf := ?m, bs_reg := r2, h_iface := (h_iface s)(p \<mapsto> ?j)\<rparr> = ?s" by simp
    have "bpf_attach q p (s\<lparr>bs_bpf := ?m, bs_reg := r2, h_iface := (h_iface s)(p \<mapsto> ?j)\<rparr>) = Some (?s\<lparr>bs_reg := r3, bs_bpf := ?m(p \<mapsto> q)\<rparr>)"
      unfolding eq by (rule r3(1))
    ultimately show ?thesis using q(1) sv by (intro exI [of _ r3] exI [of _ q]) (simp add: unfold serves_def)
  qed
  show ?thesis
  proof (cases "serves a")
    case True
    from opened [OF True] obtain r3 q where r3: "bpf_reopen ba p i cur ll s = Some (s\<lparr>h_iface := (h_iface s)(p \<mapsto> ?j), bs_reg := r3, bs_bpf := ?m(p \<mapsto> q)\<rparr>)"
      "bsd_inv base (s\<lparr>h_iface := (h_iface s)(p \<mapsto> ?j), bs_reg := r3, bs_bpf := ?m(p \<mapsto> q)\<rparr>)" by blast
    show ?thesis by (rule exI, rule exI [of _ "bio_fds r1"], rule exI [of _ ?j], rule conjI [OF r3(1)], rule conjI [OF r3(2)])
      (use True in \<open>simp add: a_def\<close>)
  next
    case False
    from closed [OF False] obtain r3 where r3: "bpf_reopen ba p i cur ll s = Some (s\<lparr>bs_reg := r3, bs_bpf := ?m\<rparr>)"
      "bsd_inv base (s\<lparr>bs_reg := r3, bs_bpf := ?m\<rparr>)" by blast
    show ?thesis by (rule exI, rule exI [of _ "bio_fds r1"], rule exI [of _ i], rule conjI [OF r3(1)], rule conjI [OF r3(2)])
      (use False i in \<open>simp add: a_def fun_upd_idem\<close>)
  qed
qed

lemma bsd_rebind_one_ok:
  assumes inv: "bsd_inv base s" and ba: "bpf_kernel_ok ba" and i: "h_iface s p = Some i"
  shows "\<exists>s' j. bsd_rebind_one k ba p s = Some s' \<and> bsd_inv base s' \<and> rebound k ba i (bs_bpf s p) j (bs_bpf s' p) \<and>
    h_iface s' = (h_iface s)(p \<mapsto> j) \<and> (\<forall>q. q \<noteq> p \<longrightarrow> bs_bpf s' q = bs_bpf s q) \<and> ndL_first_iface s' = ndL_first_iface s"
proof -
  have same: "(h_iface s)(p \<mapsto> i) = h_iface s" using i by (simp add: fun_upd_idem)
  show ?thesis
  proof (cases "current k ba (if_name i)")
    case None
    then have "bsd_rebind_one k ba p s = Some s"
      using i bpf_kernel_okD(2) [OF ba, of "if_name i"]
      by (auto simp: bsd_rebind_one_def current_def split: sum.splits option.splits if_splits)
    then show ?thesis using inv None same by (intro exI [of _ s] exI [of _ i]) (simp add: rebound_def)
  next
    case (Some c)
    obtain cur ll where c: "c = (cur, ll)" by (cases c)
    obtain reply where r: "if_nametoindex k (if_name i) = Inr cur" "bk_iflist ba (if_name i) = Some reply" "\<not> reply_too_short reply"
      "reply_lladdr reply = Some ll"
      using Some c by (auto simp: current_def split: sum.splits option.splits if_splits)
    show ?thesis
    proof (cases "if_lladdr i = ll \<and> cur = if_index i \<and> bs_bpf s p \<noteq> None")
      case True
      then have "bsd_rebind_one k ba p s = Some s" using i r by (auto simp: bsd_rebind_one_def)
      then show ?thesis using inv Some c True same by (intro exI [of _ s] exI [of _ i]) (simp add: rebound_def)
    next
      case False
      then have "bsd_rebind_one k ba p s = bpf_reopen ba p i cur ll s" using i r by (auto simp: bsd_rebind_one_def)
      moreover obtain s' fds j where "bpf_reopen ba p i cur ll s = Some s'" "bsd_inv base s'" "h_iface s' = (h_iface s)(p \<mapsto> j)"
        "if serves (bk_dev ba (if_name i) fds) then j = i\<lparr>if_index := cur, if_lladdr := ll\<rparr> \<and> bs_bpf s' p \<noteq> None else j = i \<and> bs_bpf s' p = None"
        "\<forall>q. q \<noteq> p \<longrightarrow> bs_bpf s' q = bs_bpf s q" "ndL_first_iface s' = ndL_first_iface s"
        using bpf_reopen_ok [OF inv ba i, of cur ll] by blast
      moreover from this(4) have "rebound k ba i (bs_bpf s p) j (bs_bpf s' p)" using Some c False unfolding rebound_def by (intro exI [of _ fds]) simp
      ultimately show ?thesis by (intro exI [of _ s'] exI [of _ j]) simp
    qed
  qed
qed

lemma bsd_rebind_list_ok:
  assumes "bpf_kernel_ok ba" "bsd_inv base s" "distinct ps" "set ps \<subseteq> dom (h_iface s)"
  shows "\<exists>s'. foldM (bsd_rebind_one k ba) ps s = Some s' \<and> bsd_inv base s' \<and> ndL_first_iface s' = ndL_first_iface s \<and>
    (\<forall>p. p \<notin> set ps \<longrightarrow> h_iface s' p = h_iface s p \<and> bs_bpf s' p = bs_bpf s p) \<and>
    (\<forall>p i. p \<in> set ps \<and> h_iface s p = Some i \<longrightarrow> (\<exists>j. h_iface s' p = Some j \<and> rebound k ba i (bs_bpf s p) j (bs_bpf s' p)))"
  using assms(2-4)
proof (induction ps arbitrary: s)
  case (Cons p ps)
  then obtain i where i: "h_iface s p = Some i" by auto
  obtain s1 j where s1: "bsd_rebind_one k ba p s = Some s1" "bsd_inv base s1" "rebound k ba i (bs_bpf s p) j (bs_bpf s1 p)"
    "h_iface s1 = (h_iface s)(p \<mapsto> j)" "\<forall>q. q \<noteq> p \<longrightarrow> bs_bpf s1 q = bs_bpf s q" "ndL_first_iface s1 = ndL_first_iface s"
    using bsd_rebind_one_ok [OF Cons.prems(1) assms(1) i, of k] by (elim exE conjE)
  have "distinct ps" "set ps \<subseteq> dom (h_iface s1)" using Cons.prems(2,3) s1(4) by auto
  from Cons.IH [OF s1(2) this] obtain s' where s': "foldM (bsd_rebind_one k ba) ps s1 = Some s'" "bsd_inv base s'" "ndL_first_iface s' = ndL_first_iface s1"
    "\<forall>q. q \<notin> set ps \<longrightarrow> h_iface s' q = h_iface s1 q \<and> bs_bpf s' q = bs_bpf s1 q"
    "\<forall>q i. q \<in> set ps \<and> h_iface s1 q = Some i \<longrightarrow> (\<exists>j. h_iface s' q = Some j \<and> rebound k ba i (bs_bpf s1 q) j (bs_bpf s' q))"
    by (elim exE conjE)
  have p: "p \<notin> set ps" using Cons.prems(2) by simp
  have listed: "\<exists>j. h_iface s' q = Some j \<and> rebound k ba i' (bs_bpf s q) j (bs_bpf s' q)" if "q \<in> set (p # ps)" "h_iface s q = Some i'" for q i'
  proof (cases "q = p")
    case True
    have "h_iface s' p = Some j" "bs_bpf s' p = bs_bpf s1 p" using s'(4) p s1(4) by simp_all
    moreover have "i' = i" using that(2) i True by simp
    ultimately show ?thesis using s1(3) True by (intro exI [of _ j]) simp
  next
    case False
    then have "q \<in> set ps" "h_iface s1 q = Some i'" "bs_bpf s1 q = bs_bpf s q" using s1(4,5) that by simp_all
    with s'(5) [rule_format, of q i'] show ?thesis by simp
  qed
  have others: "h_iface s' q = h_iface s q \<and> bs_bpf s' q = bs_bpf s q" if "q \<notin> set (p # ps)" for q
  proof -
    have "q \<notin> set ps" "q \<noteq> p" using that by simp_all
    then show ?thesis using s'(4) s1(4,5) by simp
  qed
  show ?case
  proof (intro exI [of _ s'] conjI allI impI)
    show "foldM (bsd_rebind_one k ba) (p # ps) s = Some s'" using s1(1) s'(1) by simp
    show "ndL_first_iface s' = ndL_first_iface s" using s1(6) s'(3) by simp
  qed (use s'(2) listed others in \<open>assumption | elim conjE | simp\<close>)+
qed simp

lemma bsd_rebind_all_ok:
  assumes "bsd_inv base s" "bpf_kernel_ok ba"
  shows "\<exists>s'. bsd_rebind_all k ba s = Some s' \<and> bsd_inv base s'"
proof -
  have "set (ndL_first_iface s) \<subseteq> dom (h_iface s)" using bsd_invD(5) [OF assms(1)] by simp
  from bsd_rebind_list_ok [OF assms(2,1) bsd_invD(4) [OF assms(1)] this, of k] show ?thesis unfolding bsd_rebind_all_def by blast
qed

lemma bsd_send_none: "h_iface s p = Some i \<Longrightarrow> if_up i \<Longrightarrow> bs_bpf s p = None \<Longrightarrow> bsd_send p frame s = None"
  by (simp add: bsd_send_def)

lemma rebound_outcome:
  assumes "rebound k ba i io j io'"
  shows "case current k ba (if_name i) of
       None \<Rightarrow> j = i \<and> io' = io
     | Some (cur, ll) \<Rightarrow>
         ((\<forall>fds. serves (bk_dev ba (if_name i) fds)) \<longrightarrow> if_index j = cur \<and> if_lladdr j = ll \<and> io' \<noteq> None) \<and>
         ((\<forall>fds. \<not> serves (bk_dev ba (if_name i) fds)) \<and> (if_index i, if_lladdr i) \<noteq> (cur, ll) \<longrightarrow> io' = None)"
proof (cases "current k ba (if_name i)")
  case None
  then show ?thesis using assms by (simp add: rebound_def)
next
  case (Some c)
  obtain cur ll where c: "c = (cur, ll)" by (cases c)
  obtain fds where "if if_lladdr i = ll \<and> cur = if_index i \<and> io \<noteq> None then j = i \<and> io' = io
          else if serves (bk_dev ba (if_name i) fds) then j = i\<lparr>if_index := cur, if_lladdr := ll\<rparr> \<and> io' \<noteq> None
          else j = i \<and> io' = None" using assms Some c by (auto simp: rebound_def)
  then show ?thesis using Some c by (auto split: if_splits)
qed

lemma rebound_same:
  assumes "rebound k ba i io j io'"
  shows "if_name j = if_name i \<and> if_refcount j = if_refcount i \<and> if_up j = if_up i"
proof (cases "current k ba (if_name i)")
  case None
  then show ?thesis using assms by (simp add: rebound_def)
next
  case (Some c)
  obtain cur ll where c: "c = (cur, ll)" by (cases c)
  have "j = i \<or> j = i\<lparr>if_index := cur, if_lladdr := ll\<rparr>" using assms Some c by (auto simp: rebound_def split: if_splits)
  then show ?thesis by auto
qed

text \<open>
  C15: rebinding keeps up with the system, and what is left where it cannot.  A pass over the interfaces returns whatever the system
  answers, loses no descriptor and changes no name and no reference count.  An interface the system does not know now is left alone.
  One whose device can be set up has afterwards the index and the address of the moment and a device.  One that has changed and whose
  device cannot be set up is left without a device, and as it still counts as up, the next packet sent on it follows a null pointer.
\<close>

theorem bsd_rebind_converges:
  assumes "bsd_inv base s" "bpf_kernel_ok ba" "h_iface s p = Some i"
  shows "\<exists>s' j. bsd_rebind_all k ba s = Some s' \<and> bsd_inv base s' \<and> h_iface s' p = Some j \<and> if_name j = if_name i \<and> if_refcount j = if_refcount i \<and>
    (case current k ba (if_name i) of
       None \<Rightarrow> j = i \<and> bs_bpf s' p = bs_bpf s p
     | Some (cur, ll) \<Rightarrow>
         ((\<forall>fds. serves (bk_dev ba (if_name i) fds)) \<longrightarrow> if_index j = cur \<and> if_lladdr j = ll \<and> bs_bpf s' p \<noteq> None) \<and>
         ((\<forall>fds. \<not> serves (bk_dev ba (if_name i) fds)) \<and> (if_index i, if_lladdr i) \<noteq> (cur, ll) \<longrightarrow>
            bs_bpf s' p = None \<and> (if_up i \<longrightarrow> bsd_send p frame s' = None)))"
proof -
  have "set (ndL_first_iface s) \<subseteq> dom (h_iface s)" "p \<in> set (ndL_first_iface s)" using bsd_invD(5) [OF assms(1)] assms(3) by auto
  with bsd_rebind_list_ok [OF assms(2,1) bsd_invD(4) [OF assms(1)], of k] assms(3)
  obtain s' j where s': "bsd_rebind_all k ba s = Some s'" "bsd_inv base s'" "h_iface s' p = Some j" "rebound k ba i (bs_bpf s p) j (bs_bpf s' p)"
    unfolding bsd_rebind_all_def by blast
  have j: "if_name j = if_name i \<and> if_refcount j = if_refcount i \<and> if_up j = if_up i" by (rule rebound_same [OF s'(4)])
  then have "bs_bpf s' p = None \<Longrightarrow> if_up i \<Longrightarrow> bsd_send p frame s' = None" using bsd_send_none [OF s'(3)] by simp
  moreover have "case current k ba (if_name i) of
       None \<Rightarrow> j = i \<and> bs_bpf s' p = bs_bpf s p
     | Some (cur, ll) \<Rightarrow>
         ((\<forall>fds. serves (bk_dev ba (if_name i) fds)) \<longrightarrow> if_index j = cur \<and> if_lladdr j = ll \<and> bs_bpf s' p \<noteq> None) \<and>
         ((\<forall>fds. \<not> serves (bk_dev ba (if_name i) fds)) \<and> (if_index i, if_lladdr i) \<noteq> (cur, ll) \<longrightarrow> bs_bpf s' p = None)"
    using rebound_outcome [OF s'(4)] .
  ultimately show ?thesis using s'(1-3) j by (intro exI [of _ s'] exI [of _ j]) (simp split: option.splits prod.splits)
qed

text \<open>An interface that has come back under a new index while no device can be opened.\<close>

definition sample_bsd :: bsd_state where
  "sample_bsd =
    \<lparr>nd_current_time = 0, out = [], ndL_routes = [], ndL_addrs = [], nd_rt_dump_timeout = 0,
     h_iface = [0 \<mapsto> \<lparr>if_refcount = 1, if_name = ''eth0'', if_lladdr = Nd_lladdr 2 0 0 0 0 1, if_index = 7, if_up = True,
                       if_admin_up = False, if_proxy = None, if_promiscuous = False\<rparr>],
     ndL_first_iface = [0], ndL_io = False, nd_iface_no_restore_flags = False, heap_next = 1,
     bs_reg = \<lparr>h_bio = [0 \<mapsto> \<lparr>bi_fd = 3, bi_data = Some 0, bi_handler = Some Iface_io_handler\<rparr>], first_bio = [0], bio_next = 1,
               bio_fds = [3, 0, 1, 2], ndL_pollfds = replicate 8 0, ndL_pollfds_count = 0, ndL_dirty = True\<rparr>,
     bs_bpf = [0 \<mapsto> 0]\<rparr>"

definition refusing_kernel :: bpf_kernel where
  "refusing_kernel =
    \<lparr>bk_iflist = (\<lambda>name. Some (replicate 168 0 @ [18, 18, 2, 0, 6, 4, 6, 0, 101, 116, 104, 48, 2, 0, 0, 0, 0, 1])),
     bk_dev = (\<lambda>name fds. \<lparr>ba_io = \<lparr>k_socket = -1, k_getfl = True, k_setfl = True, k_epoll_create = -1, k_epoll_add = False\<rparr>,
                            ba_sblen = True, ba_setif = True, ba_promisc = True, ba_immediate = True, ba_filter = True\<rparr>)\<rparr>"

lemma sample_bsd_inv: "bsd_inv {0, 1, 2} sample_bsd"
  by (auto simp: bsd_inv_def sample_bsd_def bio_inv_def listed_fds_def bpf_linked_def IF_NAMESIZE_def split: if_splits)

lemma refusing_kernel_current: "current sample_kernel refusing_kernel ''eth0'' = Some (2, Nd_lladdr 2 0 0 0 0 1)"
  by code_simp

lemma refusing_kernel_ok: "bpf_kernel_ok refusing_kernel"
proof -
  have "reply_lladdr (replicate 168 0 @ [18, 18, 2, 0, 6, 4, 6, 0, 101, 116, 104, 48, 2, 0, 0, 0, 0, 1]) \<noteq> None"
    using refusing_kernel_current by (auto simp: current_def refusing_kernel_def sample_kernel_def split: if_splits)
  then show ?thesis by (simp add: bpf_kernel_ok_def refusing_kernel_def)
qed

theorem bsd_rebind_converges_witness:
  "\<exists>s'. bsd_rebind_all sample_kernel refusing_kernel sample_bsd = Some s' \<and> bs_bpf s' 0 = None \<and> bsd_send 0 [] s' = None"
proof -
  have refuses: "\<not> serves (bk_dev refusing_kernel nm fds)" for nm fds by (simp add: serves_def bpf_usable_def refusing_kernel_def)
  have i: "h_iface sample_bsd 0 = Some \<lparr>if_refcount = 1, if_name = ''eth0'', if_lladdr = Nd_lladdr 2 0 0 0 0 1, if_index = 7, if_up = True,
    if_admin_up = False, if_proxy = None, if_promiscuous = False\<rparr>" by (simp add: sample_bsd_def)
  show ?thesis using bsd_rebind_converges [OF sample_bsd_inv refusing_kernel_ok i, of sample_kernel "[]"] refusing_kernel_current refuses by auto
qed

end
