(* ===== verification/Bsd_Route.thy ===== *)
theory Bsd_Route
  imports Netlink Bsd_Iface Addr_Masks
begin

text \<open>
  The routing socket of \<^verbatim>\<open>src/rt.c\<close> in the build without netlink, FreeBSD's layout: walking the messages of a buffer, the socket
  addresses behind a header, and the changes of the routing and address tables they stand for; the messages that add and remove a
  route.  Offsets and numbers are those of the system's headers on a 64-bit machine.  The code does not check the socket addresses
  against the length of the message, so a read outside the buffer is \<open>None\<close>.
\<close>

definition RTM_ADD :: nat where "RTM_ADD = 1"
definition RTM_DELETE :: nat where "RTM_DELETE = 2"
definition RTM_GET :: nat where "RTM_GET = 4"
definition RTM_NEWADDR :: nat where "RTM_NEWADDR = 12"
definition RTM_DELADDR :: nat where "RTM_DELADDR = 13"
definition RTM_IFINFO :: nat where "RTM_IFINFO = 14"
definition RTM_IFANNOUNCE :: nat where "RTM_IFANNOUNCE = 17"
definition RTAX_MAX :: nat where "RTAX_MAX = 8"
definition AF_INET6 :: u8 where "AF_INET6 = 28"

lemmas rtm_defs = RTM_ADD_def RTM_DELETE_def RTM_GET_def RTM_NEWADDR_def RTM_DELADDR_def RTM_IFINFO_def RTM_IFANNOUNCE_def

subsection \<open>Socket addresses\<close>

text \<open>The length rounded up to a multiple of \<open>sizeof (u_long)\<close>.\<close>

definition align8 :: "nat \<Rightarrow> nat" where
  "align8 n = (n + 7) div 8 * 8"

text \<open>The loop from index \<open>i\<close> on, with \<open>n\<close> indices left: the offset of each socket address that is present.\<close>

fun ndL_get_rtas :: "bytes \<Rightarrow> nat \<Rightarrow> nat \<Rightarrow> nat \<Rightarrow> nat \<Rightarrow> nat option list option" where
  "ndL_get_rtas b addrs i 0 sa = Some []"
| "ndL_get_rtas b addrs i (Suc n) sa =
     (if odd (addrs div 2 ^ i) then do {
        sa_len \<leftarrow> read_byte b sa;
        rest \<leftarrow> ndL_get_rtas b addrs (Suc i) n (sa + align8 (unat sa_len));
        Some (Some sa # rest)
      } else do {
        rest \<leftarrow> ndL_get_rtas b addrs (Suc i) n sa;
        Some (None # rest)
      })"

text \<open>The address and the prefix length a message is about: present and of the family of IPv6, and the mask behind it.\<close>

definition inet6_at :: "bytes \<Rightarrow> nat option \<Rightarrow> nat option \<Rightarrow> (nd_addr \<times> nat) option option" where
  "inet6_at b sa netmask =
     (case sa of
        None \<Rightarrow> Some None
      | Some off \<Rightarrow> do {
          family \<leftarrow> read_byte b (off + 1);
          if family \<noteq> AF_INET6 then Some None
          else do {
            addr \<leftarrow> read_addr b (off + 8);
            pflen \<leftarrow> (case netmask of None \<Rightarrow> Some 0 | Some m \<Rightarrow> map_option nd_mask_to_pflen (read_addr b (m + 8)));
            Some (Some (addr, pflen))
          }
        })"

subsection \<open>Messages\<close>

definition ndL_handle_rt :: "bytes \<Rightarrow> nat \<Rightarrow> nat \<Rightarrow> 'a rt_state_scheme \<Rightarrow> 'a rt_state_scheme option" where
  "ndL_handle_rt b hdr ty s = do {
     addrs \<leftarrow> read_le32 b (hdr + 12);
     rtas \<leftarrow> ndL_get_rtas b addrs 0 RTAX_MAX (hdr + 152);
     found \<leftarrow> inet6_at b (rtas ! 0) (rtas ! 2);
     case found of
       None \<Rightarrow> Some s
     | Some (dst, pflen) \<Rightarrow> do {
         index \<leftarrow> read_le16 b (hdr + 4);
         flags \<leftarrow> read_le32 b (hdr + 8);
         let route = \<lparr>rt_dst = dst, rt_oif = index, rt_pflen = pflen, rt_table = 0, rt_owned = odd (flags div 2 ^ 18)\<rparr>;
         Some (if ty = RTM_GET \<or> ty = RTM_ADD then ndL_new_route route s
               else if ty = RTM_DELETE then ndL_delete_route route s
               else s)
       }
   }"

definition ndL_handle_ifa :: "bytes \<Rightarrow> nat \<Rightarrow> nat \<Rightarrow> 'a rt_state_scheme \<Rightarrow> 'a rt_state_scheme option" where
  "ndL_handle_ifa b hdr ty s = do {
     addrs \<leftarrow> read_le32 b (hdr + 4);
     rtas \<leftarrow> ndL_get_rtas b addrs 0 RTAX_MAX (hdr + 20);
     found \<leftarrow> inet6_at b (rtas ! 5) (rtas ! 2);
     case found of
       None \<Rightarrow> Some s
     | Some (ifa, pflen) \<Rightarrow> do {
         index \<leftarrow> read_le16 b (hdr + 12);
         Some (if ty = RTM_NEWADDR then ndL_new_addr index ifa pflen s
               else if ty = RTM_DELADDR then ndL_delete_addr index ifa pflen s
               else s)
       }
   }"

function rtsock_handle :: "kernel \<Rightarrow> bpf_kernel \<Rightarrow> bytes \<Rightarrow> nat \<Rightarrow> 'a bsd_state_scheme \<Rightarrow> 'a bsd_state_scheme option" where
  "rtsock_handle k ba b i s =
     (if \<not> i < length b then Some s
      else if i + 4 > length b then Some s
      else do {
        msglen \<leftarrow> read_le16 b i;
        if msglen < 4 \<or> msglen > length b - i then Some s
        else do {
          ty \<leftarrow> map_option unat (read_byte b (i + 3));
          s' \<leftarrow> (if ty = RTM_ADD \<or> ty = RTM_GET \<or> ty = RTM_DELETE then ndL_handle_rt b i ty s
                else if ty = RTM_NEWADDR \<or> ty = RTM_DELADDR then ndL_handle_ifa b i ty s
                else if ty = RTM_IFINFO \<or> ty = RTM_IFANNOUNCE then bsd_rebind_all k ba s
                else Some s);
          rtsock_handle k ba b (i + msglen) s'
        }
      })"
  by pat_completeness auto
termination by (relation "measure (\<lambda>(k, ba, b, i, s). length b - i)") auto

declare rtsock_handle.simps [simp del]

text \<open>The receive loop, on the datagrams \<open>nd_io_recv\<close> returns until it fails.\<close>

definition rtsock_io_handler :: "(kernel \<times> bpf_kernel \<times> bytes) list \<Rightarrow> 'a bsd_state_scheme \<Rightarrow> 'a bsd_state_scheme option" where
  "rtsock_io_handler msgs s = foldM (\<lambda>(k, ba, b) s. rtsock_handle k ba b 0 s) msgs s"

text \<open>A dump: whether the size could be asked for, whether there was memory, and what the second query returned.\<close>

definition ndL_dump ::
  "kernel \<Rightarrow> bpf_kernel \<Rightarrow> bool \<Rightarrow> bool \<Rightarrow> bytes option \<Rightarrow> 'a bsd_state_scheme \<Rightarrow> (bool \<times> 'a bsd_state_scheme) option" where
  "ndL_dump k ba sized malloc reply s =
     (if \<not> sized \<or> \<not> malloc then Some (False, s)
      else case reply of
        None \<Rightarrow> Some (False, s)
      | Some b \<Rightarrow> do { s' \<leftarrow> rtsock_handle k ba b 0 s; Some (True, s') })"

subsection \<open>Requests\<close>

text \<open>
  The message that adds a route: header, destination, link-level address of the outgoing interface and mask, each aligned to eight
  bytes.  \<open>pid\<close> is the process, 5 the version of the interface, and the flags are \<open>RTF_UP\<close> and \<open>RTF_PROTO3\<close>.
\<close>

definition sockaddr_in6 :: "nd_addr \<Rightarrow> bytes" where
  "sockaddr_in6 addr = [28, AF_INET6] @ replicate 6 0 @ addr_bytes LittleEndian addr @ replicate 4 0"

definition sockaddr_dl :: "nat \<Rightarrow> bytes" where
  "sockaddr_dl index = [54, 18] @ le16_bytes index @ replicate 50 0"

definition rtm_header :: "nat \<Rightarrow> nat \<Rightarrow> nat \<Rightarrow> nat \<Rightarrow> nat \<Rightarrow> nat \<Rightarrow> bytes" where
  "rtm_header msglen ty index flags addrs pid =
     le16_bytes msglen @ [5, of_nat ty] @ le16_bytes index @ [0, 0] @ le32_bytes flags @ le32_bytes addrs @ le32_bytes pid @ replicate 132 0"

definition add_route_msg :: "nat \<Rightarrow> nd_addr \<Rightarrow> nat \<Rightarrow> nat \<Rightarrow> bytes" where
  "add_route_msg pid dst pflen oif =
     rtm_header 272 RTM_ADD (oif mod 65536) (1 + 2 ^ 18) 7 pid @ sockaddr_in6 dst @ replicate 4 0 @ sockaddr_dl (oif mod 65536) @ replicate 2 0 @
     sockaddr_in6 (nd_mask_from_pflen LittleEndian pflen) @ replicate 4 0"

definition remove_route_msg :: "nat \<Rightarrow> nd_addr \<Rightarrow> nat \<Rightarrow> bytes" where
  "remove_route_msg pid dst pflen =
     rtm_header 216 RTM_DELETE 0 0 5 pid @ sockaddr_in6 dst @ replicate 4 0 @ sockaddr_in6 (nd_mask_from_pflen LittleEndian pflen) @ replicate 4 0"

subsection \<open>Messages as the system writes them\<close>

text \<open>
  A message is its type, the rest of its header and the socket addresses, one or none for every index, each padded to eight bytes.
  The header has the length of its structure, and its bit field says which addresses follow.  A socket address begins with its
  length, which is not zero, and those of IPv6 and masks are complete.
\<close>

record rt_message =
  rm_version :: u8
  rm_type :: nat
  rm_head :: bytes
  rm_addrs :: "bytes option list"

primrec addr_bits :: "bytes option list \<Rightarrow> nat" where
  "addr_bits [] = 0"
| "addr_bits (x # xs) = of_bool (x \<noteq> None) + 2 * addr_bits xs"

definition sa_bytes :: "bytes option \<Rightarrow> bytes" where
  "sa_bytes x = (case x of None \<Rightarrow> [] | Some sa \<Rightarrow> sa @ replicate (align8 (length sa) - length sa) 0)"

definition sas_bytes :: "bytes option list \<Rightarrow> bytes" where
  "sas_bytes xs = concat (map sa_bytes xs)"

definition rm_bytes :: "rt_message \<Rightarrow> bytes" where
  "rm_bytes m = le16_bytes (4 + length (rm_head m) + length (sas_bytes (rm_addrs m))) @ [rm_version m, of_nat (rm_type m)] @ rm_head m @
     sas_bytes (rm_addrs m)"

definition sa_ok :: "bytes \<Rightarrow> bool" where
  "sa_ok sa \<longleftrightarrow> 2 \<le> length sa \<and> length sa < 256 \<and> sa ! 0 = of_nat (length sa) \<and> (sa ! 1 = AF_INET6 \<longrightarrow> 24 \<le> length sa)"

definition rm_ok :: "rt_message \<Rightarrow> bool" where
  "rm_ok m \<longleftrightarrow>
     rm_type m < 256 \<and> length (rm_bytes m) < 65536 \<and> list_all (\<lambda>x. \<forall>sa. x = Some sa \<longrightarrow> sa_ok sa) (rm_addrs m) \<and>
     (rm_type m \<in> {RTM_ADD, RTM_GET, RTM_DELETE} \<longrightarrow>
        length (rm_head m) = 148 \<and> length (rm_addrs m) = 8 \<and> le32 (drop 8 (rm_head m)) = addr_bits (rm_addrs m)) \<and>
     (rm_type m \<in> {RTM_NEWADDR, RTM_DELADDR} \<longrightarrow>
        length (rm_head m) = 16 \<and> length (rm_addrs m) = 8 \<and> le32 (rm_head m) = addr_bits (rm_addrs m)) \<and>
     (\<forall>sa. 2 < length (rm_addrs m) \<longrightarrow> rm_addrs m ! 2 = Some sa \<longrightarrow> 24 \<le> length sa)"

text \<open>What a message means, read off its parts.\<close>

definition sin6_of :: "bytes \<Rightarrow> nd_addr" where
  "sin6_of sa = addr_of_bytes LittleEndian (take 16 (drop 8 sa))"

definition inet6_of :: "bytes option \<Rightarrow> bytes option \<Rightarrow> (nd_addr \<times> nat) option" where
  "inet6_of sa netmask =
     (case sa of
        None \<Rightarrow> None
      | Some a \<Rightarrow> if a ! 1 \<noteq> AF_INET6 then None
                  else Some (sin6_of a, case netmask of None \<Rightarrow> 0 | Some n \<Rightarrow> nd_mask_to_pflen (sin6_of n)))"

definition apply_rm :: "kernel \<Rightarrow> bpf_kernel \<Rightarrow> rt_message \<Rightarrow> 'a bsd_state_scheme \<Rightarrow> 'a bsd_state_scheme option" where
  "apply_rm k ba m s =
     (if rm_type m \<in> {RTM_ADD, RTM_GET, RTM_DELETE} then
        (case inet6_of (rm_addrs m ! 0) (rm_addrs m ! 2) of
           None \<Rightarrow> Some s
         | Some (dst, pflen) \<Rightarrow>
             let route = \<lparr>rt_dst = dst, rt_oif = le16 (rm_head m ! 0) (rm_head m ! 1), rt_pflen = pflen, rt_table = 0,
                          rt_owned = odd (le32 (drop 4 (rm_head m)) div 2 ^ 18)\<rparr>
             in Some (if rm_type m = RTM_DELETE then ndL_delete_route route s else ndL_new_route route s))
      else if rm_type m \<in> {RTM_NEWADDR, RTM_DELADDR} then
        (case inet6_of (rm_addrs m ! 5) (rm_addrs m ! 2) of
           None \<Rightarrow> Some s
         | Some (ifa, pflen) \<Rightarrow>
             let index = le16 (rm_head m ! 8) (rm_head m ! 9)
             in Some (if rm_type m = RTM_NEWADDR then ndL_new_addr index ifa pflen s else ndL_delete_addr index ifa pflen s))
      else if rm_type m \<in> {RTM_IFINFO, RTM_IFANNOUNCE} then bsd_rebind_all k ba s
      else Some s)"

subsection \<open>Decoding\<close>

lemma align8_ge: "n \<le> align8 n"
  unfolding align8_def by arith

lemma holds_drop: "holds b i d \<Longrightarrow> n \<le> length d \<Longrightarrow> holds b (i + n) (drop n d)"
proof -
  assume h: "holds b i d" and n: "n \<le> length d"
  then have "drop n (take (length d) (drop i b)) = drop n d" "i + length d \<le> length b" by (simp_all add: holds_def)
  then show ?thesis using n by (simp add: holds_def drop_take add.commute)
qed

lemma holds_sub: "b = p @ d @ q \<Longrightarrow> i = length p \<Longrightarrow> holds b i d"
  by (simp add: holds_def)

definition sas_at :: "bytes \<Rightarrow> nat option list \<Rightarrow> bytes option list \<Rightarrow> bool" where
  "sas_at b = list_all2 (rel_option (holds b))"

lemma ndL_get_rtas_ok:
  "list_all (\<lambda>x. \<forall>sa. x = Some sa \<longrightarrow> sa_ok sa) sas \<Longrightarrow> b = p @ sas_bytes sas @ q \<Longrightarrow> addrs div 2 ^ i = addr_bits sas \<Longrightarrow>
   \<exists>offs. ndL_get_rtas b addrs i (length sas) (length p) = Some offs \<and> sas_at b offs sas"
proof (induction sas arbitrary: p i)
  case Nil
  then show ?case by (simp add: sas_at_def)
next
  case (Cons x sas)
  have sh: "addrs div 2 ^ Suc i = addr_bits sas"
  proof -
    have "addrs div 2 ^ Suc i = addr_bits (x # sas) div 2" unfolding Cons.prems(3) [symmetric] by (simp only: power_Suc2 div_mult2_eq)
    then show ?thesis by (cases x) simp_all
  qed
  show ?case
  proof (cases x)
    case None
    then obtain offs where "ndL_get_rtas b addrs (Suc i) (length sas) (length p) = Some offs" "sas_at b offs sas"
      using Cons.IH [of p "Suc i"] Cons.prems sh by (auto simp: sas_bytes_def sa_bytes_def)
    moreover have "even (addrs div 2 ^ i)" using Cons.prems(3) None by simp
    ultimately show ?thesis using None by (simp add: sas_at_def)
  next
    case (Some sa)
    have ok: "sa_ok sa" using Cons.prems(1) Some by simp
    then have sa: "sa \<noteq> []" "unat (sa ! 0) = length sa" by (auto simp: sa_ok_def unat_of_nat)
    have b: "b = (p @ sa_bytes x) @ sas_bytes sas @ q" using Cons.prems(2) by (simp add: sas_bytes_def)
    have h: "holds b (length p) sa"
      using holds_sub [of b p sa "replicate (align8 (length sa) - length sa) 0 @ sas_bytes sas @ q"] b Some by (simp add: sa_bytes_def)
    then have "read_byte b (length p) = Some (sa ! 0)" using holds_byte [of b "length p" sa 0] sa(1) by simp
    moreover have "length (p @ sa_bytes x) = length p + align8 (length sa)" using Some align8_ge [of "length sa"] by (simp add: sa_bytes_def)
    moreover obtain offs where "ndL_get_rtas b addrs (Suc i) (length sas) (length (p @ sa_bytes x)) = Some offs" "sas_at b offs sas"
      using Cons.IH [OF _ b sh] Cons.prems(1) by auto
    moreover have "odd (addrs div 2 ^ i)" using Cons.prems(3) Some by simp
    ultimately show ?thesis using Some sa(2) h by (simp add: sas_at_def)
  qed
qed

lemma holds_sin6: "holds b off sa \<Longrightarrow> 24 \<le> length sa \<Longrightarrow> read_addr b (off + 8) = Some (sin6_of sa)"
  using holds_addr [OF holds_drop [of b off sa 8]] by (simp add: sin6_of_def)

lemma inet6_at_ok:
  assumes "rel_option (holds b) o1 x" "rel_option (holds b) o2 y" "\<And>sa. x = Some sa \<Longrightarrow> sa_ok sa" "\<And>sa. y = Some sa \<Longrightarrow> 24 \<le> length sa"
  shows "inet6_at b o1 o2 = Some (inet6_of x y)"
proof (cases x)
  case None
  then show ?thesis using assms(1) by (simp add: inet6_at_def inet6_of_def)
next
  case (Some sa)
  then obtain off where off: "o1 = Some off" "holds b off sa" using assms(1) by (cases o1) auto
  have ok: "2 \<le> length sa" "sa ! 1 = AF_INET6 \<Longrightarrow> 24 \<le> length sa" using assms(3) [OF Some] by (auto simp: sa_ok_def)
  have fam: "read_byte b (off + 1) = Some (sa ! 1)" using holds_byte [OF off(2), of 1] ok(1) by simp
  have "(case o2 of None \<Rightarrow> Some 0 | Some m \<Rightarrow> map_option nd_mask_to_pflen (read_addr b (m + 8))) =
    Some (case y of None \<Rightarrow> 0 | Some n \<Rightarrow> nd_mask_to_pflen (sin6_of n))"
    using assms(2,4) by (cases o2; cases y) (auto simp: holds_sin6)
  then show ?thesis using fam off ok(2) Some by (auto simp: inet6_at_def inet6_of_def holds_sin6)
qed

text \<open>A message in a buffer: its header, its addresses and its bytes.\<close>

lemma rm_at:
  assumes "rm_ok m" "b = p @ rm_bytes m @ q"
  shows "read_le16 b (length p) = Some (length (rm_bytes m))" "read_byte b (length p + 3) = Some (of_nat (rm_type m))"
    "holds b (length p + 4) (rm_head m)" "b = (p @ take (4 + length (rm_head m)) (rm_bytes m)) @ sas_bytes (rm_addrs m) @ q"
    "4 \<le> length (rm_bytes m)"
proof -
  let ?l = "le16_bytes (4 + length (rm_head m) + length (sas_bytes (rm_addrs m)))"
  have len: "length (rm_bytes m) = 4 + length (rm_head m) + length (sas_bytes (rm_addrs m))" by (simp add: rm_bytes_def)
  then show "4 \<le> length (rm_bytes m)" by simp
  have b: "b = p @ ?l @ [rm_version m, of_nat (rm_type m)] @ rm_head m @ sas_bytes (rm_addrs m) @ q"
    using assms(2) by (simp add: rm_bytes_def)
  have "length (rm_bytes m) < 65536" using assms(1) by (simp add: rm_ok_def)
  then show "read_le16 b (length p) = Some (length (rm_bytes m))"
    using read_le16_append [of p _ 0] read_le16_bytes [of "length (rm_bytes m)"] b len by simp
  show "read_byte b (length p + 3) = Some (of_nat (rm_type m))" using b by (simp add: read_byte_def nth_append)
  show "holds b (length p + 4) (rm_head m)"
    by (rule holds_sub [of b "p @ ?l @ [rm_version m, of_nat (rm_type m)]"]) (simp_all add: b)
  show "b = (p @ take (4 + length (rm_head m)) (rm_bytes m)) @ sas_bytes (rm_addrs m) @ q" by (simp add: b rm_bytes_def)
qed

lemma rtas_of_message:
  assumes "rm_ok m" "b = p @ rm_bytes m @ q" "length (rm_addrs m) = 8" "addrs = addr_bits (rm_addrs m)" "j < 8"
  shows "\<exists>offs. ndL_get_rtas b addrs 0 RTAX_MAX (length p + (4 + length (rm_head m))) = Some offs \<and>
    inet6_at b (offs ! j) (offs ! 2) = Some (inet6_of (rm_addrs m ! j) (rm_addrs m ! 2))"
proof -
  have ok: "list_all (\<lambda>x. \<forall>sa. x = Some sa \<longrightarrow> sa_ok sa) (rm_addrs m)" using assms(1) by (simp add: rm_ok_def)
  have "length (p @ take (4 + length (rm_head m)) (rm_bytes m)) = length p + (4 + length (rm_head m))" by (simp add: rm_bytes_def)
  then obtain offs where offs: "ndL_get_rtas b addrs 0 8 (length p + (4 + length (rm_head m))) = Some offs" "sas_at b offs (rm_addrs m)"
    using ndL_get_rtas_ok [OF ok rm_at(4) [OF assms(1,2)], of addrs 0] assms(3,4) by auto
  have r: "rel_option (holds b) (offs ! n) (rm_addrs m ! n)" if "n < 8" for n
    using offs(2) that assms(3) unfolding sas_at_def by (auto simp: list_all2_conv_all_nth)
  have "inet6_at b (offs ! j) (offs ! 2) = Some (inet6_of (rm_addrs m ! j) (rm_addrs m ! 2))"
  proof (rule inet6_at_ok)
    show "sa_ok sa" if "rm_addrs m ! j = Some sa" for sa using ok assms(3,5) that by (auto simp: list_all_length)
    show "24 \<le> length sa" if "rm_addrs m ! 2 = Some sa" for sa using assms(1,3) that by (auto simp: rm_ok_def)
  qed (use r assms(5) in auto)
  with offs(1) show ?thesis by (auto simp: RTAX_MAX_def)
qed

lemma ndL_handle_rt_ok:
  assumes "rm_ok m" "b = p @ rm_bytes m @ q" "rm_type m \<in> {RTM_ADD, RTM_GET, RTM_DELETE}"
  shows "ndL_handle_rt b (length p) (rm_type m) s = apply_rm k ba m s"
proof -
  have h: "length (rm_head m) = 148" "length (rm_addrs m) = 8" "le32 (drop 8 (rm_head m)) = addr_bits (rm_addrs m)"
    using assms(1,3) by (auto simp: rm_ok_def)
  note hd = rm_at(3) [OF assms(1,2)]
  have rd: "read_le32 b (length p + 12) = Some (addr_bits (rm_addrs m))" "read_le32 b (length p + 8) = Some (le32 (drop 4 (rm_head m)))"
    "read_le16 b (length p + 4) = Some (le16 (rm_head m ! 0) (rm_head m ! 1))"
    using holds_le32 [OF hd, of 8] holds_le32 [OF hd, of 4] holds_le16 [OF hd, of 0] h by (simp_all add: add.assoc)
  from rtas_of_message [OF assms(1,2) h(2) refl, of 0] obtain offs where
    "ndL_get_rtas b (addr_bits (rm_addrs m)) 0 RTAX_MAX (length p + 152) = Some offs"
    "inet6_at b (offs ! 0) (offs ! 2) = Some (inet6_of (rm_addrs m ! 0) (rm_addrs m ! 2))" using h(1) by auto
  then show ?thesis using rd assms(3)
    by (cases "inet6_of (rm_addrs m ! 0) (rm_addrs m ! 2)") (auto simp: ndL_handle_rt_def apply_rm_def Let_def rtm_defs)
qed

lemma ndL_handle_ifa_ok:
  assumes "rm_ok m" "b = p @ rm_bytes m @ q" "rm_type m \<in> {RTM_NEWADDR, RTM_DELADDR}"
  shows "ndL_handle_ifa b (length p) (rm_type m) s = apply_rm k ba m s"
proof -
  have h: "length (rm_head m) = 16" "length (rm_addrs m) = 8" "le32 (rm_head m) = addr_bits (rm_addrs m)"
    using assms(1,3) by (auto simp: rm_ok_def)
  note hd = rm_at(3) [OF assms(1,2)]
  have rd: "read_le32 b (length p + 4) = Some (addr_bits (rm_addrs m))" "read_le16 b (length p + 12) = Some (le16 (rm_head m ! 8) (rm_head m ! 9))"
    using holds_le32 [OF hd, of 0] holds_le16 [OF hd, of 8] h by (simp_all add: add.assoc eval_nat_numeral)
  from rtas_of_message [OF assms(1,2) h(2) refl, of 5] obtain offs where
    "ndL_get_rtas b (addr_bits (rm_addrs m)) 0 RTAX_MAX (length p + 20) = Some offs"
    "inet6_at b (offs ! 5) (offs ! 2) = Some (inet6_of (rm_addrs m ! 5) (rm_addrs m ! 2))" using h(1) by auto
  then show ?thesis using rd assms(3)
    by (cases "inet6_of (rm_addrs m ! 5) (rm_addrs m ! 2)") (auto simp: ndL_handle_ifa_def apply_rm_def Let_def rtm_defs)
qed

lemma rtsock_handle_ok:
  fixes s :: "'a bsd_state_scheme"
  assumes "list_all rm_ok ms"
  shows "rtsock_handle k ba (p @ concat (map rm_bytes ms)) (length p) s = foldM (apply_rm k ba) ms s"
  using assms
proof (induction ms arbitrary: p s)
  case Nil
  then show ?case by (subst rtsock_handle.simps) simp
next
  case (Cons m ms)
  let ?b = "p @ concat (map rm_bytes (m # ms))" and ?q = "concat (map rm_bytes ms)"
  have ok: "rm_ok m" and b: "?b = p @ rm_bytes m @ ?q" using Cons.prems by simp_all
  note at = rm_at [OF ok b]
  have ty: "unat (of_nat (rm_type m) :: u8) = rm_type m" using ok by (simp add: rm_ok_def unat_of_nat)
  have step: "(if rm_type m = RTM_ADD \<or> rm_type m = RTM_GET \<or> rm_type m = RTM_DELETE then ndL_handle_rt ?b (length p) (rm_type m) s
     else if rm_type m = RTM_NEWADDR \<or> rm_type m = RTM_DELADDR then ndL_handle_ifa ?b (length p) (rm_type m) s
     else if rm_type m = RTM_IFINFO \<or> rm_type m = RTM_IFANNOUNCE then bsd_rebind_all k ba s else Some s) = apply_rm k ba m s"
    using ndL_handle_rt_ok [OF ok b] ndL_handle_ifa_ok [OF ok b] by (auto simp: apply_rm_def)
  have tail: "rtsock_handle k ba ?b (length p + length (rm_bytes m)) = (foldM (apply_rm k ba) ms :: 'a bsd_state_scheme \<Rightarrow> _)"
    using Cons.IH [of "p @ rm_bytes m"] Cons.prems by (intro ext) simp
  have "length ?b = length p + length (rm_bytes m) + length ?q" by simp
  then have "rtsock_handle k ba ?b (length p) s = apply_rm k ba m s \<bind> rtsock_handle k ba ?b (length p + length (rm_bytes m))"
    unfolding step [symmetric] using at(1,2,5) ty by (subst rtsock_handle.simps) auto
  then show ?case unfolding tail by simp
qed

subsection \<open>Safety\<close>

lemma bsd_inv_tables: "bsd_inv base s \<Longrightarrow> bsd_inv base (s\<lparr>ndL_routes := rs\<rparr>)" "bsd_inv base s \<Longrightarrow> bsd_inv base (s\<lparr>ndL_addrs := as\<rparr>)"
  unfolding bsd_inv_def by simp_all

lemma apply_rm_inv:
  assumes "bsd_inv base s" "bpf_kernel_ok ba"
  shows "\<exists>s'. apply_rm k ba m s = Some s' \<and> bsd_inv base s'"
proof -
  have "\<exists>s'. bsd_rebind_all k ba s = Some s' \<and> bsd_inv base s'" by (rule bsd_rebind_all_ok [OF assms])
  moreover have "bsd_inv base (ndL_new_route r s)" "bsd_inv base (ndL_delete_route r s)" "bsd_inv base (ndL_new_addr i a n s)"
    "bsd_inv base (ndL_delete_addr i a n s)" for r i a n
    using assms(1) by (simp_all add: ndL_new_route_def ndL_delete_route_def ndL_new_addr_def ndL_delete_addr_def bsd_inv_tables)
  ultimately show ?thesis using assms(1) by (auto simp: apply_rm_def Let_def split: option.splits)
qed

lemma rtsock_handle_inv:
  assumes "list_all rm_ok ms" "bsd_inv base s" "bpf_kernel_ok ba"
  shows "\<exists>s'. rtsock_handle k ba (concat (map rm_bytes ms)) 0 s = Some s' \<and> bsd_inv base s'"
proof -
  have "\<exists>s'. foldM (apply_rm k ba) ms s = Some s' \<and> bsd_inv base s'"
    by (rule foldM_inv [where I = "bsd_inv base"]) (use assms(2,3) apply_rm_inv in blast)+
  then show ?thesis using rtsock_handle_ok [OF assms(1), of k ba "[]" s] by simp
qed


subsection \<open>The requests are read back\<close>

definition rtm_of :: "nat \<Rightarrow> nat \<Rightarrow> nat \<Rightarrow> nat \<Rightarrow> bytes option list \<Rightarrow> rt_message" where
  "rtm_of ty index flags pid addrs = \<lparr>rm_version = 5, rm_type = ty,
     rm_head = le16_bytes index @ [0, 0] @ le32_bytes flags @ le32_bytes (addr_bits addrs) @ le32_bytes pid @ replicate 132 0, rm_addrs = addrs\<rparr>"

lemma length_sockaddrs [simp]: "length (sockaddr_in6 a) = 28" "length (sockaddr_dl i) = 54"
  by (simp_all add: sockaddr_in6_def sockaddr_dl_def)

lemma sockaddrs_ok: "sa_ok (sockaddr_in6 a)" "sa_ok (sockaddr_dl i)"
  by (simp_all add: sa_ok_def sockaddr_in6_def sockaddr_dl_def AF_INET6_def)

lemma sin6_of_sockaddr [simp]: "sin6_of (sockaddr_in6 a) = a"
  by (simp add: sin6_of_def sockaddr_in6_def)

lemma le32_le32_bytes: "n < 4294967296 \<Longrightarrow> le32 (le32_bytes n @ xs) = n"
  by (simp add: le32_def le32_bytes_def le16_bytes_def le16_inverse)

lemma sa_bytes_sockaddrs:
  "sa_bytes (Some (sockaddr_in6 a)) = sockaddr_in6 a @ replicate 4 0" "sa_bytes (Some (sockaddr_dl i)) = sockaddr_dl i @ replicate 2 0"
  "sa_bytes None = []"
  by (simp_all add: sa_bytes_def align8_def)

lemma add_route_msg_eq:
  "add_route_msg pid dst pflen oif = rm_bytes (rtm_of RTM_ADD (oif mod 65536) (1 + 2 ^ 18) pid
     [Some (sockaddr_in6 dst), Some (sockaddr_dl (oif mod 65536)), Some (sockaddr_in6 (nd_mask_from_pflen LittleEndian pflen)), None, None, None, None, None])"
  by (simp add: add_route_msg_def rtm_of_def rm_bytes_def rtm_header_def sas_bytes_def sa_bytes_sockaddrs)

lemma remove_route_msg_eq:
  "remove_route_msg pid dst pflen = rm_bytes (rtm_of RTM_DELETE 0 0 pid
     [Some (sockaddr_in6 dst), None, Some (sockaddr_in6 (nd_mask_from_pflen LittleEndian pflen)), None, None, None, None, None])"
  by (simp add: remove_route_msg_def rtm_of_def rm_bytes_def rtm_header_def sas_bytes_def sa_bytes_sockaddrs)

lemma rtm_of_ok:
  assumes "ty = RTM_ADD \<or> ty = RTM_DELETE" "x = None \<or> x = Some (sockaddr_dl i)"
  shows "rm_ok (rtm_of ty index flags pid [Some (sockaddr_in6 dst), x, Some (sockaddr_in6 m), None, None, None, None, None])"
proof -
  have "addr_bits [Some (sockaddr_in6 dst), x, Some (sockaddr_in6 m), None, None, None, None, None] < 4294967296" using assms(2) by auto
  then show ?thesis
    using assms by (auto simp: rm_ok_def rtm_of_def rm_bytes_def sas_bytes_def sa_bytes_sockaddrs sockaddrs_ok le32_le32_bytes rtm_defs)
qed

lemma rtm_of_apply:
  assumes "index < 65536" "flags < 4294967296" "ty = RTM_ADD \<or> ty = RTM_DELETE"
  shows "apply_rm k ba (rtm_of ty index flags pid (Some (sockaddr_in6 dst) # x # Some (sockaddr_in6 m) # xs)) s =
    Some (let route = \<lparr>rt_dst = dst, rt_oif = index, rt_pflen = nd_mask_to_pflen m, rt_table = 0, rt_owned = odd (flags div 2 ^ 18)\<rparr>
          in if ty = RTM_DELETE then ndL_delete_route route s else ndL_new_route route s)"
proof -
  have "sockaddr_in6 dst ! 1 = AF_INET6" by (simp add: sockaddr_in6_def)
  moreover have "le16 (of_nat index) (of_nat (index div 256)) = index" using assms(1) by (rule le16_inverse)
  ultimately show ?thesis
    using assms(2,3) by (auto simp: apply_rm_def rtm_of_def inet6_of_def le16_bytes_def le32_le32_bytes rtm_defs Let_def)
qed




end
