(* ===== verification/Bsd_Packet.thy ===== *)
theory Bsd_Packet
  imports Netlink
begin

text \<open>
  The receive path of \<^verbatim>\<open>src/iface.c\<close> in the build without packet sockets: one read of a BPF device returns several records, each a
  header, the captured frame and padding.  The layout of the header belongs to the system and is a parameter.  On any bytes the walk
  over the records ends, reads inside the buffer and hands on only frames that lie in it; on a buffer as the device fills it, it hands
  on exactly the captured frames that pass the checks.
\<close>

text \<open>The size of \<open>struct bpf_hdr\<close>, the offsets of \<open>bh_caplen\<close> and \<open>bh_hdrlen\<close>, and \<open>BPF_ALIGNMENT\<close>.\<close>

record bpf_layout =
  bl_size :: nat
  bl_caplen :: nat
  bl_hdrlen :: nat
  bl_align :: nat

definition bpf_layout_ok :: "bpf_layout \<Rightarrow> bool" where
  "bpf_layout_ok L \<longleftrightarrow> bl_caplen L + 4 \<le> bl_size L \<and> bl_hdrlen L + 2 \<le> bl_size L \<and> 0 < bl_align L"

definition BPF_WORDALIGN :: "bpf_layout \<Rightarrow> nat \<Rightarrow> nat" where
  "BPF_WORDALIGN L n = (n + (bl_align L - 1)) div bl_align L * bl_align L"

text \<open>
  The loop over the records of one buffer, with \<open>ndL_handle_msg\<close> on the interface of the device as the argument \<open>handle\<close>.  The
  sum of the two lengths is 32 bits wide, as \<open>bh_caplen\<close> is.
\<close>

function bpf_walk :: "bpf_layout \<Rightarrow> (bytes \<Rightarrow> 's \<Rightarrow> 's option) \<Rightarrow> bytes \<Rightarrow> nat \<Rightarrow> 's \<Rightarrow> 's option" where
  "bpf_walk L handle b i s =
     (if \<not> i < length b then Some s
      else if i + bl_size L > length b then Some s
      else do {
        hdrlen \<leftarrow> read_le16 b (i + bl_hdrlen L);
        caplen \<leftarrow> read_le32 b (i + bl_caplen L);
        let pkt_offset = i + hdrlen;
        let advance = BPF_WORDALIGN L ((hdrlen + caplen) mod 4294967296);
        if advance = 0 then Some s
        else if pkt_offset > length b \<or> caplen > length b - pkt_offset then bpf_walk L handle b (i + advance) s
        else if caplen < 54 then bpf_walk L handle b (i + advance) s
        else do {
          msg \<leftarrow> read_bytes b pkt_offset caplen;
          s' \<leftarrow> (if accept_frame msg then handle msg s else Some s);
          bpf_walk L handle b (i + advance) s'
        }
      })"
  by pat_completeness auto
termination by (relation "measure (\<lambda>(L, handle, b, i, s). length b - i)") auto

declare bpf_walk.simps [simp del]

text \<open>
  The handler of one device, on what successive reads return.  No read left is an error of \<open>read\<close>, and an empty one ends the loop
  as well.
\<close>

fun bpf_io_handler :: "bpf_layout \<Rightarrow> (bytes \<Rightarrow> 's \<Rightarrow> 's option) \<Rightarrow> bytes list \<Rightarrow> 's \<Rightarrow> 's option" where
  "bpf_io_handler L handle [] s = Some s"
| "bpf_io_handler L handle (b # rest) s =
     (if length b = 0 then Some s else do { s' \<leftarrow> bpf_walk L handle b 0 s; bpf_io_handler L handle rest s' })"

subsection \<open>The frames of a buffer\<close>

lemma read_le16_in: "i + 2 \<le> length b \<Longrightarrow> \<exists>n. read_le16 b i = Some n"
  by (simp add: read_le16_def)

lemma read_le32_in: "i + 4 \<le> length b \<Longrightarrow> \<exists>n. read_le32 b i = Some n"
  using read_le16_in [of i b] read_le16_in [of "i + 2" b] by (auto simp: read_le32_def)

definition part_of :: "bytes \<Rightarrow> bytes \<Rightarrow> bool" where
  "part_of f b \<longleftrightarrow> (\<exists>i. i + length f \<le> length b \<and> take (length f) (drop i b) = f)"

text \<open>
  The device's records: a header of \<open>bh_hdrlen\<close> bytes, the frame and padding up to the alignment.  The header may be shorter than
  \<open>sizeof (struct bpf_hdr)\<close>, which counts the padding of the structure.
\<close>

type_synonym bpf_rec = "bytes \<times> bytes"

definition bpf_rec_ok :: "bpf_layout \<Rightarrow> bpf_rec \<Rightarrow> bool" where
  "bpf_rec_ok L r \<longleftrightarrow>
     bl_size L \<le> length (fst r) + length (snd r) \<and> length (fst r) + length (snd r) < 4294967296 \<and>
     bl_caplen L + 4 \<le> length (fst r) \<and> bl_hdrlen L + 2 \<le> length (fst r) \<and>
     read_le16 (fst r) (bl_hdrlen L) = Some (length (fst r)) \<and> read_le32 (fst r) (bl_caplen L) = Some (length (snd r))"

definition bpf_bytes :: "bpf_layout \<Rightarrow> bpf_rec list \<Rightarrow> bytes" where
  "bpf_bytes L rs =
     concat (map (\<lambda>(h, f). h @ f @ replicate (BPF_WORDALIGN L (length h + length f) - (length h + length f)) 0) rs)"

lemma bpf_walk_any:
  assumes L: "bpf_layout_ok L"
  shows "\<exists>fs. list_all (\<lambda>f. accept_frame f \<and> part_of f b) fs \<and>
    (\<forall>handle :: bytes \<Rightarrow> 's \<Rightarrow> 's option. bpf_walk L handle b i = foldM handle fs)"
proof (induction "length b - i" arbitrary: i rule: less_induct)
  case less
  show ?case
  proof (cases "\<not> i < length b \<or> i + bl_size L > length b")
    case True
    then have "bpf_walk L handle b i = foldM handle []" for handle :: "bytes \<Rightarrow> 's \<Rightarrow> 's option"
      by (intro ext, subst bpf_walk.simps) auto
    then show ?thesis by (intro exI [of _ "[]"]) simp
  next
    case False
    then obtain hdrlen caplen where r: "read_le16 b (i + bl_hdrlen L) = Some hdrlen" "read_le32 b (i + bl_caplen L) = Some caplen"
      using L read_le16_in [of "i + bl_hdrlen L" b] read_le32_in [of "i + bl_caplen L" b] by (auto simp: bpf_layout_ok_def)
    define advance where "advance = BPF_WORDALIGN L ((hdrlen + caplen) mod 4294967296)"
    define f where "f = take caplen (drop (i + hdrlen) b)"
    show ?thesis
    proof (cases "advance = 0")
      case True
      then have "bpf_walk L handle b i = foldM handle []" for handle :: "bytes \<Rightarrow> 's \<Rightarrow> 's option"
        using False r by (intro ext, subst bpf_walk.simps) (simp add: Let_def flip: advance_def)
      then show ?thesis by (intro exI [of _ "[]"]) simp
    next
      case adv: False
      then have "length b - (i + advance) < length b - i" using False by arith
      from less.hyps [OF this] obtain fs where fs: "list_all (\<lambda>f. accept_frame f \<and> part_of f b) fs"
        "\<And>(handle :: bytes \<Rightarrow> 's \<Rightarrow> 's option). bpf_walk L handle b (i + advance) = foldM handle fs" by blast
      let ?in = "i + hdrlen \<le> length b \<and> caplen \<le> length b - (i + hdrlen) \<and> 54 \<le> caplen \<and> accept_frame f"
      have "bpf_walk L handle b i = foldM handle (if ?in then f # fs else fs)" for handle :: "bytes \<Rightarrow> 's \<Rightarrow> 's option"
        using False r adv
        by (intro ext, subst bpf_walk.simps) (auto simp: Let_def fs(2) f_def not_less not_le read_bytes_def simp flip: advance_def)
      moreover have "part_of f b" if ?in
        using that unfolding part_of_def by (intro exI [of _ "i + hdrlen"]) (auto simp: f_def)
      ultimately show ?thesis using fs(1) by (intro exI [of _ "if ?in then f # fs else fs"]) simp
    qed
  qed
qed

lemma WORDALIGN_ge: "bpf_layout_ok L \<Longrightarrow> n \<le> BPF_WORDALIGN L n"
proof -
  assume "bpf_layout_ok L"
  then obtain a where a: "bl_align L = Suc a" by (cases "bl_align L") (auto simp: bpf_layout_ok_def)
  have "n + a = (n + a) div Suc a * Suc a + (n + a) mod Suc a" by (simp del: mult_Suc_right)
  moreover have "(n + a) mod Suc a \<le> a" by (simp add: less_Suc_eq_le [symmetric])
  ultimately have "n \<le> (n + a) div Suc a * Suc a" by linarith
  then show ?thesis by (simp add: BPF_WORDALIGN_def a)
qed

lemma bpf_walk_records:
  assumes "bpf_layout_ok L" "list_all (bpf_rec_ok L) rs"
  shows "bpf_walk L handle (p @ bpf_bytes L rs) (length p) s = foldM handle (filter accept_frame (map snd rs)) s"
  using assms(2)
proof (induction rs arbitrary: p s)
  case Nil
  then show ?case by (subst bpf_walk.simps) (simp add: bpf_bytes_def)
next
  case (Cons r rs)
  obtain h f where r: "r = (h, f)" by (cases r)
  let ?n = "length h + length f" let ?pad = "replicate (BPF_WORDALIGN L ?n - ?n) 0" let ?b = "p @ bpf_bytes L (r # rs)"
  have ok: "bl_size L \<le> ?n" "?n < 4294967296" and off: "bl_caplen L + 4 \<le> length h" "bl_hdrlen L + 2 \<le> length h" and rec:
    "read_le16 h (bl_hdrlen L) = Some (length h)" "read_le32 h (bl_caplen L) = Some (length f)"
    using Cons.prems by (simp_all add: bpf_rec_ok_def r)
  have b: "?b = p @ h @ f @ ?pad @ bpf_bytes L rs" by (simp add: bpf_bytes_def r)
  have adv: "?n \<le> BPF_WORDALIGN L ?n" "0 < length h" using WORDALIGN_ge [OF assms(1)] off by auto
  have rd: "read_le16 ?b (length p + bl_hdrlen L) = Some (length h)" "read_le32 ?b (length p + bl_caplen L) = Some (length f)"
    using rec off unfolding b read_le16_append read_le32_append
    by (simp_all add: read_le16_def read_le32_def read_byte_def nth_append)
  have tail: "bpf_walk L handle ?b (length p + BPF_WORDALIGN L ?n) = foldM handle (filter accept_frame (map snd rs))"
    using Cons.IH [of "p @ h @ f @ ?pad"] Cons.prems adv(1) unfolding b by (intro ext) simp
  have rb: "read_bytes ?b (length p + length h) (length f) = Some f" unfolding b by (simp add: read_bytes_def)
  have "length ?b \<ge> length p + (length h + length f)" unfolding b by simp
  then have len: "\<not> length p + bl_size L > length ?b" "length p < length ?b" "\<not> length p + length h > length ?b"
    "\<not> length f > length ?b - (length p + length h)" using ok(1) adv(2) by linarith+
  have "BPF_WORDALIGN L (?n mod 4294967296) = BPF_WORDALIGN L ?n" "BPF_WORDALIGN L ?n \<noteq> 0" using ok(2) adv by (simp, linarith)
  then have "bpf_walk L handle ?b (length p) s =
    (if accept_frame f then handle f s else Some s) \<bind> foldM handle (filter accept_frame (map snd rs))"
    using len rd rb tail by (subst bpf_walk.simps) (auto simp: Let_def accept_frame_def)
  then show ?case by (simp add: r)
qed

lemma bpf_io_handler_any:
  assumes "bpf_layout_ok L"
  shows "\<exists>fs. (\<forall>f\<in>set fs. accept_frame f \<and> (\<exists>b\<in>set reads. part_of f b)) \<and>
    (\<forall>handle :: bytes \<Rightarrow> 's \<Rightarrow> 's option. bpf_io_handler L handle reads = foldM handle fs)"
proof (induction reads)
  case Nil
  show ?case by (intro exI [of _ "[]"]) auto
next
  case (Cons b reads)
  show ?case
  proof (cases "b = []")
    case True
    then show ?thesis by (intro exI [of _ "[]"]) auto
  next
    case False
    from Cons obtain fs where fs: "\<forall>f\<in>set fs. accept_frame f \<and> (\<exists>b\<in>set reads. part_of f b)"
      "\<And>handle :: bytes \<Rightarrow> 's \<Rightarrow> 's option. bpf_io_handler L handle reads = foldM handle fs" by blast
    from bpf_walk_any [OF assms, of b 0] obtain gs where gs: "list_all (\<lambda>f. accept_frame f \<and> part_of f b) gs"
      "\<And>handle :: bytes \<Rightarrow> 's \<Rightarrow> 's option. bpf_walk L handle b 0 = foldM handle gs" by blast
    have "bpf_io_handler L handle (b # reads) = foldM handle (gs @ fs)" for handle :: "bytes \<Rightarrow> 's \<Rightarrow> 's option"
      using False by (intro ext) (simp add: fs(2) gs(2) foldM_append)
    then show ?thesis using fs(1) gs(1) by (intro exI [of _ "gs @ fs"]) (auto simp: list_all_iff)
  qed
qed

lemma bpf_bytes_nonempty: "list_all (bpf_rec_ok L) rs \<Longrightarrow> rs \<noteq> [] \<Longrightarrow> bpf_bytes L rs \<noteq> []"
  by (cases rs) (auto simp: bpf_bytes_def bpf_rec_ok_def split: prod.splits)

lemma bpf_io_handler_records:
  assumes "bpf_layout_ok L" "list_all (\<lambda>rs. rs \<noteq> [] \<and> list_all (bpf_rec_ok L) rs) rss"
  shows "bpf_io_handler L handle (map (bpf_bytes L) rss) s = foldM handle (filter accept_frame (map snd (concat rss))) s"
  using assms(2)
proof (induction rss arbitrary: s)
  case (Cons rs rss)
  then have "bpf_io_handler L handle (map (bpf_bytes L) rss) = foldM handle (filter accept_frame (map snd (concat rss)))"
    by (intro ext) simp
  then show ?case
    using Cons.prems bpf_walk_records [OF assms(1), of rs handle "[]" s] bpf_bytes_nonempty [of L rs] by (simp add: foldM_append)
qed simp

text \<open>
  C19: the receive loop on a BPF device is safe and exact.  On any bytes that reads return, it ends, reads only inside them and hands
  on, in order, frames that pass the checks and lie in one of the buffers.  On buffers of records as the device writes them it hands
  on every captured frame that passes the checks and nothing else.
\<close>

theorem bpf_frames_exact:
  fixes handle :: "bytes \<Rightarrow> 's \<Rightarrow> 's option"
  assumes "bpf_layout_ok L"
  shows "(\<exists>fs. (\<forall>f\<in>set fs. accept_frame f \<and> (\<exists>b\<in>set reads. part_of f b)) \<and>
            (\<forall>h :: bytes \<Rightarrow> 's \<Rightarrow> 's option. bpf_io_handler L h reads = foldM h fs)) \<and>
     (list_all (\<lambda>rs. rs \<noteq> [] \<and> list_all (bpf_rec_ok L) rs) rss \<longrightarrow>
        bpf_io_handler L handle (map (bpf_bytes L) rss) s = foldM handle (filter accept_frame (map snd (concat rss))) s)"
  by (intro conjI impI bpf_io_handler_any [OF assms] bpf_io_handler_records [OF assms])

text \<open>The layout of a 64-bit FreeBSD, and a buffer with one solicitation.\<close>

definition freebsd_layout :: bpf_layout where
  "freebsd_layout = \<lparr>bl_size = 32, bl_caplen = 16, bl_hdrlen = 24, bl_align = 8\<rparr>"

definition sample_record :: bpf_rec where
  "sample_record =
     (replicate 16 0 @ le32_bytes 86 @ le32_bytes 86 @ le16_bytes 26, ns_frame (Nd_lladdr 2 0 0 0 0 1) (Nd_addr 0xb80d0120 0 0 0x01000000))"

theorem bpf_frames_exact_witness:
  "bpf_io_handler freebsd_layout (\<lambda>f fs. Some (fs @ [f])) [bpf_bytes freebsd_layout [sample_record, sample_record]] [] =
     Some [snd sample_record, snd sample_record]"
proof -
  have L: "bpf_layout_ok freebsd_layout" by (simp add: bpf_layout_ok_def freebsd_layout_def)
  have fr: "length (snd sample_record) = 86" "accept_frame (snd sample_record)"
    by (simp_all add: sample_record_def ns_frame_def ns_icmp_def icmp6_frame_accepted)
  have ok: "bpf_rec_ok freebsd_layout sample_record"
    using fr(1) read_le16_append [of "replicate 16 0 @ le32_bytes 86 @ le32_bytes 86" "le16_bytes 26 @ []" 0] read_le16_bytes [of 26 "[]"]
      read_le32_append [of "replicate 16 0" "le32_bytes 86 @ le32_bytes 86 @ le16_bytes 26" 0] read_le32_bytes [of 86 "le32_bytes 86 @ le16_bytes 26"]
    by (simp add: bpf_rec_ok_def freebsd_layout_def sample_record_def)
  show ?thesis
    using bpf_frames_exact [OF L, where handle = "\<lambda>f fs. Some (fs @ [f])" and rss = "[[sample_record, sample_record]]" and s = "[]"] ok fr by simp
qed

end
