(* ===== verification/Bsd_Daemon.thy ===== *)
theory Bsd_Daemon
  imports Bsd_Route Bsd_Packet
begin

text \<open>
  The parts of the build without epoll, netlink and packet sockets together: opening the routing socket, the states that opening,
  closing and rebinding interfaces can reach, and \<open>nd_io_poll\<close> of \<^verbatim>\<open>src/io.c\<close>, which waits with \<open>poll\<close> and looks the ready
  descriptors up in the list of sockets.
\<close>

subsection \<open>The routing socket\<close>

text \<open>The branch of \<open>nd_rt_open\<close>; the pointer is \<open>ndL_io\<close> of \<^verbatim>\<open>rt.c\<close>, and there is nothing to bind.\<close>

definition bsd_rt_open :: "io_kernel \<Rightarrow> ptr option \<Rightarrow> 'a bsd_state_scheme \<Rightarrow> (bool \<times> ptr option \<times> 'a bsd_state_scheme) option" where
  "bsd_rt_open k rt_io s =
     (if rt_io \<noteq> None then Some (True, rt_io, s)
      else case bio_open k (bs_reg s) of
        (None, r) \<Rightarrow> Some (False, None, s\<lparr>bs_reg := r\<rparr>)
      | (Some io, r) \<Rightarrow> do {
          r' \<leftarrow> bio_update io (\<lambda>x. x\<lparr>bi_handler := Some Rt_io_handler\<rparr>) r;
          Some (True, Some io, s\<lparr>bs_reg := r'\<rparr>)
        })"

lemma bpf_linked_other:
  assumes "bpf_linked r m" "h_bio r io = None" "bi_handler x \<noteq> Some Iface_io_handler" "h_bio r' = (h_bio r)(io \<mapsto> x)"
  shows "bpf_linked r' m"
proof (rule bpf_linkedI)
  fix p jo assume "m p = Some jo"
  from bpf_linkedD(1) [OF assms(1) this] show "\<exists>x. h_bio r' jo = Some x \<and> bi_data x = Some p \<and> bi_handler x = Some Iface_io_handler"
    using assms(2,4) by (cases "jo = io") auto
next
  fix jo y assume "h_bio r' jo = Some y" "bi_handler y = Some Iface_io_handler"
  then show "\<exists>p. bi_data y = Some p \<and> m p = Some jo" using bpf_linkedD(2) [OF assms(1), of jo y] assms(3,4) by (auto split: if_splits)
qed

lemma bsd_rt_open_ok:
  assumes "bsd_inv base s" "k_socket k = -1 \<or> lowest_free (k_socket k) (bio_fds (bs_reg s))"
  shows "\<exists>ok io s'. bsd_rt_open k None s = Some (ok, io, s') \<and> bsd_inv base s'"
proof -
  note d = bsd_invD [OF assms(1)]
  obtain q r where q: "bio_open k (bs_reg s) = (q, r)" "bio_inv base r" "case q of None \<Rightarrow> h_bio r = h_bio (bs_reg s)
     | Some p \<Rightarrow> h_bio (bs_reg s) p = None \<and> h_bio r = (h_bio (bs_reg s))(p \<mapsto> \<lparr>bi_fd = k_socket k, bi_data = None, bi_handler = None\<rparr>)"
    using bio_open_ok [OF d(1), of k] assms(2) by blast
  show ?thesis
  proof (cases q)
    case None
    then show ?thesis using q bsd_inv_reg_only [OF assms(1) q(2)] bpf_linked_same [OF d(2)] by (auto simp: bsd_rt_open_def)
  next
    case (Some io)
    let ?x = "\<lparr>bi_fd = k_socket k, bi_data = None, bi_handler = None\<rparr>"
    have x: "h_bio (bs_reg s) io = None" "h_bio r io = Some ?x" "h_bio r = (h_bio (bs_reg s))(io \<mapsto> ?x)" using q(3) Some by simp_all
    obtain r' where r': "bio_update io (\<lambda>x. x\<lparr>bi_handler := Some Rt_io_handler\<rparr>) r = Some r'" "bio_inv base r'"
      "h_bio r' = (h_bio (bs_reg s))(io \<mapsto> ?x\<lparr>bi_handler := Some Rt_io_handler\<rparr>)"
      using bio_update_ok [OF q(2) x(2), of "\<lambda>x. x\<lparr>bi_handler := Some Rt_io_handler\<rparr>"] x(3) by auto
    have "bpf_linked r' (bs_bpf s)" by (rule bpf_linked_other [OF d(2) x(1) _ r'(3)]) simp
    then show ?thesis using q(1) Some r' bsd_inv_reg_only [OF assms(1) r'(2)] by (auto simp: bsd_rt_open_def)
  qed
qed

subsection \<open>The states the build can reach\<close>

definition bsd_start :: "int list \<Rightarrow> bsd_state" where
  "bsd_start inherited =
    \<lparr>nd_current_time = 0, out = [], ndL_routes = [], ndL_addrs = [], nd_rt_dump_timeout = 0, h_iface = Map.empty, ndL_first_iface = [],
     ndL_io = False, nd_iface_no_restore_flags = False, heap_next = 0, bs_reg = bio_init inherited, bs_bpf = Map.empty\<rparr>"

inductive bsd_reach :: "int list \<Rightarrow> bsd_state \<Rightarrow> bool" for inherited :: "int list" where
  start: "distinct inherited \<Longrightarrow> bsd_reach inherited (bsd_start inherited)"
| rt_open: "bsd_reach inherited s \<Longrightarrow> k_socket k = -1 \<or> lowest_free (k_socket k) (bio_fds (bs_reg s)) \<Longrightarrow>
    bsd_rt_open k None s = Some (ok, io, s') \<Longrightarrow> bsd_reach inherited s'"
| iface_open: "bsd_reach inherited s \<Longrightarrow> bpf_kernel_ok ba \<Longrightarrow> kernel_ok k \<Longrightarrow> (\<And>nm. name = Some nm \<Longrightarrow> length nm < IF_NAMESIZE) \<Longrightarrow>
    bsd_iface_open k ba name index promiscuous s = Some (r, s') \<Longrightarrow> bsd_reach inherited s'"
| iface_close: "bsd_reach inherited s \<Longrightarrow> p \<in> dom (h_iface s) \<Longrightarrow> bsd_iface_close p s = Some s' \<Longrightarrow> bsd_reach inherited s'"
| rebind: "bsd_reach inherited s \<Longrightarrow> bpf_kernel_ok ba \<Longrightarrow> bsd_rebind_all k ba s = Some s' \<Longrightarrow> bsd_reach inherited s'"
| refresh: "bsd_reach inherited s \<Longrightarrow> ndL_refresh_pollfds realloc (bs_reg s) = Some (Inr r) \<Longrightarrow>
    bsd_reach inherited (s\<lparr>bs_reg := r\<lparr>ndL_dirty := False\<rparr>\<rparr>)"

lemma bsd_refresh_ok:
  assumes "bsd_inv base s" "ndL_refresh_pollfds realloc (bs_reg s) = Some (Inr r)"
  shows "bsd_inv base (s\<lparr>bs_reg := r\<lparr>ndL_dirty := False\<rparr>\<rparr>)"
proof -
  have "realloc \<or> length (first_bio (bs_reg s)) \<le> length (ndL_pollfds (bs_reg s))"
  proof (rule ccontr)
    assume "\<not> ?thesis"
    then have "ndL_refresh_pollfds realloc (bs_reg s) = Some (Inl 1)" by (simp add: ndL_refresh_pollfds_def Let_def)
    with assms(2) show False by simp
  qed
  from ndL_refresh_pollfds_ok [OF bsd_invD(1) [OF assms(1)] this] assms(2)
  have "bio_inv base (r\<lparr>ndL_dirty := False\<rparr>)" "h_bio (r\<lparr>ndL_dirty := False\<rparr>) = h_bio (bs_reg s)" by auto
  then show ?thesis using bsd_inv_reg_only [OF assms(1)] bpf_linked_same [OF bsd_invD(2) [OF assms(1)]] by blast
qed

lemma bsd_reach_inv: "bsd_reach inherited s \<Longrightarrow> bsd_inv (set inherited) s"
proof (induction rule: bsd_reach.induct)
  case start
  then show ?case using bio_inv_init by (simp add: bsd_inv_def bsd_start_def bpf_linked_def bio_init_def)
next
  case (rt_open s k ok io s')
  then show ?case using bsd_rt_open_ok [of "set inherited" s k] by auto
next
  case (iface_open s ba k name index promiscuous r s')
  then show ?case using bsd_iface_open_ok [of "set inherited" s ba k name index promiscuous] by auto
next
  case (iface_close s p s')
  then show ?case using bsd_iface_close_ok [of "set inherited" s p] by auto
next
  case (rebind s ba k s')
  then show ?case using bsd_rebind_all_ok [of "set inherited" s ba k] by auto
next
  case (refresh s realloc r)
  then show ?case using bsd_refresh_ok by blast
qed

text \<open>
  C17: devices, interfaces and descriptors stay exact in every state that opening, closing and rebinding interfaces can reach, whatever
  the system refuses on the way: the open descriptors are the inherited ones and one for each socket of the list; a device points to a
  live interface that points back to it; the array for \<open>poll\<close>, unless it is marked as out of date, has exactly the descriptors of the
  list.
\<close>

theorem bsd_devices_exact:
  assumes "bsd_reach inherited s"
  shows "set (bio_fds (bs_reg s)) = set inherited \<union> {bi_fd x |io x. h_bio (bs_reg s) io = Some x} \<and> distinct (bio_fds (bs_reg s)) \<and>
    (\<forall>p io. bs_bpf s p = Some io \<longrightarrow> p \<in> dom (h_iface s) \<and> (\<exists>x. h_bio (bs_reg s) io = Some x \<and> bi_data x = Some p)) \<and>
    (\<forall>io x. h_bio (bs_reg s) io = Some x \<and> bi_handler x = Some Iface_io_handler \<longrightarrow> (\<exists>p. bi_data x = Some p \<and> bs_bpf s p = Some io)) \<and>
    (ndL_dirty (bs_reg s) \<or> take (ndL_pollfds_count (bs_reg s)) (ndL_pollfds (bs_reg s)) = map (\<lambda>io. bi_fd (the (h_bio (bs_reg s) io))) (first_bio (bs_reg s)))"
proof -
  note d = bsd_invD [OF bsd_reach_inv [OF assms]] and r = bio_invD [OF bsd_invD(1) [OF bsd_reach_inv [OF assms]]]
  have "set (listed_fds (bs_reg s)) = {bi_fd x |io x. h_bio (bs_reg s) io = Some x}"
    unfolding listed_fds_def set_map r(2) by force
  moreover have "p \<in> dom (h_iface s)" if "bs_bpf s p = Some io" for p io using d(3) that by auto
  ultimately show ?thesis using r(4,6,8) bpf_linkedD [OF d(2)] unfolding listed_fds_def by (intro conjI allI impI) (auto, metis+)
qed

theorem bsd_devices_exact_witness:
  "\<exists>s'. bsd_rt_open sample_io_kernel None (bsd_start [0, 1, 2]) = Some (True, Some 0, s') \<and> set (bio_fds (bs_reg s')) = {0, 1, 2, 3}"
proof -
  obtain s' where s': "bsd_rt_open sample_io_kernel None (bsd_start [0, 1, 2]) = Some (True, Some 0, s')"
    "h_bio (bs_reg s') = [0 \<mapsto> \<lparr>bi_fd = 3, bi_data = None, bi_handler = Some Rt_io_handler\<rparr>]"
    by (simp add: bsd_rt_open_def bsd_start_def bio_init_def bio_open_def bio_create_def bio_update_def sample_io_kernel_def Let_def)
  have low: "lowest_free (k_socket sample_io_kernel) (bio_fds (bs_reg (bsd_start [0, 1, 2])))"
    by (auto simp: lowest_free_def sample_io_kernel_def bsd_start_def bio_init_def)
  have "bsd_reach [0, 1, 2] (bsd_start [0, 1, 2])" by (rule bsd_reach.start) simp
  then have "bsd_reach [0, 1, 2] s'" by (rule bsd_reach.rt_open [OF _ disjI2 [OF low] s'(1)])
  from bsd_devices_exact [OF this] s' show ?thesis by (auto split: if_splits)
qed

subsection \<open>Polling\<close>

text \<open>What \<open>nd_io_poll\<close> does before it waits: rebuild the array when the list has changed.  \<open>Inl\<close> is the end of the process.\<close>

definition poll_prepare :: "bool \<Rightarrow> 'a bsd_state_scheme \<Rightarrow> (int + 'a bsd_state_scheme) option" where
  "poll_prepare realloc s =
     (if ndL_dirty (bs_reg s) then do {
        r \<leftarrow> ndL_refresh_pollfds realloc (bs_reg s);
        case r of Inl code \<Rightarrow> Some (Inl code) | Inr reg \<Rightarrow> Some (Inr (s\<lparr>bs_reg := reg\<lparr>ndL_dirty := False\<rparr>\<rparr>))
      } else Some (Inr s))"

text \<open>
  The loop over the array: for every descriptor that is ready, the first socket of the list with that descriptor.  \<open>run\<close> calls a
  handler.
\<close>

fun poll_loop ::
  "(io_handler \<Rightarrow> ptr \<Rightarrow> 'a bsd_state_scheme \<Rightarrow> 'a bsd_state_scheme option) \<Rightarrow> (int \<times> bool) list \<Rightarrow> 'a bsd_state_scheme \<Rightarrow> 'a bsd_state_scheme option" where
  "poll_loop run [] s = Some s"
| "poll_loop run ((fd, ready) # fds) s =
     (if \<not> ready then poll_loop run fds s
      else do {
        found \<leftarrow> heap_find (h_bio (bs_reg s)) (\<lambda>x. bi_fd x = fd) (first_bio (bs_reg s));
        s' \<leftarrow> (case found of
                None \<Rightarrow> Some s
              | Some io \<Rightarrow> do { x \<leftarrow> h_bio (bs_reg s) io; case bi_handler x of None \<Rightarrow> Some s | Some h \<Rightarrow> run h io s });
        poll_loop run fds s'
      })"

definition bsd_io_poll ::
  "(io_handler \<Rightarrow> ptr \<Rightarrow> 'a bsd_state_scheme \<Rightarrow> 'a bsd_state_scheme option) \<Rightarrow> bool \<Rightarrow> (sys_error + bool list) list \<Rightarrow> 'a bsd_state_scheme \<Rightarrow>
   (int + bool \<times> 'a bsd_state_scheme) option" where
  "bsd_io_poll run realloc waits s = do {
     p \<leftarrow> poll_prepare realloc s;
     case p of
       Inl code \<Rightarrow> Some (Inl code)
     | Inr s1 \<Rightarrow> do {
         w \<leftarrow> retry waits;
         case w of
           Inl _ \<Rightarrow> Some (Inr (False, s1))
         | Inr revents \<Rightarrow> do {
             require (ndL_pollfds_count (bs_reg s1) \<le> length (ndL_pollfds (bs_reg s1)));
             s2 \<leftarrow> poll_loop run (zip (take (ndL_pollfds_count (bs_reg s1)) (ndL_pollfds (bs_reg s1))) revents) s1;
             Some (Inr (True, s2))
           }
       }
   }"

text \<open>
  The two handlers: a device's, with what its reads return and \<open>handle\<close> for \<open>ndL_handle_msg\<close> on the interface in its field
  \<open>data\<close>, and the routing socket's.
\<close>

definition bsd_run ::
  "bpf_layout \<Rightarrow> (ptr \<Rightarrow> bytes \<Rightarrow> 'a bsd_state_scheme \<Rightarrow> 'a bsd_state_scheme option) \<Rightarrow> (ptr \<Rightarrow> bytes list) \<Rightarrow> (kernel \<times> bpf_kernel \<times> bytes) list \<Rightarrow>
   io_handler \<Rightarrow> ptr \<Rightarrow> 'a bsd_state_scheme \<Rightarrow> 'a bsd_state_scheme option" where
  "bsd_run L handle reads msgs h io s =
     (case h of
        Iface_io_handler \<Rightarrow> do { x \<leftarrow> h_bio (bs_reg s) io; ip \<leftarrow> bi_data x; bpf_io_handler L (handle ip) (reads io) s }
      | Rt_io_handler \<Rightarrow> rtsock_io_handler msgs s)"

lemma poll_prepare_ok:
  assumes "bsd_inv base s" "realloc \<or> length (first_bio (bs_reg s)) \<le> length (ndL_pollfds (bs_reg s))"
  shows "\<exists>s1. poll_prepare realloc s = Some (Inr s1) \<and> bsd_inv base s1 \<and> ndL_pollfds_count (bs_reg s1) \<le> length (ndL_pollfds (bs_reg s1)) \<and>
    take (ndL_pollfds_count (bs_reg s1)) (ndL_pollfds (bs_reg s1)) = listed_fds (bs_reg s)"
proof (cases "ndL_dirty (bs_reg s)")
  case False
  then show ?thesis using bio_clean_ok [OF bsd_invD(1) [OF assms(1)] False] assms(1) by (auto simp: poll_prepare_def)
next
  case True
  obtain r where r: "ndL_refresh_pollfds realloc (bs_reg s) = Some (Inr r)" "bio_inv base (r\<lparr>ndL_dirty := False\<rparr>)" "h_bio r = h_bio (bs_reg s)"
    "first_bio r = first_bio (bs_reg s)"
    using ndL_refresh_pollfds_ok [OF bsd_invD(1) [OF assms(1)] assms(2)] by blast
  have "listed_fds (r\<lparr>ndL_dirty := False\<rparr>) = listed_fds (bs_reg s)" using r(3,4) by (simp add: listed_fds_def)
  then show ?thesis using True r(1) bio_clean_ok [OF r(2)] bsd_refresh_ok [OF assms(1) r(1)] by (auto simp: poll_prepare_def)
qed

lemma bsd_run_ok:
  assumes inv: "bsd_inv base s" and L: "bpf_layout_ok L"
    and handle: "\<And>ip f t. bsd_inv base t \<Longrightarrow> ip \<in> dom (h_iface t) \<Longrightarrow> accept_frame f \<Longrightarrow>
      \<exists>t'. handle ip f t = Some t' \<and> bsd_inv base t' \<and> dom (h_iface t) \<subseteq> dom (h_iface t')"
    and msgs: "list_all (\<lambda>(k, ba, b). bpf_kernel_ok ba \<and> (\<exists>ms. list_all rm_ok ms \<and> b = concat (map rm_bytes ms))) msgs"
    and x: "h_bio (bs_reg s) io = Some x" "bi_handler x = Some h"
  shows "\<exists>s'. bsd_run L handle reads msgs h io s = Some s' \<and> bsd_inv base s'"
proof (cases h)
  case Rt_io_handler
  have "\<exists>s'. rtsock_io_handler msgs s = Some s' \<and> bsd_inv base s'"
    unfolding rtsock_io_handler_def
  proof (rule foldM_inv [where I = "bsd_inv base"])
    fix m and t :: "'a bsd_state_scheme" assume m: "m \<in> set msgs" "bsd_inv base t"
    obtain k ba b where "m = (k, ba, b)" by (cases m)
    with m msgs obtain ms where "m = (k, ba, concat (map rm_bytes ms))" "list_all rm_ok ms" "bpf_kernel_ok ba" by (auto simp: list_all_iff)
    then show "\<exists>t'. (case m of (k, ba, b) \<Rightarrow> \<lambda>s. rtsock_handle k ba b 0 s) t = Some t' \<and> bsd_inv base t'"
      using rtsock_handle_inv [OF _ m(2)] by simp
  qed (rule inv)
  then show ?thesis using Rt_io_handler by (simp add: bsd_run_def)
next
  case Iface_io_handler
  note d = bsd_invD [OF inv]
  obtain ip where ip: "bi_data x = Some ip" "bs_bpf s ip = Some io" using bpf_linkedD(2) [OF d(2) x(1)] x(2) Iface_io_handler by auto
  then have live: "ip \<in> dom (h_iface s)" using d(3) by auto
  obtain fs where fs: "\<forall>f\<in>set fs. accept_frame f \<and> (\<exists>b\<in>set (reads io). part_of f b)" "bpf_io_handler L (handle ip) (reads io) = foldM (handle ip) fs"
    using bpf_io_handler_any [OF L] by blast
  have "\<exists>s'. foldM (handle ip) fs s = Some s' \<and> bsd_inv base s' \<and> ip \<in> dom (h_iface s')"
    by (rule foldM_inv [where I = "\<lambda>t. bsd_inv base t \<and> ip \<in> dom (h_iface t)"]) (use inv live handle fs(1) in blast)+
  then show ?thesis using Iface_io_handler x(1) ip(1) fs(2) by (auto simp: bsd_run_def)
qed

lemma poll_loop_ok:
  assumes "bsd_inv base s"
    and run: "\<And>h io t x. bsd_inv base t \<Longrightarrow> h_bio (bs_reg t) io = Some x \<Longrightarrow> bi_handler x = Some h \<Longrightarrow> \<exists>t'. run h io t = Some t' \<and> bsd_inv base t'"
  shows "\<exists>s'. poll_loop run fds s = Some s' \<and> bsd_inv base s'"
  using assms(1)
proof (induction fds arbitrary: s)
  case (Cons e fds)
  obtain fd ready where e: "e = (fd, ready)" by (cases e)
  show ?case
  proof (cases ready)
    case True
    have "set (first_bio (bs_reg s)) \<subseteq> dom (h_bio (bs_reg s))" using bio_invD(2) [OF bsd_invD(1) [OF Cons.prems]] by simp
    then obtain found where found: "heap_find (h_bio (bs_reg s)) (\<lambda>x. bi_fd x = fd) (first_bio (bs_reg s)) = Some found"
      using heap_find_total by blast
    have "\<exists>s1. (case found of None \<Rightarrow> Some s
              | Some io \<Rightarrow> do { x \<leftarrow> h_bio (bs_reg s) io; case bi_handler x of None \<Rightarrow> Some s | Some h \<Rightarrow> run h io s }) = Some s1 \<and> bsd_inv base s1"
    proof (cases found)
      case None
      then show ?thesis using Cons.prems by simp
    next
      case (Some io)
      then obtain x where x: "h_bio (bs_reg s) io = Some x" using heap_find_SomeD found by fastforce
      then show ?thesis using Some Cons.prems run [OF Cons.prems x] by (cases "bi_handler x") simp_all
    qed
    then obtain s1 where "(case found of None \<Rightarrow> Some s
              | Some io \<Rightarrow> do { x \<leftarrow> h_bio (bs_reg s) io; case bi_handler x of None \<Rightarrow> Some s | Some h \<Rightarrow> run h io s }) = Some s1" "bsd_inv base s1" by blast
    then show ?thesis using Cons.IH [of s1] True e found by simp
  next
    case False
    then show ?thesis using Cons.IH [OF Cons.prems] e by simp
  qed
qed simp



end
