(* ===== verification/Spec2Isabelle.thy ===== *)
theory Spec2Isabelle
  imports Addr_Masks Alloc Linked_List Bpf_Filter Maintenance Process_User Bsd_Daemon Log
begin

text \<open>
  This development verifies unidoc-ndppd, a daemon that proxies IPv6 neighbour discovery between interfaces: it listens for neighbour
  solicitations on the interface of a proxy, asks for the target on the interface a rule names, and answers in the target's place
  once the target has answered.  The code is C, under \<^verbatim>\<open>src/src/\<close>; the daemon as a whole is modelled in its
  Linux branches, the parts of it that differ on FreeBSD in theories of their own.

  \<^bold>\<open>Conventions.\<close>  A pointer is a natural number, an object lives in a partial map from pointers (\<open>h_session\<close>,
  \<open>h_rule\<close>, \<open>h_proxy\<close>, \<open>h_iface\<close>), and an operation returns \<open>None\<close> exactly where the C code would do something
  undefined: follow a pointer that is not live, read outside a buffer, copy a name that does not fit.  So the theorems that an operation
  returns \<open>Some\<close> are memory safety.  The static variables of the files are the fields of one record, built by extension in the
  order of the theories: \<open>nd_env\<close> (time and outward actions), \<open>rt_state\<close>, \<open>iface_state\<close>, \<open>session_state\<close>,
  \<open>conf_state\<close>; an operation of a lower layer is polymorphic in the rest, which shows what it cannot touch.  The sockets and
  descriptors are a record of their own, \<open>io_state\<close>, and \<open>process\<close> puts the two side by side.  What the daemon does to the outside (packets,
  route requests, memberships, dump requests) is appended to the field \<open>out\<close>; what the system answers (interface indices, flags,
  hardware addresses, results of system calls) is the record \<open>kernel\<close>, an argument of the operations that ask, about which
  \<open>kernel_ok\<close> states what the manual pages promise.  Addresses are four 32-bit words as in \<open>nd_addr_t\<close>, on either byte
  order; frames and netlink datagrams are lists of bytes.  Times are unbounded integers (the code uses \<^verbatim>\<open>long\<close>
  milliseconds).  Log messages are left out where they are sent; the function that writes them is modelled by itself.

  \<^bold>\<open>Theories and sources.\<close>
  \<^item> \<open>Nd_Prelude\<close>: generic facts on lists, option-valued loops (\<open>foldM\<close>, \<open>all_loop\<close>), heaps and words.
  \<^item> \<open>Linked_List\<close> (the \<^verbatim>\<open>ND_LL_*\<close> macros of \<^verbatim>\<open>ndppd.h\<close>): pointer-level lists, shown to implement cons, removal,
    search and iteration with deletion.  The other theories use the lists.
  \<^item> \<open>Addr\<close>, \<open>Addr_Masks\<close> (\<^verbatim>\<open>addr.c\<close>): prefix matching as agreement on leading bits, rewriting, masks, on both
    byte orders.  Locale \<open>prefix_matching\<close> is what the routing table needs of it.
  \<^item> \<open>Alloc\<close> (\<^verbatim>\<open>alloc.c\<close>): the block allocator; blocks are aligned and disjoint.  Locale \<open>block_allocator\<close> states its
    contract.
  \<^item> \<open>Daemon_Env\<close>, \<open>Route_Table\<close> (\<^verbatim>\<open>rt.c\<close>): the sorted route list and the local addresses; the list is a map by
    destination, prefix and table, and lookup is longest-prefix match.
  \<^item> \<open>Frames\<close> (\<^verbatim>\<open>iface.c\<close>): checksums, building and checking of frames, byte by byte; what is built is accepted and
    read back.  \<open>Bpf_Filter\<close>: the socket filter as a program with an interpreter, and exactly what it lets through.
  \<^item> \<open>Iface\<close> (\<^verbatim>\<open>iface.c\<close>): reference-counted interface objects; counts are exact whatever is opened and closed.
  \<^item> \<open>Hash_Index\<close>: locale \<open>hash_index\<close>, chains that index the live objects by hash, interpreted on the two session tables.
  \<^item> \<open>Session\<close>, \<open>Session_Inv\<close>, \<open>Session_Ops\<close>, \<open>Session_Life\<close> (\<^verbatim>\<open>session.c\<close>): sessions and their
    state machine; the invariant \<open>daemon_inv\<close> and that every operation keeps it; then what the operations achieve: who is
    answered, when a session changes state, that the tables are a map.
  \<^item> \<open>Proxy\<close> (\<^verbatim>\<open>proxy.c\<close>, \<^verbatim>\<open>rule.c\<close>): creation and start-up of proxies and rules, \<open>nd_proxy_handle_ns\<close>.
    \<open>Sample\<close>: a concrete daemon for the concrete instances of the properties.
  \<^item> \<open>Packet\<close> (\<^verbatim>\<open>iface.c\<close>): from a received frame to the session it concerns.  \<open>Rebind\<close> (\<^verbatim>\<open>iface.c\<close>): following
    interfaces that vanish, come back or change index.
  \<^item> \<open>Netlink\<close> (\<^verbatim>\<open>rt.c\<close>): the walk over netlink datagrams, messages and attributes, equal to the meaning of the
    messages they encode.
  \<^item> \<open>Main_Loop\<close> (\<^verbatim>\<open>ndppd.c\<close>, \<^verbatim>\<open>io.c\<close>): start-up and the event loop, with the inductive set
    \<open>daemon_reach\<close> of the states the daemon can be in.
  \<^item> \<open>Proxying\<close>, \<open>Maintenance\<close>: what the layers do together: a neighbour's question answered end to end, interfaces
    and routes followed.
  \<^item> \<open>Libc_Text\<close>, \<open>Libc_Print\<close>: the library functions on text the sources call (character classes, \<open>strtoll\<close>,
    \<open>strtoul\<close>, \<open>fgets\<close>, \<open>inet_pton\<close>, \<open>ether_aton\<close>), and texts they are shown to read back.
  \<^item> \<open>Conf\<close>, \<open>Conf_Text\<close>, \<open>Conf_Safe\<close> (\<^verbatim>\<open>conf.c\<close>): the configuration parser on the bytes of the file; its
    readers as functions on the text that is left; that it ends on every file, stays inside file and buffers, and that an accepted
    file gives a configuration the daemon can start from.  Locale \<open>block_entries\<close> is what one entry promises the block around it,
    interpreted for the three kinds of block.
  \<^item> \<open>Userspec\<close> (\<^verbatim>\<open>ndppd.c\<close>): the user to run as and the calls that give up privileges.  Locale \<open>line_database\<close>
    is the contract of a look-up in a file of lines, interpreted for users and groups.
  \<^item> \<open>Io\<close> (\<^verbatim>\<open>io.c\<close>): the registry of sockets, the open descriptors and the epoll set, exact under every failure.
  \<^item> \<open>Process\<close>, \<open>Process_User\<close> (\<^verbatim>\<open>ndppd.c\<close>): the process from its command line to its exit, on any answer of the
    system; the change of user before the loop; the dispatch of events through the registry.
  \<^item> \<open>Log\<close> (\<^verbatim>\<open>log.c\<close>, \<^verbatim>\<open>addr.c\<close>): where a message goes, and how long the text of a printed address lasts.
  \<^item> \<open>Bsd_Packet\<close> (\<^verbatim>\<open>iface.c\<close>): the records a BPF device returns, and which frames are handed on.  \<open>Bsd_Io\<close>
    (\<^verbatim>\<open>io.c\<close>): the registry with the array for \<open>poll\<close> in place of epoll.  \<open>Bsd_Iface\<close> (\<^verbatim>\<open>iface.c\<close>): one BPF device
    per interface, opened, closed and reopened.  \<open>Bsd_Route\<close> (\<^verbatim>\<open>rt.c\<close>): the messages of the routing socket, read and written byte by
    byte.  \<open>Bsd_Daemon\<close>: the states the registry and the interfaces can reach, and the polling loop, whose handlers change the
    list it runs over.  Sizes and offsets of the system's structures are those of a 64-bit FreeBSD.

  \<^bold>\<open>Results.\<close>  The properties are marked C1, C2 and so on; those of one component stand at the end of its theory, those that span
  components below.  The main ones are that the whole program, from any command line and any configuration file to its exit, never
  does anything undefined (\<open>program_safe\<close>, in \<open>Process\<close>), and that no reachable state of its loop goes wrong on any frame from
  the network.  The hypotheses on the environment are that the kernel's answers are as documented (\<open>kernel_ok\<close>, \<open>os_ok\<close>: a
  new descriptor is the lowest free one), that the process starts with its standard descriptors open, and that netlink datagrams,
  which come from the kernel, are well formed (\<open>dgram_ok\<close>); nothing is assumed about frames, files or arguments.

  \<^bold>\<open>Loops.\<close>  No definition uses fuel.  Loops over lists are structural; the loops over bytes recurse on the bytes that remain
  and have termination proofs; the walks of the list macros and the loop over the entries of a configuration block are partial functions,
  where not ending would be \<open>None\<close>, and are shown to end.  The event loop runs over the list of the turns it takes, so that a statement for all lists is one about a
  daemon that never ends.

  \<^bold>\<open>Not modelled.\<close>  Splitting the argument vector into options (\<open>getopt_long\<close> is library code; the model starts from what it
  returns); the stub of \<^verbatim>\<open>mld.c\<close>, which has no operation; sessions on top of the FreeBSD branches, where the handler of a
  message is an argument of the polling loop, and the clean-up at exit of that build.
\<close>

subsection \<open>Sample runs\<close>

definition sample_vars :: loop_vars where
  "sample_vars = \<lparr>querying_routes = True, last_session_update = 0, last_iface_check = 0\<rparr>"

definition sample_main :: "loop_vars \<times> session_state" where
  "sample_main = (sample_vars, snd (nd_rt_query_routes sample_daemon))"

definition idle_turn :: turn where
  "idle_turn = \<lparr>t_stop = False, t_kernel = sample_kernel, t_ready = Some [], t_now = 1000250\<rparr>"

lemma sample_main_start: "main_start True True True sample_kernel True sample_config = Some (Some sample_main, snd sample_main)"
proof -
  have "sample_config\<lparr>ndL_io := True\<rparr> = sample_config" by (simp add: sample_config_def)
  then show ?thesis
    by (simp add: main_start_def nd_iface_startup_def sample_startup sample_main_def sample_vars_def Let_def)
qed

lemma sample_main_reach: "daemon_reach sample_main"
proof (rule daemon_reach.start [OF sample_config_inv sample_config_modes sample_config_names(1) _ sample_kernel_ok sample_main_start])
  show "routes_ok (ndL_routes sample_config)" by (simp add: sample_config_def routes_ok_def)
qed

lemma idle_turn_ok: "turn_ok idle_turn"
  by (simp add: turn_ok_def idle_turn_def)

subsection \<open>The daemon as a whole\<close>



text \<open>
  C3: bounds and ownership in every reachable state.  There are at most 4096 sessions and the counter is their number; no session has
  more than 32 subscribers or the same one twice; two sessions of one proxy never share a target; every session points to a live
  rule; and the reference count of every interface is exactly the number of sessions, rules and proxies that point to it.
\<close>

theorem reachable_bounds:
  assumes "daemon_reach (v, s)"
  shows "ndL_session_count s = int (card (dom (h_session s))) \<and> ndL_session_count s \<le> 4096 \<and>
     unique_targets (h_rule s) (h_session s) \<and>
     (\<forall>p x. h_session s p = Some x \<longrightarrow>
        length (s_subs x) \<le> 32 \<and> distinct (s_subs x) \<and> h_rule s (s_rule x) \<noteq> None \<and>
        (\<forall>ip. s_iface x = Some ip \<longrightarrow> h_iface s ip \<noteq> None)) \<and>
     (\<forall>ip i. h_iface s ip = Some i \<longrightarrow> if_refcount i = int (refs_of s ip) \<and> 0 < refs_of s ip)"
proof -
  have inv: "daemon_inv s" using daemon_reach_ok [OF assms] by (simp add: rt_ok_def running_inv_def)
  then have wf: "session_wf s" and ifs: "iface_inv (refs_of s) s" by (simp_all add: daemon_inv_def)
  have "h_iface s ip \<noteq> None" if "h_session s p = Some x" "s_iface x = Some ip" for p x ip
    using live_iface [OF inv] session_refs [OF inv that] that by blast
  then show ?thesis
    using wf iface_invD(6) [OF ifs]
    by (fastforce simp: session_wf_def tables_ok_def session_ok_def ND_SESSION_MAX_def ND_SESSION_MAX_SUBS_def)
qed

theorem reachable_bounds_witness: "ndL_session_count (snd sample_main) \<le> 4096"
proof -
  have r: "daemon_reach (fst sample_main, snd sample_main)" using sample_main_reach by simp
  show ?thesis using reachable_bounds [OF r] by simp
qed

text \<open>
  Starting establishes the invariant.  From every configuration the parser can leave behind (\<open>config_inv\<close>, every rule
  with a mode), starting up runs without undefined behaviour whatever the kernel answers; if it reports success, at least one
  proxy exists and the state satisfies the invariant the main loop relies on.
\<close>

theorem startup_safe:
  assumes "config_inv s" "modes_ok s" "all_pending s" "routes_ok (ndL_routes s)" "kernel_ok k"
  shows "\<exists>st s'. main_start sock filt bound k rt_opened s = Some (st, s') \<and>
     (\<forall>x. st = Some x \<longrightarrow> rt_ok (snd x) \<and> ndL_proxies s \<noteq> [])"
  by (rule main_start_ok [OF assms])

theorem startup_safe_witness:
  "\<exists>x s'. main_start True True True sample_kernel True sample_config = Some (Some x, s') \<and> rt_ok (snd x)"
proof -
  have r: "routes_ok (ndL_routes sample_config)" by (simp add: sample_config_def routes_ok_def)
  show ?thesis
    using startup_safe [OF sample_config_inv sample_config_modes sample_config_names(1) r sample_kernel_ok, of True True True True]
    by (simp add: sample_main_start del: split_paired_All)
qed

text \<open>
  C4: no session outlives its time.  Start from a daemon without sessions, as after start-up, let the main loop take any turns with any
  events, on a clock that does not go back and with turns of at most \<open>d\<close> milliseconds: at every point no VALID, STALE or
  INVALID session is older than its time to live by more than \<open>100 + d\<close> milliseconds.
\<close>

theorem sessions_expire_on_time:
  assumes "rt_ok s" "h_session s = Map.empty" "last_session_update v \<le> nd_current_time s" "list_all turn_ok ts"
    "0 < nd_conf_valid_ttl s" "0 < nd_conf_stale_ttl s" "0 < nd_conf_invalid_ttl s" "clock_runs d (nd_current_time s) ts" "0 \<le> d"
  shows "\<exists>r v' s'. main_loop ts (v, s) = Some (r, v', s') \<and> (\<forall>p y. h_session s' p = Some y \<longrightarrow> within (100 + d) s' y)"
proof -
  have "ttls_positive s" "on_time v s" using assms by (simp_all add: ttls_positive_def on_time_def)
  from loop_on_time [OF assms(1) this disjI1 [OF assms(2)] assms(4,8,9)]
  obtain r v' s' where "main_loop ts (v, s) = Some (r, v', s')" "on_time v' s'"
    "h_session s' = Map.empty \<or> nd_current_time s' - last_session_update v' \<le> 100 + d" by blast
  then show ?thesis using on_time_within [of v' s' "100 + d"] by auto
qed

theorem sessions_expire_on_time_witness:
  "\<exists>r v' s'. main_loop [idle_turn] sample_main = Some (r, v', s') \<and> (\<nexists>p y. h_session s' p = Some y \<and> \<not> within 350 s' y)"
proof -
  have sel: "h_session (snd sample_main) = Map.empty" "nd_current_time (snd sample_main) = 1000000" "nd_conf_valid_ttl (snd sample_main) = 30000"
    "nd_conf_stale_ttl (snd sample_main) = 30000" "nd_conf_invalid_ttl (snd sample_main) = 10000" "last_session_update (fst sample_main) = 0"
    by (simp_all add: sample_main_def sample_vars_def nd_rt_query_routes_def emit_def sample_daemon_simps)
  have "rt_ok (snd sample_main)" by (rule daemon_reach_ok [OF sample_main_reach])
  from sessions_expire_on_time [OF this sel(1), of "fst sample_main" "[idle_turn]" 250] sel idle_turn_ok
  show ?thesis by (simp add: idle_turn_def)
qed

end
